(* ===== verification/Prelude.thy ===== *)
theory Prelude
  imports Main "HOL-Library.Word" "HOL-Library.Sublist" "HOL-Library.Multiset"
begin

text \<open>
  Shared vocabulary of the development: the machine-integer abbreviations of the Go sources,
  the collections that the component proofs draw on, list facts used by several components and a
  contract that two packages implement: order-preserving removal of duplicates
  (\<^verbatim>\<open>policy.dedup\<close>, \<^verbatim>\<open>upstream.dedupAddrs\<close>).
\<close>

section \<open>Types\<close>

type_synonym u8 = "8 word"
type_synonym u16 = "16 word"
type_synonym u32 = "32 word"

text \<open>A Go \<^verbatim>\<open>string\<close> is a byte sequence; \<^typ>\<open>char\<close> has exactly the 256 byte values.\<close>

type_synonym gostring = string

section \<open>Collections\<close>

named_theorems go_consts \<open>numeric constants of the sources, the protocol and the clock\<close>
named_theorems go_chars \<open>character classes of the modelled standard library\<close>
named_theorems go_strings \<open>trimming of strings\<close>
named_theorems wire_bytes \<open>big-endian bytes of a word\<close>
named_theorems inv_intros \<open>preservation of an invariant, one fact per operation\<close>

section \<open>Lists\<close>

lemma dropWhile_idem [simp]: "dropWhile P (dropWhile P xs) = dropWhile P xs"
  by (induction xs) auto

lemma hd_dropWhile_id: "xs = [] \<or> \<not> P (hd xs) \<Longrightarrow> dropWhile P xs = xs"
  by (cases xs) auto

lemma dropWhile_map: "dropWhile P (map f xs) = map f (dropWhile (P \<circ> f) xs)"
  by (induction xs) auto

lemma takeWhile_break: "x \<notin> set l \<Longrightarrow> takeWhile (\<lambda>c. c \<noteq> x) (l @ x # s) = l"
  by (induction l) auto

lemma dropWhile_break: "x \<notin> set l \<Longrightarrow> dropWhile (\<lambda>c. c \<noteq> x) (l @ x # s) = x # s"
  by (induction l) auto

lemma set_concat_map: "set (concat (map f xs)) = (\<Union>x\<in>set xs. set (f x))"
  by simp

lemma filter_nonempty_iff: "filter P xs \<noteq> [] \<longleftrightarrow> (\<exists>x\<in>set xs. P x)"
  by (auto simp: filter_empty_conv)

section \<open>Removal of duplicates that keeps first occurrences\<close>

text \<open>The position of the first occurrence of an element.\<close>

definition first_at :: "'a list \<Rightarrow> 'a \<Rightarrow> nat" where
  "first_at xs a = length (takeWhile (\<lambda>y. y \<noteq> a) xs)"

lemma first_at_append: "a \<in> set xs \<Longrightarrow> first_at (xs @ ys) a = first_at xs a"
  unfolding first_at_def by (simp add: takeWhile_append1 [of a])

lemma first_at_less: "a \<in> set xs \<Longrightarrow> first_at xs a < length xs"
  unfolding first_at_def by (induction xs) auto

lemma first_at_new: "x \<notin> set xs \<Longrightarrow> first_at (xs @ [x]) x = length xs"
  unfolding first_at_def by (induction xs) auto

text \<open>The elements of a pool that satisfy a condition, each once, in the order of their first occurrence.\<close>

definition chosen_from :: "'a list \<Rightarrow> ('a \<Rightarrow> bool) \<Rightarrow> 'a list \<Rightarrow> bool" where
  "chosen_from pool keep as \<longleftrightarrow> set as = {a \<in> set pool. keep a} \<and> sorted_wrt (\<lambda>a b. first_at pool a < first_at pool b) as"

locale stable_dedup =
  fixes dd :: "'a list \<Rightarrow> 'a list"
  assumes dd_Nil: "dd [] = []"
    and dd_snoc: "dd (xs @ [x]) = (if x \<in> set xs then dd xs else dd xs @ [x])"
begin

lemma dd_set: "set (dd xs) = set xs"
  by (induction xs rule: rev_induct) (auto simp: dd_Nil dd_snoc)

lemma dd_distinct: "distinct (dd xs)"
  by (induction xs rule: rev_induct) (auto simp: dd_Nil dd_snoc dd_set)

lemma dd_empty_iff: "dd xs = [] \<longleftrightarrow> xs = []"
  using dd_set by (metis dd_Nil set_empty)

lemma dd_length: "length (dd xs) \<le> length xs"
  by (induction xs rule: rev_induct) (auto simp: dd_Nil dd_snoc)

text \<open>Appending input only ever extends the output.\<close>

lemma dd_prefix: "prefix (dd xs) (dd (xs @ ys))"
proof (induction ys rule: rev_induct)
  case Nil
  then show ?case by simp
next
  case (snoc y ys)
  then show ?case
    using dd_snoc [of "xs @ ys" y] by (auto simp: prefix_def)
qed

lemma dd_id: "distinct xs \<Longrightarrow> dd xs = xs"
  by (induction xs rule: rev_induct) (auto simp: dd_Nil dd_snoc)

lemma dd_chosen: "chosen_from xs keep (dd (filter keep xs))"
proof (induction xs rule: rev_induct)
  case Nil
  then show ?case by (simp add: dd_Nil chosen_from_def)
next
  case (snoc x xs)
  have set: "set (dd (filter keep (xs @ [x]))) = {a \<in> set (xs @ [x]). keep a}" by (auto simp: dd_set)
  have old: "sorted_wrt (\<lambda>a b. first_at (xs @ [x]) a < first_at (xs @ [x]) b) (dd (filter keep xs))"
    by (rule sorted_wrt_mono_rel [of _ "\<lambda>a b. first_at xs a < first_at xs b"])
      (use snoc in \<open>auto simp: chosen_from_def first_at_append dd_set\<close>)
  show ?case
  proof (cases "keep x \<and> x \<notin> set xs")
    case True
    then show ?thesis
      using old set by (auto simp: chosen_from_def dd_snoc dd_set sorted_wrt_append first_at_new first_at_append first_at_less)
  qed (use old set in \<open>auto simp: chosen_from_def dd_snoc\<close>)
qed

lemma dd_idem: "dd (dd xs) = dd xs"
  by (simp add: dd_id dd_distinct)

end

end
