(* ===== verification/GoStrings.thy ===== *)
theory GoStrings
  imports Prelude "HOL-Library.Char_ord" "HOL-Library.List_Lexorder"
begin

text \<open>
  The functions of Go's \<^verbatim>\<open>strings\<close>, \<^verbatim>\<open>bufio\<close> and \<^verbatim>\<open>strconv\<close> packages that the resolver calls, on
  byte strings. Case mapping and white space are those of the ASCII range, the range of DNS names
  in presentation form (other bytes are escaped there) and of the asset files; for text outside
  ASCII, Go would apply the Unicode tables, and that is outside the model.
\<close>

section \<open>strings\<close>

definition is_space :: "char \<Rightarrow> bool" where [go_chars]:
  "is_space c \<longleftrightarrow> (let n = of_char c :: nat in n = 32 \<or> (9 \<le> n \<and> n \<le> 13))"

definition lower_char :: "char \<Rightarrow> char" where [go_chars]:
  "lower_char c = (let n = of_char c :: nat in if 65 \<le> n \<and> n \<le> 90 then char_of (n + 32) else c)"

definition to_lower :: "gostring \<Rightarrow> gostring" where
  "to_lower s = map lower_char s"

definition trim_left :: "gostring \<Rightarrow> gostring" where [go_strings]:
  "trim_left s = dropWhile is_space s"

definition trim_right :: "gostring \<Rightarrow> gostring" where [go_strings]:
  "trim_right s = rev (dropWhile is_space (rev s))"

definition trim_space :: "gostring \<Rightarrow> gostring" where [go_strings]:
  "trim_space s = trim_right (trim_left s)"

definition has_prefix :: "gostring \<Rightarrow> gostring \<Rightarrow> bool" where
  "has_prefix s p \<longleftrightarrow> prefix p s"

definition has_suffix :: "gostring \<Rightarrow> gostring \<Rightarrow> bool" where
  "has_suffix s p \<longleftrightarrow> suffix p s"

definition trim_suffix :: "gostring \<Rightarrow> gostring \<Rightarrow> gostring" where
  "trim_suffix s p = (if suffix p s then take (length s - length p) s else s)"

text \<open>\<^verbatim>\<open>strings.Index\<close>: the first position of a substring; \<^verbatim>\<open>None\<close> stands for -1.\<close>

fun index_of :: "gostring \<Rightarrow> gostring \<Rightarrow> nat option" where
  "index_of [] sep = (if sep = [] then Some 0 else None)"
| "index_of (c # s) sep =
     (if prefix sep (c # s) then Some 0 else map_option Suc (index_of s sep))"

definition equal_fold :: "gostring \<Rightarrow> gostring \<Rightarrow> bool" where
  "equal_fold s t \<longleftrightarrow> to_lower s = to_lower t"

lemma lower_char_idem [simp]: "lower_char (lower_char c) = lower_char c"
  by (auto simp: go_chars Let_def)

lemma is_space_lower_char [simp]: "is_space (lower_char c) = is_space c"
  by (auto simp: go_chars Let_def)

lemma lower_char_eq_dot [simp]: "lower_char c = CHR ''.'' \<longleftrightarrow> c = CHR ''.''"
proof
  assume h: "lower_char c = CHR ''.''"
  show "c = CHR ''.''"
  proof (cases "65 \<le> (of_char c :: nat) \<and> (of_char c :: nat) \<le> 90")
    case True
    then have "(of_char (lower_char c) :: nat) = of_char c + 32"
      by (simp add: lower_char_def Let_def)
    with h True show ?thesis by simp
  next
    case False
    with h show ?thesis by (simp add: lower_char_def Let_def split: if_splits)
  qed
next
  assume "c = CHR ''.''"
  then show "lower_char c = CHR ''.''" by (simp add: lower_char_def)
qed

lemma to_lower_Nil [simp]: "to_lower [] = []"
  and to_lower_Cons [simp]: "to_lower (c # s) = lower_char c # to_lower s"
  and to_lower_append [simp]: "to_lower (s @ t) = to_lower s @ to_lower t"
  and to_lower_eq_Nil [simp]: "to_lower s = [] \<longleftrightarrow> s = []"
  and length_to_lower [simp]: "length (to_lower s) = length s"
  by (simp_all add: to_lower_def)

lemma to_lower_idem [simp]: "to_lower (to_lower s) = to_lower s"
  by (simp add: to_lower_def)

lemma to_lower_rev: "to_lower (rev s) = rev (to_lower s)"
  by (simp add: to_lower_def rev_map)

lemma to_lower_take: "to_lower (take n s) = take n (to_lower s)"
  by (simp add: to_lower_def take_map)

lemma dropWhile_space_lower: "dropWhile is_space (to_lower s) = to_lower (dropWhile is_space s)"
  by (simp add: to_lower_def dropWhile_map comp_def)

lemma trim_space_lower: "trim_space (to_lower s) = to_lower (trim_space s)"
  by (simp add: go_strings dropWhile_space_lower
      flip: to_lower_rev)

lemma suffix_dot_iff: "suffix ''.'' s \<longleftrightarrow> s \<noteq> [] \<and> last s = CHR ''.''"
  by (cases s rule: rev_cases) auto

lemma last_to_lower: "s \<noteq> [] \<Longrightarrow> last (to_lower s) = lower_char (last s)"
  by (simp add: to_lower_def last_map)

lemma suffix_dot_lower: "suffix ''.'' (to_lower s) \<longleftrightarrow> suffix ''.'' s"
  by (cases "s = []") (simp_all add: suffix_dot_iff last_to_lower)

lemma trim_suffix_dot_lower: "trim_suffix (to_lower s) ''.'' = to_lower (trim_suffix s ''.'')"
  by (simp add: trim_suffix_def suffix_dot_lower to_lower_take)

lemma trim_suffix_dot_snoc [simp]: "trim_suffix (s @ ''.'') ''.'' = s"
  by (simp add: trim_suffix_def)

lemma trim_suffix_no_dot [simp]: "\<not> suffix ''.'' s \<Longrightarrow> trim_suffix s ''.'' = s"
  by (simp add: trim_suffix_def)

text \<open>A trimmed string starts and ends in something that is no space.\<close>

definition trimmed :: "gostring \<Rightarrow> bool" where
  "trimmed s \<longleftrightarrow> s = [] \<or> (\<not> is_space (hd s) \<and> \<not> is_space (last s))"

lemma last_dropWhile: "dropWhile P xs \<noteq> [] \<Longrightarrow> last (dropWhile P xs) = last xs"
  by (induction xs) auto

lemma trim_right_trimmed:
  "s = [] \<or> \<not> is_space (hd s) \<Longrightarrow> trimmed (trim_right s)"
proof -
  assume h: "s = [] \<or> \<not> is_space (hd s)"
  let ?r = "dropWhile is_space (rev s)"
  have "?r \<noteq> [] \<Longrightarrow> \<not> is_space (hd ?r)" by (rule hd_dropWhile) auto
  moreover have "?r \<noteq> [] \<Longrightarrow> last ?r = hd s"
    using last_dropWhile [of is_space "rev s"] by (cases s) auto
  moreover have "s = [] \<Longrightarrow> ?r = []" by simp
  ultimately show ?thesis
    using h by (cases "?r = []") (auto simp: trimmed_def trim_right_def hd_rev last_rev)
qed

lemma trimmed_trim_space: "trimmed (trim_space s)"
proof -
  have "dropWhile is_space s = [] \<or> \<not> is_space (hd (dropWhile is_space s))"
    using hd_dropWhile [of is_space s] by blast
  then show ?thesis by (simp add: trim_space_def trim_left_def trim_right_trimmed)
qed

lemma trim_space_id: "trimmed s \<Longrightarrow> trim_space s = s"
  by (auto simp: trimmed_def go_strings hd_dropWhile_id hd_rev)

lemma trim_space_idem [simp]: "trim_space (trim_space s) = trim_space s"
  by (simp add: trim_space_id trimmed_trim_space)

lemma trim_space_snoc_dot: "trimmed s \<Longrightarrow> trim_space (s @ ''.'') = s @ ''.''"
  by (rule trim_space_id) (auto simp: trimmed_def go_chars hd_append)

lemma index_of_Some: "index_of s sep = Some i \<Longrightarrow> i \<le> length s \<and> prefix sep (drop i s)"
  by (induction s sep arbitrary: i rule: index_of.induct) (auto split: if_splits)

lemma index_of_None: "index_of s sep = None \<longleftrightarrow> \<not> sublist sep s"
  by (induction s sep rule: index_of.induct) (auto simp: sublist_Cons_right)

text \<open>The position that \<^const>\<open>index_of\<close> returns is the first one.\<close>

lemma index_of_first: "index_of s sep = Some i \<Longrightarrow> j < i \<Longrightarrow> \<not> prefix sep (drop j s)"
proof (induction s sep arbitrary: i j rule: index_of.induct)
  case (1 sep)
  then show ?case by (auto split: if_splits)
next
  case (2 c s sep)
  then show ?case by (cases j) (auto split: if_splits)
qed

section \<open>The shared contract of the name normalisers\<close>

text \<open>
  Three packages normalise domain names with functions of their own. What their clients rely on
  is that letter case, surrounding space and the final dot of a name make no difference.
\<close>

locale name_normalizer =
  fixes norm :: "gostring \<Rightarrow> gostring"
  assumes norm_lower: "norm (to_lower s) = norm s"
    and norm_trim: "norm (trim_space s) = norm s"
    and norm_dot: "trimmed s \<Longrightarrow> \<not> suffix ''.'' s \<Longrightarrow> norm (s @ ''.'') = norm s"
begin

lemma norm_fold: "equal_fold s t \<Longrightarrow> norm s = norm t"
  by (metis norm_lower equal_fold_def)

lemma norm_fqdn:
  assumes "trimmed s" "\<not> suffix ''.'' s" "equal_fold t (s @ ''.'')"
  shows "norm t = norm s"
  using norm_fold [OF assms(3)] norm_dot [OF assms(1,2)] by simp

end

section \<open>bufio.Scanner with ScanLines\<close>

text \<open>
  A reader is its content and whether the underlying read ends in an error instead of end of
  file. The scanner returns the lines before the first line that does not fit its buffer of
  \<open>m\<close> bytes; then \<^verbatim>\<open>Err\<close> reports \<^verbatim>\<open>ErrTooLong\<close>. A read error is reported after the lines
  read so far.
\<close>

datatype scan_error = ErrTooLong | ErrRead

record reader =
  rd_data :: gostring
  rd_failed :: bool

definition newline :: char where "newline = CHR 0x0A"
definition tab :: char where "tab = CHR 0x09"
definition carriage_return :: char where "carriage_return = CHR 0x0D"

definition drop_cr :: "gostring \<Rightarrow> gostring" where
  "drop_cr l = (if l \<noteq> [] \<and> last l = carriage_return then butlast l else l)"

function scan_data :: "nat \<Rightarrow> gostring \<Rightarrow> gostring list \<times> scan_error option" where
  "scan_data m s =
     (if s = [] then ([], None)
      else let l = takeWhile (\<lambda>c. c \<noteq> newline) s; rest = dropWhile (\<lambda>c. c \<noteq> newline) s
           in if m \<le> length l then ([], Some ErrTooLong)
              else let (ls, e) = scan_data m (tl rest) in (drop_cr l # ls, e))"
  by pat_completeness auto
termination
proof (relation "measure (\<lambda>(m, s). length s)", goal_cases)
  case 1
  then show ?case by simp
next
  case (2 m s l rest)
  have "length (dropWhile (\<lambda>c. c \<noteq> newline) s) \<le> length s"
    by (rule length_dropWhile_le)
  with 2 show ?case by (cases "dropWhile (\<lambda>c. c \<noteq> newline) s") auto
qed

declare scan_data.simps [simp del]

definition scan_lines :: "nat \<Rightarrow> reader \<Rightarrow> gostring list \<times> scan_error option" where
  "scan_lines m r =
     (let (ls, e) = scan_data m (rd_data r)
      in (ls, if e = None \<and> rd_failed r then Some ErrRead else e))"

text \<open>
  Text whose lines are joined by newlines is scanned back into those lines, as long as they fit
  the buffer and do not end in a carriage return.
\<close>

definition plain_line :: "nat \<Rightarrow> gostring \<Rightarrow> bool" where
  "plain_line m l \<longleftrightarrow> length l < m \<and> newline \<notin> set l \<and> (l \<noteq> [] \<longrightarrow> last l \<noteq> carriage_return)"

lemma scan_data_line:
  assumes "plain_line m l"
  shows "scan_data m (l @ newline # s) = (l # fst (scan_data m s), snd (scan_data m s))"
proof -
  have "takeWhile (\<lambda>c. c \<noteq> newline) (l @ newline # s) = l"
    and "dropWhile (\<lambda>c. c \<noteq> newline) (l @ newline # s) = newline # s"
    using assms by (simp_all add: plain_line_def takeWhile_break dropWhile_break)
  with assms show ?thesis
    by (subst scan_data.simps) (auto simp: plain_line_def drop_cr_def split: prod.splits)
qed

lemma scan_data_last:
  assumes "plain_line m l" "l \<noteq> []"
  shows "scan_data m l = ([l], None)"
proof -
  have l: "takeWhile (\<lambda>c. c \<noteq> newline) l = l" "dropWhile (\<lambda>c. c \<noteq> newline) l = []"
    using assms by (auto simp: plain_line_def takeWhile_eq_all_conv dropWhile_eq_Nil_conv)
  show ?thesis
    using assms
    by (subst scan_data.simps) (simp add: l Let_def plain_line_def drop_cr_def scan_data.simps [of m "[]"])
qed

text \<open>Two lines, the second without its newline.\<close>

lemma scan_lines_two:
  assumes "plain_line m l" "plain_line m l'" "l' \<noteq> []"
  shows "scan_lines m \<lparr>rd_data = l @ newline # l', rd_failed = False\<rparr> = ([l, l'], None)"
  using assms by (simp add: scan_lines_def scan_data_line scan_data_last)

lemma scan_data_join:
  "(\<And>l. l \<in> set ls \<Longrightarrow> plain_line m l) \<Longrightarrow>
   scan_data m (concat (map (\<lambda>l. l @ [newline]) ls)) = (ls, None)"
proof (induction ls)
  case Nil
  then show ?case by (simp add: scan_data.simps)
next
  case (Cons l ls)
  then show ?case
    using scan_data_line [of m l "concat (map (\<lambda>l. l @ [newline]) ls)"] by simp
qed

end
