(* ===== verification/GoNet.thy ===== *)
theory GoNet
  imports GoStrings "HOL-Library.Product_Lexorder"
begin

unbundle bit_operations_syntax

text \<open>
  The part of Go's \<^verbatim>\<open>net/netip\<close> that the resolver uses: addresses with their families and zones,
  the total order of \<^verbatim>\<open>Addr.Compare\<close>, the sixteen-byte form, prefixes and the textual parsers.
  \<^verbatim>\<open>ParseAddr\<close> and \<^verbatim>\<open>ParsePrefix\<close> return an error value in Go; here \<^const>\<open>None\<close>.
\<close>

section \<open>Bytes of a 128-bit word\<close>

fun le_word :: "u8 list \<Rightarrow> 128 word" where
  "le_word [] = 0"
| "le_word (b # bs) = ucast b + 256 * le_word bs"

fun le_bytes :: "nat \<Rightarrow> 128 word \<Rightarrow> u8 list" where
  "le_bytes 0 w = []"
| "le_bytes (Suc n) w = ucast w # le_bytes n (drop_bit 8 w)"

definition be_word :: "u8 list \<Rightarrow> 128 word" where [wire_bytes]:
  "be_word bs = le_word (rev bs)"

definition be_bytes :: "nat \<Rightarrow> 128 word \<Rightarrow> u8 list" where [wire_bytes]:
  "be_bytes n w = rev (le_bytes n w)"

lemma length_le_bytes [simp]: "length (le_bytes n w) = n"
  by (induction n arbitrary: w) auto

lemma length_be_bytes [simp]: "length (be_bytes n w) = n"
  by (simp add: be_bytes_def)

lemma le_word_le_bytes [wire_bytes]: "le_word (le_bytes n w) = take_bit (8 * n) w"
proof (induction n arbitrary: w)
  case 0
  then show ?case by simp
next
  case (Suc n)
  have low: "ucast (ucast w :: u8) = take_bit 8 w"
    by (rule bit_word_eqI) (auto simp: bit_simps)
  have "256 * take_bit (8 * n) (drop_bit 8 w) + take_bit 8 w
      = push_bit 8 (drop_bit 8 (take_bit (8 + 8 * n) w)) + take_bit 8 (take_bit (8 + 8 * n) w)"
    by (simp add: drop_bit_take_bit push_bit_eq_mult mult.commute)
  also have "\<dots> = take_bit (8 + 8 * n) w" by (rule bits_ident)
  finally show ?case by (simp add: Suc low add.commute)
qed

lemma be_word_be_bytes [simp]: "be_word (be_bytes 16 w) = w"
  by (simp add: wire_bytes take_bit_word_eq_self)

section \<open>Addresses\<close>

text \<open>\<^verbatim>\<open>AddrZero\<close> is the zero \<^verbatim>\<open>netip.Addr\<close>; an IPv6 address without zone has the zone \<^term>\<open>''''\<close>.\<close>

datatype addr = AddrZero | Addr4 "32 word" | Addr6 "128 word" gostring

fun is4 :: "addr \<Rightarrow> bool" where
  "is4 (Addr4 _) = True"
| "is4 _ = False"

fun is6 :: "addr \<Rightarrow> bool" where
  "is6 (Addr6 _ _) = True"
| "is6 _ = False"

fun bit_len :: "addr \<Rightarrow> nat" where
  "bit_len AddrZero = 0"
| "bit_len (Addr4 _) = 32"
| "bit_len (Addr6 _ _) = 128"

fun addr_zone :: "addr \<Rightarrow> gostring" where
  "addr_zone (Addr6 _ z) = z"
| "addr_zone _ = []"

text \<open>The 128 bits Go stores; an IPv4 address is kept in its IPv4-mapped form.\<close>

fun addr_bits :: "addr \<Rightarrow> 128 word" where
  "addr_bits AddrZero = 0"
| "addr_bits (Addr4 w) = ucast w + 0xffff00000000"
| "addr_bits (Addr6 w _) = w"

definition is4in6 :: "addr \<Rightarrow> bool" where
  "is4in6 a \<longleftrightarrow> is6 a \<and> drop_bit 32 (addr_bits a) = 0xffff"

definition unmap :: "addr \<Rightarrow> addr" where
  "unmap a = (if is4in6 a then Addr4 (ucast (addr_bits a)) else a)"

definition as16 :: "addr \<Rightarrow> u8 list" where
  "as16 a = be_bytes 16 (addr_bits a)"

definition addr_from16 :: "u8 list \<Rightarrow> addr" where
  "addr_from16 bs = Addr6 (be_word bs) []"

definition addr_from_slice :: "u8 list \<Rightarrow> addr \<times> bool" where
  "addr_from_slice bs =
     (if length bs = 4 then (Addr4 (ucast (be_word bs)), True)
      else if length bs = 16 then (addr_from16 bs, True)
      else (AddrZero, False))"

fun as_slice :: "addr \<Rightarrow> u8 list" where
  "as_slice AddrZero = []"
| "as_slice (Addr4 w) = be_bytes 4 (ucast w)"
| "as_slice (Addr6 w _) = be_bytes 16 w"

subsection \<open>Addr.Compare is a linear order\<close>

fun addr_rank :: "addr \<Rightarrow> nat \<times> nat \<times> gostring" where
  "addr_rank AddrZero = (0, 0, [])"
| "addr_rank (Addr4 w) = (32, unat w, [])"
| "addr_rank (Addr6 w z) = (128, unat w, z)"

lemma addr_rank_inj [simp]: "addr_rank a = addr_rank b \<longleftrightarrow> a = b"
  by (cases a; cases b) (auto simp: word_unat_eq_iff)

instantiation addr :: linorder
begin

definition less_eq_addr :: "addr \<Rightarrow> addr \<Rightarrow> bool" where
  "less_eq_addr a b \<longleftrightarrow> addr_rank a \<le> addr_rank b"

definition less_addr :: "addr \<Rightarrow> addr \<Rightarrow> bool" where
  "less_addr a b \<longleftrightarrow> addr_rank a < addr_rank b"

instance
proof
  fix a b c :: addr
  show "(a < b) = (a \<le> b \<and> \<not> b \<le> a)" by (simp add: less_addr_def less_eq_addr_def less_le_not_le)
  show "a \<le> a" by (simp add: less_eq_addr_def)
  show "a \<le> b \<Longrightarrow> b \<le> c \<Longrightarrow> a \<le> c" by (simp add: less_eq_addr_def)
  show "a \<le> b \<Longrightarrow> b \<le> a \<Longrightarrow> a = b"
    by (metis less_eq_addr_def addr_rank_inj order_antisym)
  show "a \<le> b \<or> b \<le> a" by (auto simp: less_eq_addr_def)
qed

end

definition addr_compare :: "addr \<Rightarrow> addr \<Rightarrow> int" where
  "addr_compare a b =
     (if bit_len a < bit_len b then -1 else if bit_len b < bit_len a then 1
      else if addr_bits a < addr_bits b then -1 else if addr_bits b < addr_bits a then 1
      else if is6 a then (if addr_zone a < addr_zone b then -1
                          else if addr_zone b < addr_zone a then 1 else 0)
      else 0)"

lemma le_Addr4 [simp]: "Addr4 v \<le> Addr4 w \<longleftrightarrow> v \<le> w"
  and le_Addr6 [simp]: "Addr6 v' [] \<le> Addr6 w' [] \<longleftrightarrow> v' \<le> w'"
  and Addr4_le_Addr6 [simp]: "Addr4 v \<le> Addr6 w' z"
  and Addr6_nle_Addr4 [simp]: "\<not> Addr6 w' z \<le> Addr4 v"
  by (auto simp: less_eq_addr_def word_le_nat_alt)

lemma less_Addr4 [simp]: "Addr4 v < Addr4 w \<longleftrightarrow> v < w"
  and less_Addr6 [simp]: "Addr6 v' [] < Addr6 w' [] \<longleftrightarrow> v' < w'"
  and Addr4_less_Addr6 [simp]: "Addr4 v < Addr6 w' z"
  by (simp_all add: less_addr_def word_less_nat_alt)

lemma unat_mapped:
  fixes x :: "32 word"
  shows "unat (ucast x + 0xffff00000000 :: 128 word) = unat x + 0xffff00000000"
proof -
  have x: "unat x < 2 ^ 32" using unsigned_less [of x] by simp
  then have "unat (ucast x :: 128 word) = unat x"
    by (simp add: unsigned_ucast_eq take_bit_nat_eq_self_iff)
  with x show ?thesis by (simp add: unat_word_ariths)
qed

lemma addr_compare_less: "addr_compare a b < 0 \<longleftrightarrow> a < b"
  by (cases a; cases b)
    (auto simp: addr_compare_def less_addr_def word_less_nat_alt unat_mapped dest: order.asym)

lemma addr_compare_flip: "addr_compare b a = - addr_compare a b"
  by (auto simp: addr_compare_def dest: order.asym elim: is6.elims) (cases a; cases b; simp)+

lemma addr_compare_le: "addr_compare a b \<le> 0 \<longleftrightarrow> a \<le> b"
  using addr_compare_less [of b a] addr_compare_flip [of a b] by (auto simp: not_less [symmetric])

lemma addr_compare_eq: "addr_compare a b = 0 \<longleftrightarrow> a = b"
  using addr_compare_less [of b a] addr_compare_less [of a b] addr_compare_flip [of a b] by force

lemmas addr_compare_simps = addr_compare_less addr_compare_le addr_compare_eq

lemma addr_compare_ge: "addr_compare a b \<ge> 0 \<longleftrightarrow> b \<le> a"
  using addr_compare_less [of a b] by force

lemma addr_compare_gt: "addr_compare a b > 0 \<longleftrightarrow> b < a"
  using addr_compare_le [of a b] by force

section \<open>Prefixes\<close>

record net_prefix =
  p_addr :: addr
  p_bits :: int

definition prefix_zero :: net_prefix where
  "prefix_zero = \<lparr>p_addr = AddrZero, p_bits = -1\<rparr>"

text \<open>\<^verbatim>\<open>Prefix.Masked\<close> clears the host bits; it is the zero prefix for an invalid one.\<close>

fun mask_addr :: "addr \<Rightarrow> nat \<Rightarrow> addr" where
  "mask_addr AddrZero n = AddrZero"
| "mask_addr (Addr4 w) n = Addr4 (w AND NOT (mask (32 - n)))"
| "mask_addr (Addr6 w z) n = Addr6 (w AND NOT (mask (128 - n))) []"

definition masked :: "net_prefix \<Rightarrow> net_prefix" where
  "masked p =
     (if p_addr p = AddrZero \<or> p_bits p < 0 \<or> int (bit_len (p_addr p)) < p_bits p
      then prefix_zero
      else p\<lparr>p_addr := mask_addr (p_addr p) (nat (p_bits p))\<rparr>)"

text \<open>The addresses a prefix denotes: same family, no zone, equal leading bits.\<close>

definition in_prefix :: "net_prefix \<Rightarrow> addr \<Rightarrow> bool" where
  "in_prefix p a =
     (case (p_addr p, a) of
        (Addr4 n, Addr4 w) \<Rightarrow> drop_bit (32 - nat (p_bits p)) w = drop_bit (32 - nat (p_bits p)) n
      | (Addr6 n _, Addr6 w z) \<Rightarrow>
          z = [] \<and> drop_bit (128 - nat (p_bits p)) w = drop_bit (128 - nat (p_bits p)) n
      | _ \<Rightarrow> False)"

definition valid_prefix :: "net_prefix \<Rightarrow> bool" where
  "valid_prefix p \<longleftrightarrow> p_addr p \<noteq> AddrZero \<and> 0 \<le> p_bits p \<and> p_bits p \<le> int (bit_len (p_addr p))
     \<and> addr_zone (p_addr p) = [] \<and> masked p = p"

lemma mask_addr_idem [simp]: "mask_addr (mask_addr a n) n = mask_addr a n"
  by (cases a) simp_all

lemma bit_len_mask_addr [simp]: "bit_len (mask_addr a n) = bit_len a"
  by (cases a) simp_all

lemma mask_addr_Zero_iff [simp]: "mask_addr a n = AddrZero \<longleftrightarrow> a = AddrZero"
  by (cases a) simp_all

lemma addr_zone_mask_addr [simp]: "addr_zone (mask_addr a n) = []"
  by (cases a) simp_all

lemma valid_prefix_masked:
  "p_addr p \<noteq> AddrZero \<Longrightarrow> 0 \<le> p_bits p \<Longrightarrow> p_bits p \<le> int (bit_len (p_addr p)) \<Longrightarrow>
   valid_prefix (masked p)"
  by (simp add: valid_prefix_def masked_def)

lemma drop_bit_clear_low [simp]:
  "drop_bit k w AND drop_bit k (NOT (mask k)) = drop_bit k (w :: 'a::len word)"
  by (rule bit_word_eqI) (auto simp: bit_simps dest: bit_imp_le_length)

lemma in_prefix_masked:
  assumes "p_addr p \<noteq> AddrZero" "0 \<le> p_bits p" "p_bits p \<le> int (bit_len (p_addr p))"
  shows "in_prefix (masked p) a \<longleftrightarrow> in_prefix p a"
  using assms by (cases "p_addr p"; cases a) (simp_all add: masked_def in_prefix_def)

text \<open>A masked base and its prefix length denote an interval of words.\<close>

lemma unat_drop_bit_div: "unat (drop_bit h x) = unat (x :: 'a::len word) div 2 ^ h"
  by (simp add: unsigned_drop_bit_eq take_bit_nat_eq_self flip: drop_bit_eq_div)

lemma prefix_interval:
  fixes n w :: "'a::len word"
  assumes base: "n AND NOT (mask h) = n" and h: "h \<le> LENGTH('a)"
  shows "drop_bit h w = drop_bit h n \<longleftrightarrow> n \<le> w \<and> w \<le> (n OR mask h)"
proof -
  have nz: "take_bit h n = 0"
    by (subst base [symmetric]) (auto intro!: bit_word_eqI simp: bit_simps)
  define q where "q = unat n div 2 ^ h"
  have "take_bit h (unat n) = unat (take_bit h n)"
    using h by (simp add: unsigned_take_bit_eq min_absorb1)
  then have "take_bit h (unat n) = 0" by (simp add: nz)
  then have "unat n mod 2 ^ h = 0" by (simp add: take_bit_eq_mod)
  then have n: "unat n = q * 2 ^ h" unfolding q_def by (metis div_mult_mod_eq add_0_right)
  have "unat (n OR mask h) = unat n OR mask h"
    using h by (intro bit_eqI) (auto simp: bit_simps)
  also have "\<dots> = unat n + mask h"
    by (rule disjunctive_add [symmetric]) (auto simp: n bit_simps simp flip: push_bit_eq_mult)
  finally have top: "unat (n OR mask h) = q * 2 ^ h + (2 ^ h - 1)"
    by (simp add: n mask_eq_exp_minus_1)
  have "drop_bit h w = drop_bit h n \<longleftrightarrow> unat w div 2 ^ h = q"
    by (simp add: word_unat_eq_iff unat_drop_bit_div q_def)
  also have "\<dots> \<longleftrightarrow> q * 2 ^ h \<le> unat w \<and> unat w < q * 2 ^ h + 2 ^ h"
    using div_nat_eqI [of "2 ^ h" q "unat w"] div_times_less_eq_dividend [of "unat w" "2 ^ h"]
      dividend_less_div_times [of "2 ^ h" "unat w"]
    by (auto simp: algebra_simps)
  also have "unat w < q * 2 ^ h + 2 ^ h \<longleftrightarrow> unat w \<le> q * 2 ^ h + (2 ^ h - 1)"
    using zero_less_power [of "2::nat" h] by (simp only: less_eq_Suc_le) linarith
  finally show ?thesis by (simp add: word_le_nat_alt top n)
qed

section \<open>Text to addresses\<close>

definition is_digit :: "char \<Rightarrow> bool" where [go_chars]:
  "is_digit c \<longleftrightarrow> (let n = of_char c :: nat in 48 \<le> n \<and> n \<le> 57)"

definition digit_val :: "char \<Rightarrow> nat" where
  "digit_val c = of_char c - 48"

definition hex_val :: "char \<Rightarrow> nat option" where
  "hex_val c = (let n = of_char c :: nat
     in if 48 \<le> n \<and> n \<le> 57 then Some (n - 48)
        else if 97 \<le> n \<and> n \<le> 102 then Some (n - 87)
        else if 65 \<le> n \<and> n \<le> 70 then Some (n - 55) else None)"

text \<open>
  \<^verbatim>\<open>parseIPv4Fields\<close>: one pass over the text with the previous character, the value and number of
  digits of the current field and the fields before it.
\<close>

fun parse4_fields :: "char option \<Rightarrow> nat \<Rightarrow> nat \<Rightarrow> u8 list \<Rightarrow> gostring \<Rightarrow> u8 list option" where
  "parse4_fields prev val dl fs [] =
     (if length fs < 3 then None else Some (fs @ [of_nat val]))"
| "parse4_fields prev val dl fs (c # cs) =
     (if is_digit c then
        (if dl = 1 \<and> val = 0 then None
         else let val' = val * 10 + digit_val c
              in if val' > 255 then None else parse4_fields (Some c) val' (Suc dl) fs cs)
      else if c = CHR ''.'' then
        (if prev = None \<or> cs = [] \<or> prev = Some CHR ''.'' then None
         else if length fs = 3 then None
         else parse4_fields (Some c) 0 0 (fs @ [of_nat val]) cs)
      else None)"

definition parse_ipv4 :: "gostring \<Rightarrow> addr option" where
  "parse_ipv4 s = map_option (\<lambda>fs. Addr4 (ucast (be_word fs))) (parse4_fields None 0 0 [] s)"

fun hex_group :: "nat \<Rightarrow> nat \<Rightarrow> gostring \<Rightarrow> (nat \<times> nat \<times> gostring) option" where
  "hex_group off acc [] = Some (off, acc, [])"
| "hex_group off acc (c # cs) =
     (case hex_val c of
        None \<Rightarrow> Some (off, acc, c # cs)
      | Some d \<Rightarrow>
          (if off > 3 then None
           else if acc * 16 + d > 65535 then None
           else hex_group (Suc off) (acc * 16 + d) cs))"

text \<open>The group loop of \<^verbatim>\<open>parseIPv6\<close>: remaining text, bytes so far, position of the ellipsis.\<close>

function parse6_loop ::
  "gostring \<Rightarrow> u8 list \<Rightarrow> nat option \<Rightarrow> (gostring \<times> u8 list \<times> nat option) option" where
  "parse6_loop s ip ell =
     (if 16 \<le> length ip then Some (s, ip, ell)
      else case hex_group 0 0 s of
        None \<Rightarrow> None
      | Some (off, acc, rest) \<Rightarrow>
          (if off = 0 then None
           else if rest \<noteq> [] \<and> hd rest = CHR ''.'' then
             (if ell = None \<and> length ip \<noteq> 12 then None
              else if length ip + 4 > 16 then None
              else case parse4_fields None 0 0 [] s of
                     None \<Rightarrow> None
                   | Some fs \<Rightarrow> Some ([], ip @ fs, ell))
           else let ip' = ip @ [of_nat (acc div 256), of_nat acc]
                in if rest = [] then Some ([], ip', ell)
                   else if hd rest \<noteq> CHR '':'' then None
                   else if tl rest = [] then None
                   else let s' = tl rest
                        in if hd s' = CHR '':'' then
                             (if ell \<noteq> None then None
                              else if tl s' = [] then Some ([], ip', Some (length ip'))
                              else parse6_loop (tl s') ip' (Some (length ip')))
                           else parse6_loop s' ip' ell))"
  by pat_completeness auto
termination
  by (relation "measure (\<lambda>(s, ip, ell). 16 - length ip)") auto

declare parse6_loop.simps [simp del]

definition split_zone :: "gostring \<Rightarrow> (gostring \<times> gostring) option" where
  "split_zone s =
     (case index_of s ''%'' of
        None \<Rightarrow> Some (s, [])
      | Some i \<Rightarrow> (if drop (Suc i) s = [] then None else Some (take i s, drop (Suc i) s)))"

definition parse_ipv6 :: "gostring \<Rightarrow> addr option" where
  "parse_ipv6 s0 =
     (case split_zone s0 of
        None \<Rightarrow> None
      | Some (s, zone) \<Rightarrow>
          (let lead = prefix ''::'' s; s1 = (if lead then drop 2 s else s)
           in if lead \<and> s1 = [] then Some (Addr6 0 zone)
              else case parse6_loop s1 [] (if lead then Some 0 else None) of
                None \<Rightarrow> None
              | Some (rest, ip, ell) \<Rightarrow>
                  (if rest \<noteq> [] then None
                   else if length ip < 16 then
                     (case ell of
                        None \<Rightarrow> None
                      | Some e \<Rightarrow>
                          Some (Addr6 (be_word (take e ip @ replicate (16 - length ip) 0 @ drop e ip)) zone))
                   else if ell \<noteq> None then None
                   else Some (Addr6 (be_word ip) zone))))"

fun parse_addr_scan :: "gostring \<Rightarrow> gostring \<Rightarrow> addr option" where
  "parse_addr_scan s [] = None"
| "parse_addr_scan s (c # cs) =
     (if c = CHR ''.'' then parse_ipv4 s
      else if c = CHR '':'' then parse_ipv6 s
      else if c = CHR ''%'' then None
      else parse_addr_scan s cs)"

definition parse_addr :: "gostring \<Rightarrow> addr option" where
  "parse_addr s = parse_addr_scan s s"

text \<open>\<^verbatim>\<open>strconv.Atoi\<close> on text without a sign; the callers bound the value far below overflow.\<close>

definition digits_val :: "gostring \<Rightarrow> nat" where
  "digits_val s = foldl (\<lambda>a c. a * 10 + digit_val c) 0 s"

definition atoi :: "gostring \<Rightarrow> nat option" where
  "atoi s = (if s \<noteq> [] \<and> list_all is_digit s then Some (digits_val s) else None)"

text \<open>Splits at the last occurrence of a character.\<close>

definition split_last :: "char \<Rightarrow> gostring \<Rightarrow> (gostring \<times> gostring) option" where
  "split_last c s =
     (if c \<in> set s
      then Some (rev (tl (dropWhile (\<lambda>x. x \<noteq> c) (rev s))), rev (takeWhile (\<lambda>x. x \<noteq> c) (rev s)))
      else None)"

definition parse_prefix :: "gostring \<Rightarrow> net_prefix option" where
  "parse_prefix s =
     (case split_last (CHR ''/'') s of
        None \<Rightarrow> None
      | Some (a, bs) \<Rightarrow>
          (case parse_addr a of
             None \<Rightarrow> None
           | Some ip \<Rightarrow>
               (if is6 ip \<and> addr_zone ip \<noteq> [] then None
                else if length bs > 1 \<and> (digit_val (hd bs) = 0 \<or> \<not> is_digit (hd bs)) then None
                else case atoi bs of
                  None \<Rightarrow> None
                | Some n \<Rightarrow>
                    (if n > (if is6 ip then 128 else 32) then None
                     else Some \<lparr>p_addr = ip, p_bits = int n\<rparr>))))"

lemma parse_ipv4_is4: "parse_ipv4 s = Some a \<Longrightarrow> is4 a"
  by (auto simp: parse_ipv4_def)

lemma parse_ipv6_is6: "parse_ipv6 s = Some a \<Longrightarrow> is6 a"
  by (auto simp: parse_ipv6_def Let_def split: option.splits if_splits prod.splits)

lemma parse_addr_scan_valid: "parse_addr_scan s cs = Some a \<Longrightarrow> is4 a \<or> is6 a"
  by (induction cs) (auto split: if_splits dest: parse_ipv4_is4 parse_ipv6_is6)

lemma parse_addr_valid: "parse_addr s = Some a \<Longrightarrow> a \<noteq> AddrZero"
  by (auto simp: parse_addr_def dest: parse_addr_scan_valid)

lemma parse_prefix_valid:
  assumes "parse_prefix s = Some p"
  shows "p_addr p \<noteq> AddrZero" "0 \<le> p_bits p" "p_bits p \<le> int (bit_len (p_addr p))"
    "addr_zone (p_addr p) = []"
proof -
  from assms obtain ip n where *: "p = \<lparr>p_addr = ip, p_bits = int n\<rparr>"
      "is6 ip \<longrightarrow> addr_zone ip = []" "n \<le> (if is6 ip then 128 else 32)" "ip \<noteq> AddrZero"
    by (auto simp: parse_prefix_def split: option.splits if_splits prod.splits dest: parse_addr_valid)
  then show "p_addr p \<noteq> AddrZero" "0 \<le> p_bits p" "p_bits p \<le> int (bit_len (p_addr p))"
    "addr_zone (p_addr p) = []"
    by (cases ip; simp)+
qed

text \<open>\<^verbatim>\<open>netip.ParseAddrPort\<close>, of which the resolver only uses whether it succeeds.\<close>

definition parse_port :: "gostring \<Rightarrow> nat option" where
  "parse_port s = (case atoi s of Some n \<Rightarrow> (if n \<le> 65535 then Some n else None) | None \<Rightarrow> None)"

definition parse_addr_port :: "gostring \<Rightarrow> (addr \<times> nat) option" where
  "parse_addr_port s =
     (case split_last (CHR '':'') s of
        None \<Rightarrow> None
      | Some (ip, port) \<Rightarrow>
          (if ip = [] \<or> port = [] then None
           else let v6 = (hd ip = CHR ''['')
                in if v6 \<and> (length ip < 2 \<or> last ip \<noteq> CHR '']'') then None
                   else case parse_port port of
                     None \<Rightarrow> None
                   | Some n \<Rightarrow>
                       (case parse_addr (if v6 then butlast (tl ip) else ip) of
                          None \<Rightarrow> None
                        | Some a \<Rightarrow>
                            (if v6 \<and> is4 a then None
                             else if \<not> v6 \<and> is6 a then None
                             else Some (a, n)))))"

record addr_port =
  ap_addr :: addr
  ap_port :: u16

end
