(* ===== verification/China.thy ===== *)
theory China
  imports GoNet
begin

unbundle bit_operations_syntax

text \<open>
  Package \<^verbatim>\<open>internal/china\<close>, file \<^verbatim>\<open>index.go\<close>: the prefix index. An index keeps, per address family, the spans of the prefixes, merged and sorted;
  \<^verbatim>\<open>Contains\<close> is a binary search in them. The byte loops of \<^verbatim>\<open>lastAddr\<close> and \<^verbatim>\<open>nextAddr\<close> are kept as
  loops over the sixteen bytes, last byte first.
\<close>

section \<open>Data\<close>

record span =
  lo :: addr
  hi :: addr

record Index =
  v4 :: "span list"
  v6 :: "span list"
  V4Input :: nat
  V6Input :: nat

section \<open>Operations of index.go\<close>

text \<open>The \<^verbatim>\<open>for i := len(b)-1; i >= 0 && hostBits > 0\<close> loop; its argument lists the bytes from the last.\<close>

fun lastAddr_loop :: "u8 list \<Rightarrow> int \<Rightarrow> u8 list" where
  "lastAddr_loop [] hostBits = []"
| "lastAddr_loop (b # bs) hostBits =
     (if hostBits > 0
      then (let bits = (if hostBits > 8 then 8 else hostBits)
            in (b OR drop_bit (nat (8 - bits)) 0xFF) # lastAddr_loop bs (hostBits - 8))
      else b # bs)"

definition lastAddr :: "net_prefix \<Rightarrow> addr" where
  "lastAddr p =
     (let a = p_addr p
      in if p_bits p = int (bit_len a) then a
         else unmap (addr_from16 (rev (lastAddr_loop (rev (as16 a)) (int (bit_len a) - p_bits p)))))"

fun nextAddr_loop :: "u8 list \<Rightarrow> u8 list" where
  "nextAddr_loop [] = []"
| "nextAddr_loop (b # bs) = (if b + 1 \<noteq> 0 then (b + 1) # bs else (b + 1) # nextAddr_loop bs)"

definition nextAddr :: "addr \<Rightarrow> addr" where
  "nextAddr a = unmap (addr_from16 (rev (nextAddr_loop (rev (as16 a)))))"

fun merge_loop :: "span list \<Rightarrow> span \<Rightarrow> span list \<Rightarrow> span list" where
  "merge_loop out cur [] = out @ [cur]"
| "merge_loop out cur (s # ss) =
     (if addr_compare (lo s) (hi cur) \<le> 0 \<or> addr_compare (nextAddr (hi cur)) (lo s) = 0
      then merge_loop out (if addr_compare (hi s) (hi cur) > 0 then cur\<lparr>hi := hi s\<rparr> else cur) ss
      else merge_loop (out @ [cur]) s ss)"

text \<open>
  \<^verbatim>\<open>sort.Slice\<close> is not stable, so any sorted permutation may come out of it;
  \<open>merge_sorted\<close> is the code after the sort.
\<close>

definition merge_sorted :: "span list \<Rightarrow> span list" where
  "merge_sorted spans = (case spans of [] \<Rightarrow> [] | s # ss \<Rightarrow> merge_loop [] s ss)"

definition merge_spans :: "span list \<Rightarrow> span list" where
  "merge_spans spans =
     (if length spans \<le> 1 then spans else merge_sorted (sort_key lo spans))"

fun build_loop :: "net_prefix list \<Rightarrow> span list \<Rightarrow> span list \<Rightarrow> nat \<Rightarrow> nat \<Rightarrow> Index" where
  "build_loop [] s4 s6 n4 n6 =
     \<lparr>v4 = merge_spans s4, v6 = merge_spans s6, V4Input = n4, V6Input = n6\<rparr>"
| "build_loop (p # ps) s4 s6 n4 n6 =
     (let sp = \<lparr>lo = p_addr p, hi = lastAddr p\<rparr>
      in if is4 (p_addr p) then build_loop ps (s4 @ [sp]) s6 (Suc n4) n6
         else build_loop ps s4 (s6 @ [sp]) n4 (Suc n6))"

definition Build :: "net_prefix list \<Rightarrow> Index" where
  "Build pfx = build_loop pfx [] [] 0 0"

definition Counts :: "Index \<Rightarrow> nat \<times> nat" where
  "Counts ix = (length (v4 ix), length (v6 ix))"

text \<open>\<^verbatim>\<open>sort.Search\<close>: the halving loop of the standard library.\<close>

function search_loop :: "(nat \<Rightarrow> bool) \<Rightarrow> nat \<Rightarrow> nat \<Rightarrow> nat" where
  "search_loop f i j =
     (if i < j then (let h = (i + j) div 2 in if \<not> f h then search_loop f (h + 1) j else search_loop f i h)
      else i)"
  by pat_completeness auto
termination
  by (relation "measure (\<lambda>(f, i, j). j - i)") auto

declare search_loop.simps [simp del]

definition sort_search :: "nat \<Rightarrow> (nat \<Rightarrow> bool) \<Rightarrow> nat" where
  "sort_search n f = search_loop f 0 n"

definition contains :: "span list \<Rightarrow> addr \<Rightarrow> bool" where
  "contains spans ip =
     (let i = sort_search (length spans) (\<lambda>i. addr_compare (hi (spans ! i)) ip \<ge> 0)
      in \<not> (i = length spans \<or> addr_compare (lo (spans ! i)) ip > 0))"

definition Contains :: "Index \<Rightarrow> addr \<Rightarrow> bool" where
  "Contains ix ip0 =
     (let ip = unmap ip0 in if is4 ip then contains (v4 ix) ip else contains (v6 ix) ip)"

section \<open>The byte loops are arithmetic\<close>

lemma nextAddr_loop_word:
  "le_word (nextAddr_loop bs)
     = le_word bs + 1 - (if list_all (\<lambda>b. b = -1) bs then 2 ^ (8 * length bs) else 0)"
proof (induction bs)
  case Nil
  then show ?case by simp
next
  case (Cons b bs)
  have one: "ucast (b + 1) = (ucast b + 1 :: 128 word)" if "b \<noteq> -1"
  proof -
    from that have "unat (b + 1) = unat b + 1"
      using unatSuc [of b] by (metis add.commute add_eq_0_iff Suc_eq_plus1)
    then have "(of_nat (unat (b + 1)) :: 128 word) = of_nat (unat b + 1)" by (rule arg_cong)
    then show ?thesis by simp
  qed
  show ?case
  proof (cases "b = -1")
    case True
    then have "(ucast b :: 128 word) = 255"
      by (simp add: unsigned_minus_1_eq_mask mask_eq_exp_minus_1)
    with True show ?thesis
      by (simp add: Cons.IH algebra_simps power_add)
  next
    case False
    then have "b + 1 \<noteq> 0" by (metis add_eq_0_iff2)
    with False one show ?thesis by (simp add: algebra_simps)
  qed
qed

lemma nextAddr_loop_word16: "length bs = 16 \<Longrightarrow> le_word (nextAddr_loop bs) = le_word bs + 1"
proof -
  assume "length bs = 16"
  moreover have "(2 ^ 128 :: 128 word) = 0" by simp
  ultimately show ?thesis by (simp add: nextAddr_loop_word del: power_numeral)
qed

lemma nextAddr_bits: "nextAddr a = unmap (Addr6 (addr_bits a + 1) [])"
  by (simp add: nextAddr_def addr_from16_def nextAddr_loop_word16 as16_def wire_bytes take_bit_word_eq_self)

lemma bit_low_byte:
  fixes y :: "128 word"
  shows "bit (ucast (b :: u8) + 256 * y) n \<longleftrightarrow> n < 128 \<and> (if n < 8 then bit b n else bit y (n - 8))"
proof -
  have "ucast b + 256 * y = ucast b + push_bit 8 y"
    by (simp add: push_bit_eq_mult mult.commute)
  also have "\<dots> = ucast b OR push_bit 8 y"
    by (rule disjunctive_add) (auto simp: bit_simps dest: bit_imp_le_length)
  finally show ?thesis by (auto simp: bit_simps dest: bit_imp_le_length)
qed

lemma host_mask_byte: "0 < h \<Longrightarrow>
  drop_bit (nat (8 - (if h > 8 then 8 else h))) (0xFF :: u8) = mask (min 8 (nat h))"
proof -
  assume "0 < h"
  have ff: "(0xFF :: u8) = mask 8" by (simp add: mask_eq_exp_minus_1)
  have m: "drop_bit k (mask 8 :: u8) = mask (8 - k)" for k
    by (rule bit_word_eqI) (auto simp: bit_simps less_diff_conv)
  have "8 - nat (8 - (if h > 8 then 8 else h)) = min 8 (nat h)"
    using \<open>0 < h\<close> by auto
  then show ?thesis by (simp only: ff m)
qed

lemma lastAddr_loop_word:
  "length bs \<le> 16 \<Longrightarrow>
   le_word (lastAddr_loop bs h) = le_word bs OR mask (min (8 * length bs) (nat h))"
proof (induction bs arbitrary: h)
  case Nil
  then show ?case by simp
next
  case (Cons b bs)
  show ?case
  proof (cases "h > 0")
    case True
    have "le_word (lastAddr_loop (b # bs) h)
        = ucast (b OR mask (min 8 (nat h)))
          + 256 * (le_word bs OR mask (min (8 * length bs) (nat (h - 8))))"
      using True Cons host_mask_byte [OF True] by (simp add: Let_def)
    also have "\<dots> = (ucast b + 256 * le_word bs) OR mask (min (8 * Suc (length bs)) (nat h))"
      using Cons.prems True
      by (intro bit_word_eqI) (auto simp: bit_low_byte bit_or_iff bit_mask_iff min_def split: if_splits)
    finally show ?thesis by simp
  next
    case False
    then show ?thesis by simp
  qed
qed

lemma lastAddr_bits:
  assumes "0 \<le> p_bits p" "p_bits p \<le> int (bit_len (p_addr p))"
  shows "lastAddr p =
    (if p_bits p = int (bit_len (p_addr p)) then p_addr p
     else unmap (Addr6 (addr_bits (p_addr p) OR mask (bit_len (p_addr p) - nat (p_bits p))) []))"
proof -
  have "bit_len (p_addr p) \<le> 128" by (cases "p_addr p") auto
  with assms show ?thesis
    by (simp add: lastAddr_def addr_from16_def lastAddr_loop_word as16_def wire_bytes
        take_bit_word_eq_self nat_diff_distrib min_absorb2 Let_def)
qed

section \<open>Families\<close>

text \<open>The address family of an index slice: one bit length, no zones.\<close>

definition fam :: "nat \<Rightarrow> addr \<Rightarrow> bool" where
  "fam f a \<longleftrightarrow> bit_len a = f \<and> addr_zone a = []"

lemma is4in6_mask: "is4in6 a \<longleftrightarrow> is6 a \<and> drop_bit 32 (addr_bits a) = mask 16"
  by (simp add: is4in6_def mask_eq_exp_minus_1)

lemma mapped_or: "(ucast (v :: 32 word) + 0xffff00000000 :: 128 word) = ucast v OR push_bit 32 (mask 16)"
proof -
  have "(0xffff00000000 :: 128 word) = push_bit 32 (mask 16)"
    by (simp add: push_bit_eq_mult mask_eq_exp_minus_1)
  moreover have "(ucast v + push_bit 32 (mask 16) :: 128 word) = ucast v OR push_bit 32 (mask 16)"
    by (rule disjunctive_add) (auto simp: bit_simps dest: bit_imp_le_length)
  ultimately show ?thesis by simp
qed

lemma unmap_mapped:
  assumes "h \<le> 32"
  shows "unmap (Addr6 ((ucast v + 0xffff00000000) OR mask h) []) = Addr4 (v OR mask h)"
proof -
  let ?w = "(ucast v OR push_bit 32 (mask 16)) OR mask h :: 128 word"
  have "drop_bit 32 ?w = mask 16"
    using assms by (intro bit_word_eqI) (auto simp: bit_simps dest: bit_imp_le_length)
  moreover have "ucast ?w = v OR mask h"
    by (intro bit_word_eqI) (auto simp: bit_simps)
  ultimately show ?thesis by (simp add: unmap_def is4in6_mask mapped_or)
qed

lemma unmap_mapped0 [simp]: "unmap (Addr6 (ucast v + 0xffff00000000) []) = Addr4 v"
  using unmap_mapped [of 0 v] by simp

lemma lastAddr4:
  assumes "p_addr p = Addr4 n" "0 \<le> p_bits p" "p_bits p \<le> 32"
  shows "lastAddr p = Addr4 (n OR mask (32 - nat (p_bits p)))"
  using assms by (subst lastAddr_bits) (auto simp: unmap_mapped)

text \<open>The highest address of an IPv6 prefix is itself an IPv4-mapped one.\<close>

definition mapped_top :: "net_prefix \<Rightarrow> bool" where
  "mapped_top p \<longleftrightarrow> is6 (p_addr p)
     \<and> is4in6 (Addr6 (addr_bits (p_addr p) OR mask (128 - nat (p_bits p))) [])"

lemma lastAddr6:
  assumes "p_addr p = Addr6 n []" "0 \<le> p_bits p" "p_bits p \<le> 128" "\<not> mapped_top p"
  shows "lastAddr p = Addr6 (n OR mask (128 - nat (p_bits p))) []"
  using assms by (subst lastAddr_bits) (auto simp: unmap_def mapped_top_def)

lemma nextAddr4: "nextAddr (Addr4 v) = (if v = -1 then Addr6 0x1000000000000 [] else Addr4 (v + 1))"
proof (cases "v = -1")
  case True
  then show ?thesis
    by (simp add: nextAddr_bits unsigned_minus_1_eq_mask mask_eq_exp_minus_1 unmap_def is4in6_def)
next
  case False
  have "unat (v + 1) = unat v + 1"
    using False unatSuc [of v] by (metis add.commute add_eq_0_iff Suc_eq_plus1)
  then have "(ucast (v + 1) :: 128 word) = ucast v + 1"
    by (metis of_nat_unat of_nat_add of_nat_1)
  then have "(ucast v + 0xffff00000000 + 1 :: 128 word) = ucast (v + 1) + 0xffff00000000" by simp
  with False show ?thesis
    by (simp only: nextAddr_bits addr_bits.simps unmap_mapped0 if_False)
qed

text \<open>No address of the family lies strictly between an address and its successor.\<close>

lemma nextAddr_gap:
  assumes "fam f a" "fam f x" "nextAddr a = b" "fam f b" "a < x"
  shows "b \<le> x"
proof (cases a)
  case AddrZero
  with assms show ?thesis by (cases x) (auto simp: fam_def less_addr_def)
next
  case (Addr4 v)
  with assms(1,2) obtain w where x: "x = Addr4 w" by (cases x) (auto simp: fam_def)
  show ?thesis using assms Addr4 x
    by (auto simp: nextAddr4 fam_def split: if_splits intro: inc_le)
next
  case (Addr6 v z)
  with assms(1,2) obtain w where x: "x = Addr6 w []" and z: "z = []"
    by (cases x) (auto simp: fam_def)
  have "b = unmap (Addr6 (v + 1) [])" using assms(3) Addr6 by (simp add: nextAddr_bits)
  then have "b = Addr6 (v + 1) []"
    using assms(1,4) Addr6 by (auto simp: unmap_def fam_def split: if_splits)
  with assms(5) Addr6 x z show ?thesis by (auto intro: inc_le)
qed

section \<open>Merging keeps the covered addresses and makes spans disjoint\<close>

definition wf_span :: "nat \<Rightarrow> span \<Rightarrow> bool" where
  "wf_span f s \<longleftrightarrow> fam f (lo s) \<and> fam f (hi s) \<and> lo s \<le> hi s"

definition covers :: "span list \<Rightarrow> addr \<Rightarrow> bool" where
  "covers ss x \<longleftrightarrow> (\<exists>s\<in>set ss. lo s \<le> x \<and> x \<le> hi s)"

definition disjoint_sorted :: "span list \<Rightarrow> bool" where
  "disjoint_sorted ss \<longleftrightarrow> sorted_wrt (\<lambda>a b. hi a < lo b) ss"

text \<open>What \<^const>\<open>contains\<close> needs of a slice: the representation invariant of an index.\<close>

definition wf_spans :: "nat \<Rightarrow> span list \<Rightarrow> bool" where
  "wf_spans f ss \<longleftrightarrow> (\<forall>s\<in>set ss. wf_span f s) \<and> disjoint_sorted ss"

lemma covers_append [simp]: "covers (xs @ ys) x \<longleftrightarrow> covers xs x \<or> covers ys x"
  and covers_Cons [simp]: "covers (s # ss) x \<longleftrightarrow> (lo s \<le> x \<and> x \<le> hi s) \<or> covers ss x"
  and covers_Nil [simp]: "\<not> covers [] x"
  by (auto simp: covers_def)

definition widen :: "span \<Rightarrow> span \<Rightarrow> span" where
  "widen cur s = (if addr_compare (hi s) (hi cur) > 0 then cur\<lparr>hi := hi s\<rparr> else cur)"

lemma widen_simps [simp]: "lo (widen cur s) = lo cur" "hi (widen cur s) = max (hi cur) (hi s)"
  by (auto simp: widen_def addr_compare_gt max_def)

lemma wf_widen: "wf_span f cur \<Longrightarrow> wf_span f s \<Longrightarrow> wf_span f (widen cur s)"
  by (auto simp: wf_span_def max_def)

definition touches :: "span \<Rightarrow> span \<Rightarrow> bool" where
  "touches cur s \<longleftrightarrow> lo s \<le> hi cur \<or> nextAddr (hi cur) = lo s"

lemma merge_loop_Cons [simp]:
  "merge_loop out cur (s # ss) =
     (if touches cur s then merge_loop out (widen cur s) ss else merge_loop (out @ [cur]) s ss)"
  by (simp add: touches_def widen_def addr_compare_simps)

declare merge_loop.simps(2) [simp del]

lemma covers_widen:
  assumes "wf_span f cur" "wf_span f s" "lo cur \<le> lo s" "touches cur s" "fam f x"
  shows "lo cur \<le> x \<and> x \<le> max (hi cur) (hi s) \<longleftrightarrow>
    (lo cur \<le> x \<and> x \<le> hi cur) \<or> (lo s \<le> x \<and> x \<le> hi s)"
proof -
  have "lo s \<le> x" if "hi cur < x"
  proof (cases "lo s \<le> hi cur")
    case True
    with that show ?thesis by simp
  next
    case False
    then have "nextAddr (hi cur) = lo s" using assms(4) by (simp add: touches_def)
    from nextAddr_gap [OF _ assms(5) this _ that] assms(1,2) show ?thesis by (simp add: wf_span_def)
  qed
  with assms(3) show ?thesis by (metis le_max_iff_disj leI order_trans)
qed

lemma merge_loop_correct:
  assumes "\<forall>s\<in>set (out @ cur # ss). wf_span f s" "sorted (map lo (cur # ss))"
    and "disjoint_sorted (out @ [cur])"
  shows "wf_spans f (merge_loop out cur ss)
    \<and> (fam f x \<longrightarrow> covers (merge_loop out cur ss) x = covers (out @ cur # ss) x)"
  using assms
proof (induction ss arbitrary: out cur)
  case Nil
  then show ?case by (simp add: wf_spans_def)
next
  case (Cons s ss)
  have wf: "wf_span f cur" "wf_span f s" and le: "lo cur \<le> lo s" using Cons.prems by auto
  show ?case
  proof (cases "touches cur s")
    case True
    have "wf_spans f (merge_loop out (widen cur s) ss)
        \<and> (fam f x \<longrightarrow> covers (merge_loop out (widen cur s) ss) x = covers (out @ widen cur s # ss) x)"
      using Cons.prems wf by (intro Cons.IH) (auto simp: wf_widen disjoint_sorted_def sorted_wrt_append)
    with True covers_widen [OF wf le True] show ?thesis by auto
  next
    case False
    then have "hi cur < lo s" by (simp add: touches_def not_le)
    moreover have "hi a < lo s" if "a \<in> set out" for a
      using that Cons.prems(3) le by (force simp: disjoint_sorted_def sorted_wrt_append)
    ultimately have "disjoint_sorted ((out @ [cur]) @ [s])"
      using Cons.prems(3) by (auto simp: disjoint_sorted_def sorted_wrt_append)
    with Cons.prems Cons.IH [of "out @ [cur]" s] False show ?thesis by simp
  qed
qed

lemma merge_sorted_correct:
  assumes "\<forall>s\<in>set ss. wf_span f s" "sorted (map lo ss)"
  shows "wf_spans f (merge_sorted ss)
    \<and> (fam f x \<longrightarrow> covers (merge_sorted ss) x = covers ss x)"
proof (cases ss)
  case Nil
  then show ?thesis by (simp add: merge_sorted_def wf_spans_def disjoint_sorted_def)
next
  case (Cons s ss')
  then show ?thesis
    using assms merge_loop_correct [of "[]" s ss' f x]
    by (simp add: merge_sorted_def disjoint_sorted_def)
qed

lemma merge_spans_correct:
  assumes "\<forall>s\<in>set ss. wf_span f s"
  shows "wf_spans f (merge_spans ss)
    \<and> (fam f x \<longrightarrow> covers (merge_spans ss) x = covers ss x)"
proof (cases "length ss \<le> 1")
  case True
  have "disjoint_sorted ss" using True by (cases ss) (auto simp: disjoint_sorted_def)
  with True assms show ?thesis by (simp add: merge_spans_def wf_spans_def)
next
  case False
  have "covers (sort_key lo ss) x = covers ss x" by (simp add: covers_def)
  then show ?thesis
    using False assms merge_sorted_correct [of "sort_key lo ss" f x] by (simp add: merge_spans_def)
qed

section \<open>Merging leaves a gap between spans\<close>

text \<open>
  Consecutive spans of a merged slice are not adjacent: an address of the family lies strictly between them.
\<close>

definition separated :: "nat \<Rightarrow> span list \<Rightarrow> bool" where
  "separated f ss \<longleftrightarrow> sorted_wrt (\<lambda>a b. \<exists>x. fam f x \<and> hi a < x \<and> x < lo b) ss"

lemma word_between:
  fixes v w :: "'a::len word"
  assumes "v < w" "v + 1 \<noteq> w"
  shows "v < v + 1 \<and> v + 1 < w"
proof -
  have "v + 1 \<le> w" by (rule inc_le [OF assms(1)])
  moreover have "v \<noteq> -1" using assms(1) by (metis max_word_max not_le)
  then have "unat (v + 1) = Suc (unat v)" using unatSuc [of v] by (metis add.commute add_eq_0_iff)
  then have "v < v + 1" by (simp add: word_less_nat_alt)
  ultimately show ?thesis using assms(2) by (simp add: order.strict_iff_order)
qed

lemma nextAddr_between:
  assumes "fam f a" "fam f b" "a < b" "nextAddr a \<noteq> b" "\<not> is4in6 b"
  shows "\<exists>x. fam f x \<and> a < x \<and> x < b"
proof (cases a)
  case AddrZero
  then show ?thesis using assms(1-3) by (cases b) (auto simp: fam_def)
next
  case (Addr4 v)
  with assms(1,2) obtain w where b: "b = Addr4 w" by (cases b) (auto simp: fam_def)
  have lt: "v < w" using assms(3) by (simp add: Addr4 b)
  then have "v \<noteq> -1" by (metis max_word_max not_le)
  then have "v + 1 \<noteq> w" using assms(4) by (auto simp: Addr4 b nextAddr4)
  from word_between [OF lt this] show ?thesis
    using assms(1) by (intro exI [of _ "Addr4 (v + 1)"]) (auto simp: Addr4 b fam_def)
next
  case (Addr6 v z)
  with assms(1,2) obtain w where b: "b = Addr6 w []" "z = []" by (cases b) (auto simp: fam_def)
  have lt: "v < w" using assms(3) by (simp add: Addr6 b)
  have "v + 1 \<noteq> w"
  proof
    assume "v + 1 = w"
    then have "nextAddr a = unmap b" by (simp add: nextAddr_bits Addr6 b)
    then show False using assms(4,5) by (simp add: unmap_def)
  qed
  from word_between [OF lt this] show ?thesis
    using assms(1) by (intro exI [of _ "Addr6 (v + 1) []"]) (auto simp: Addr6 b fam_def)
qed

lemma merge_loop_separated:
  assumes "\<forall>s\<in>set (out @ cur # ss). wf_span f s \<and> \<not> is4in6 (lo s)" "sorted (map lo (cur # ss))" "separated f (out @ [cur])"
  shows "separated f (merge_loop out cur ss)"
  using assms
proof (induction ss arbitrary: out cur)
  case Nil
  then show ?case by simp
next
  case (Cons s ss)
  have wf: "wf_span f cur" "wf_span f s" and le: "lo cur \<le> lo s" using Cons.prems by auto
  show ?case
  proof (cases "touches cur s")
    case True
    have "separated f (merge_loop out (widen cur s) ss)"
      using Cons.prems wf by (intro Cons.IH) (auto simp: wf_widen separated_def sorted_wrt_append)
    with True show ?thesis by simp
  next
    case False
    then have "hi cur < lo s" "nextAddr (hi cur) \<noteq> lo s" by (simp_all add: touches_def not_le)
    then have "\<exists>x. fam f x \<and> hi cur < x \<and> x < lo s"
      using Cons.prems(1) wf by (intro nextAddr_between) (auto simp: wf_span_def)
    moreover have "\<exists>x. fam f x \<and> hi a < x \<and> x < lo s" if "a \<in> set out" for a
      using that Cons.prems(3) order.strict_trans2 [OF _ le] by (fastforce simp: separated_def sorted_wrt_append)
    ultimately have "separated f ((out @ [cur]) @ [s])"
      using Cons.prems(3) by (auto simp: separated_def sorted_wrt_append)
    with Cons.prems Cons.IH [of "out @ [cur]" s] False show ?thesis by simp
  qed
qed

lemma merge_spans_separated:
  assumes "\<forall>s\<in>set ss. wf_span f s \<and> \<not> is4in6 (lo s)"
  shows "separated f (merge_spans ss)"
proof (cases "length ss \<le> 1")
  case True
  then show ?thesis by (cases ss) (auto simp: merge_spans_def separated_def)
next
  case False
  obtain s ss' where s: "sort_key lo ss = s # ss'" using False by (cases "sort_key lo ss") (auto dest: arg_cong [of _ _ length])
  have "separated f (merge_loop [] s ss')"
  proof (rule merge_loop_separated)
    show "\<forall>x\<in>set ([] @ s # ss'). wf_span f x \<and> \<not> is4in6 (lo x)" using assms by (simp flip: s)
    show "sorted (map lo (s # ss'))" by (simp flip: s)
  qed (simp add: separated_def)
  then show ?thesis using False by (simp add: merge_spans_def merge_sorted_def s)
qed

section \<open>Binary search\<close>

text \<open>The documented precondition of \<^verbatim>\<open>sort.Search\<close>: false up to some index, true from there on.\<close>

definition upclosed :: "nat \<Rightarrow> (nat \<Rightarrow> bool) \<Rightarrow> bool" where
  "upclosed n f \<longleftrightarrow> (\<forall>a b. a \<le> b \<and> b < n \<and> f a \<longrightarrow> f b)"

lemma search_loop_correct:
  assumes "i \<le> j" "j \<le> n" "\<forall>k<i. \<not> f k" "j < n \<longrightarrow> f j"
    and mono: "upclosed n f"
  shows "search_loop f i j \<le> n \<and> (\<forall>k < search_loop f i j. \<not> f k)
    \<and> (search_loop f i j < n \<longrightarrow> f (search_loop f i j))"
  using assms
proof (induction f i j rule: search_loop.induct)
  case (1 f i j)
  show ?case
  proof (cases "i < j")
    case False
    with "1.prems" have "i = j" by simp
    with "1.prems" show ?thesis by (simp add: search_loop.simps [of f j j])
  next
    case True
    let ?h = "(i + j) div 2"
    have h: "i \<le> ?h" "?h < j" using True by auto
    show ?thesis
    proof (cases "f ?h")
      case fh: False
      have "\<not> f k" if "k \<le> ?h" for k
        using fh "1.prems"(2,5) that order.strict_trans2 [OF h(2)] unfolding upclosed_def by blast
      then have "\<forall>k < ?h + 1. \<not> f k" by simp
      with "1.IH"(1) [OF True refl] fh "1.prems" h show ?thesis
        by (simp add: search_loop.simps [of f i j] True Let_def)
    next
      case fh: True
      with "1.IH"(2) [OF True refl] "1.prems" h show ?thesis
        by (simp add: search_loop.simps [of f i j] True Let_def)
    qed
  qed
qed

lemma sort_search_least:
  assumes "upclosed n f"
  shows "sort_search n f \<le> n" "k < sort_search n f \<Longrightarrow> \<not> f k"
    "sort_search n f < n \<Longrightarrow> f (sort_search n f)"
  using search_loop_correct [of 0 n n f] assms by (simp_all add: sort_search_def)

lemma contains_covers:
  assumes "wf_spans f ss"
  shows "contains ss x = covers ss x"
proof -
  let ?P = "\<lambda>i. addr_compare (hi (ss ! i)) x \<ge> 0"
  define i where "i = sort_search (length ss) ?P"
  have le: "lo s \<le> hi s" if "s \<in> set ss" for s using that assms by (auto simp: wf_spans_def wf_span_def)
  have lt: "hi (ss ! a) < lo (ss ! b)" if "a < b" "b < length ss" for a b
    using that assms by (auto simp: wf_spans_def disjoint_sorted_def sorted_wrt_iff_nth_less)
  have "hi (ss ! a) \<le> hi (ss ! b)" if "a \<le> b" "b < length ss" for a b
    using that lt [of a b] le [of "ss ! b"] by (cases "a = b") auto
  then have mono: "upclosed (length ss) ?P"
    unfolding addr_compare_ge upclosed_def using order_trans by blast
  note least = sort_search_least [OF mono, folded i_def]
  have "covers ss x \<longleftrightarrow> i < length ss \<and> lo (ss ! i) \<le> x"
  proof
    assume "covers ss x"
    then obtain k where k: "k < length ss" "lo (ss ! k) \<le> x" "x \<le> hi (ss ! k)"
      by (auto simp: covers_def in_set_conv_nth)
    then have "i \<le> k" using least(2) [of k] by (force simp: addr_compare_ge)
    moreover have "\<not> i < k"
      using lt [of i k] k least(3) by (auto simp: addr_compare_ge)
    ultimately show "i < length ss \<and> lo (ss ! i) \<le> x" using k by simp
  next
    assume "i < length ss \<and> lo (ss ! i) \<le> x"
    then show "covers ss x" using least(3) by (auto simp: covers_def addr_compare_ge)
  qed
  then show ?thesis using least(1)
    by (auto simp: contains_def i_def [symmetric] addr_compare_gt not_less Let_def)
qed

section \<open>Build and Contains\<close>

definition span_of :: "net_prefix \<Rightarrow> span" where
  "span_of p = \<lparr>lo = p_addr p, hi = lastAddr p\<rparr>"

lemma build_loop_eq:
  "build_loop ps s4 s6 n4 n6 =
     \<lparr>v4 = merge_spans (s4 @ map span_of (filter (is4 \<circ> p_addr) ps)),
      v6 = merge_spans (s6 @ map span_of (filter (Not \<circ> is4 \<circ> p_addr) ps)),
      V4Input = n4 + length (filter (is4 \<circ> p_addr) ps),
      V6Input = n6 + length (filter (Not \<circ> is4 \<circ> p_addr) ps)\<rparr>"
  by (induction ps s4 s6 n4 n6 rule: build_loop.induct) (auto simp: span_of_def Let_def)

lemmas Build_eq = build_loop_eq [of _ "[]" "[]" 0 0, folded Build_def, simplified]

lemma span_of_prefix:
  assumes "valid_prefix p" "\<not> mapped_top p"
  shows "wf_span (bit_len (p_addr p)) (span_of p)"
    and "fam (bit_len (p_addr p)) x \<Longrightarrow> lo (span_of p) \<le> x \<and> x \<le> hi (span_of p) \<longleftrightarrow> in_prefix p x"
proof -
  have b: "0 \<le> p_bits p" "p_bits p \<le> int (bit_len (p_addr p))" "masked p = p" "p_addr p \<noteq> AddrZero"
    and z: "addr_zone (p_addr p) = []"
    using assms(1) by (auto simp: valid_prefix_def)
  have m: "mask_addr (p_addr p) (nat (p_bits p)) = p_addr p"
    using arg_cong [OF b(3), of p_addr] b by (simp add: masked_def split: if_splits)
  show "wf_span (bit_len (p_addr p)) (span_of p)"
    using b z assms(2)
    by (cases "p_addr p")
      (auto simp: wf_span_def span_of_def fam_def lastAddr4 lastAddr6 le_word_or2)
  show "lo (span_of p) \<le> x \<and> x \<le> hi (span_of p) \<longleftrightarrow> in_prefix p x"
    if "fam (bit_len (p_addr p)) x"
  proof (cases "p_addr p")
    case AddrZero
    with b show ?thesis by simp
  next
    case (Addr4 n)
    with that obtain w where "x = Addr4 w" by (cases x) (auto simp: fam_def)
    with Addr4 b m show ?thesis
      using prefix_interval [of n "32 - nat (p_bits p)" w] by (simp add: span_of_def lastAddr4 in_prefix_def)
  next
    case (Addr6 n z')
    with that z obtain w where "x = Addr6 w []" "z' = []" by (cases x) (auto simp: fam_def)
    with Addr6 b m assms(2) show ?thesis
      using prefix_interval [of n "128 - nat (p_bits p)" w] by (simp add: span_of_def lastAddr6 in_prefix_def)
  qed
qed

lemma bit_len_cases: "a \<noteq> AddrZero \<Longrightarrow> bit_len a = (if is4 a then 32 else 128)"
  by (cases a) auto

lemma in_prefix_family: "in_prefix p a \<Longrightarrow> is4 a = is4 (p_addr p) \<and> a \<noteq> AddrZero"
  by (auto simp: in_prefix_def split: addr.splits)

definition searchable :: "net_prefix \<Rightarrow> bool" where
  "searchable p \<longleftrightarrow> valid_prefix p \<and> \<not> mapped_top p"

text \<open>The base of a prefix that does not end in an IPv4-mapped address is not mapped either.\<close>

lemma base_not_mapped:
  assumes "valid_prefix p" "\<not> mapped_top p"
  shows "\<not> is4in6 (p_addr p)"
proof
  assume m: "is4in6 (p_addr p)"
  then obtain n where p: "p_addr p = Addr6 n []" "drop_bit 32 n = mask 16"
    using assms(1) by (cases "p_addr p") (auto simp: is4in6_mask valid_prefix_def)
  define h where "h = 128 - nat (p_bits p)"
  have v: "0 \<le> p_bits p" "p_bits p \<le> 128" "masked p = p" using assms(1) by (auto simp: valid_prefix_def p(1))
  have b: "n AND NOT (mask h) = n"
    using arg_cong [OF v(3), of p_addr] v(1,2) by (simp add: masked_def p(1) h_def split: if_splits)
  show False
  proof (cases "h \<le> 32")
    case True
    have "drop_bit 32 (mask h :: 128 word) = 0"
      using True by (intro bit_word_eqI) (auto simp: bit_simps)
    then have "drop_bit 32 (n OR mask h) = mask 16" by (simp add: p(2))
    then show False using assms(2) by (simp add: mapped_top_def p(1) is4in6_mask h_def)
  next
    case False
    have "bit (drop_bit 32 n) 0" by (simp add: p(2) bit_mask_iff)
    then have "bit (n AND NOT (mask h)) 32" by (simp add: b bit_drop_bit_eq)
    then show False using False by (simp add: bit_simps)
  qed
qed

text \<open>One family's slice: the merged spans of its prefixes.\<close>

lemma family_slice:
  assumes "\<forall>p\<in>set ps. searchable p \<and> bit_len (p_addr p) = f"
  shows "wf_spans f (merge_spans (map span_of ps))"
    and "fam f x \<Longrightarrow> contains (merge_spans (map span_of ps)) x \<longleftrightarrow> (\<exists>p\<in>set ps. in_prefix p x)"
    and "fam f x \<Longrightarrow> covers (merge_spans (map span_of ps)) x \<longleftrightarrow> (\<exists>p\<in>set ps. in_prefix p x)"
    and "separated f (merge_spans (map span_of ps))"
proof -
  have wf: "\<forall>s\<in>set (map span_of ps). wf_span f s"
    using assms span_of_prefix(1) by (auto simp: searchable_def)
  note m = merge_spans_correct [OF wf]
  show "wf_spans f (merge_spans (map span_of ps))" using m by blast
  then have "contains (merge_spans (map span_of ps)) x = covers (merge_spans (map span_of ps)) x"
    by (rule contains_covers)
  moreover have "covers (map span_of ps) x \<longleftrightarrow> (\<exists>p\<in>set ps. in_prefix p x)" if "fam f x"
    using assms that span_of_prefix(2) by (fastforce simp: covers_def searchable_def)
  ultimately show "contains (merge_spans (map span_of ps)) x \<longleftrightarrow> (\<exists>p\<in>set ps. in_prefix p x)"
    "covers (merge_spans (map span_of ps)) x \<longleftrightarrow> (\<exists>p\<in>set ps. in_prefix p x)"
    if "fam f x" using that m [of x] by simp_all
  show "separated f (merge_spans (map span_of ps))"
    using wf assms base_not_mapped by (intro merge_spans_separated) (auto simp: span_of_def searchable_def)
qed

definition wf_index :: "Index \<Rightarrow> bool" where
  "wf_index ix \<longleftrightarrow> wf_spans 32 (v4 ix) \<and> wf_spans 128 (v6 ix)"

lemma searchable_family:
  assumes "\<forall>p\<in>set ps. searchable p"
  shows "\<forall>p\<in>set (filter (is4 \<circ> p_addr) ps). searchable p \<and> bit_len (p_addr p) = 32"
    and "\<forall>p\<in>set (filter (Not \<circ> is4 \<circ> p_addr) ps). searchable p \<and> bit_len (p_addr p) = 128"
proof -
  have "p_addr p \<noteq> AddrZero" if "p \<in> set ps" for p
    using that assms by (simp add: searchable_def valid_prefix_def)
  then show "\<forall>p\<in>set (filter (is4 \<circ> p_addr) ps). searchable p \<and> bit_len (p_addr p) = 32"
    and "\<forall>p\<in>set (filter (Not \<circ> is4 \<circ> p_addr) ps). searchable p \<and> bit_len (p_addr p) = 128"
    using assms by (simp_all add: bit_len_cases)
qed

lemma wf_index_Build: "\<forall>p\<in>set ps. searchable p \<Longrightarrow> wf_index (Build ps)"
  unfolding wf_index_def Build_eq
  by (simp add: family_slice(1) [OF searchable_family(1)] family_slice(1) [OF searchable_family(2)]
      del: filter_set set_filter)

lemma Contains_zero: "wf_index ix \<Longrightarrow> \<not> Contains ix AddrZero"
proof -
  assume "wf_index ix"
  then have "contains (v6 ix) AddrZero = covers (v6 ix) AddrZero"
    and "\<forall>s\<in>set (v6 ix). wf_span 128 s"
    using contains_covers by (auto simp: wf_index_def wf_spans_def)
  moreover have "\<not> lo s \<le> AddrZero" if "wf_span 128 s" for s
    using that by (cases "lo s") (auto simp: wf_span_def fam_def less_eq_addr_def)
  ultimately show ?thesis by (auto simp: Contains_def unmap_def is4in6_def covers_def)
qed

lemma unmap_zone: "addr_zone a = [] \<Longrightarrow> addr_zone (unmap a) = []"
  by (auto simp: unmap_def)

lemma unmap_idem [simp]: "unmap (unmap a) = unmap a"
  by (auto simp: unmap_def is4in6_def)

lemma Contains_unmap [simp]: "Contains ix (unmap a) = Contains ix a"
  by (simp add: Contains_def)

lemma Contains_Build:
  assumes ps: "\<forall>p\<in>set ps. searchable p" and z: "addr_zone ip = []"
  shows "Contains (Build ps) ip \<longleftrightarrow> (\<exists>p\<in>set ps. in_prefix p (unmap ip))"
proof (cases "unmap ip = AddrZero")
  case True
  then show ?thesis
    using Contains_zero [OF wf_index_Build [OF ps]] Contains_unmap [of "Build ps" ip]
      in_prefix_family by metis
next
  case False
  note slice = family_slice(2) [OF searchable_family(1) [OF ps]] family_slice(2) [OF searchable_family(2) [OF ps]]
  have "fam (if is4 (unmap ip) then 32 else 128) (unmap ip)"
    using bit_len_cases [OF False] unmap_zone [OF z] by (simp add: fam_def)
  moreover note in_prefix_family
  ultimately show ?thesis
    using slice [of "unmap ip"] unfolding Contains_def Build_eq Let_def
    by (cases "is4 (unmap ip)") auto
qed

lemma Build_slice4: "v4 (Build ps) = merge_spans (map span_of (filter (is4 \<circ> p_addr) ps))"
  and Build_slice6: "v6 (Build ps) = merge_spans (map span_of (filter (Not \<circ> is4 \<circ> p_addr) ps))"
  by (simp_all add: Build_eq)

section \<open>The order among equal keys does not matter\<close>

lemma widen_commute: "widen (widen cur a) b = widen (widen cur b) a"
  by (rule span.equality) (simp_all add: max.left_commute max.commute)

lemma widen_swap: "lo a = lo b \<Longrightarrow> widen a b = widen b a"
  by (rule span.equality) (simp_all add: max.commute)

lemma touches_same_lo: "lo a = lo b \<Longrightarrow> touches cur a = touches cur b"
  by (simp add: touches_def)

lemma merge_loop_swap:
  assumes "lo a = lo b" "lo a \<le> hi a" "lo b \<le> hi b"
  shows "merge_loop out cur (a # b # zs) = merge_loop out cur (b # a # zs)"
proof -
  have "touches (widen cur a) b" "touches (widen cur b) a" "touches a b" "touches b a"
    using assms by (auto simp: touches_def le_max_iff_disj)
  then show ?thesis
    using touches_same_lo [OF assms(1)] widen_commute [of cur a b] widen_swap [OF assms(1)] by simp
qed

lemma merge_loop_bring_front:
  assumes "\<forall>s\<in>set (ys @ [x]). lo s = lo x \<and> lo s \<le> hi s"
  shows "merge_loop out cur (ys @ x # zs) = merge_loop out cur (x # ys @ zs)"
  using assms
proof (induction ys arbitrary: out cur)
  case Nil
  then show ?case by simp
next
  case (Cons y ys)
  have IH: "merge_loop out' cur' (ys @ x # zs) = merge_loop out' cur' (x # ys @ zs)" for out' cur'
    using Cons.prems by (intro Cons.IH) force
  have "merge_loop out cur ((y # ys) @ x # zs) = merge_loop out cur (y # x # ys @ zs)"
    by (simp only: append_Cons merge_loop_Cons IH)
  also have "\<dots> = merge_loop out cur (x # y # ys @ zs)"
    using Cons.prems by (intro merge_loop_swap) auto
  finally show ?case by simp
qed

text \<open>A least element of a sorted list stands behind elements with the same key only.\<close>

lemma least_split:
  assumes "sorted (map lo ys)" "x \<in> set ys" "\<forall>y\<in>set ys. lo x \<le> lo y"
  obtains us vs where "ys = us @ x # vs" "x \<notin> set us" "\<forall>u\<in>set us. lo u = lo x"
proof -
  from split_list_first [OF assms(2)] obtain us vs where ys: "ys = us @ x # vs" "x \<notin> set us" by blast
  then have "\<forall>u\<in>set us. lo u = lo x"
    using assms(1,3) by (auto simp: sorted_append intro!: order_antisym)
  with ys that show thesis by blast
qed

lemma merge_loop_least:
  assumes "sorted (map lo ys)" "x \<in> set ys" "\<forall>y\<in>set ys. lo x \<le> lo y" "\<forall>y\<in>set ys. lo y \<le> hi y"
  shows "merge_loop out cur ys = merge_loop out cur (x # remove1 x ys)"
    and "sorted (map lo (remove1 x ys))"
proof -
  obtain us vs where ys: "ys = us @ x # vs" "x \<notin> set us" "\<forall>u\<in>set us. lo u = lo x"
    using least_split [OF assms(1-3)] .
  have "\<forall>s\<in>set (us @ [x]). lo s = lo x \<and> lo s \<le> hi s" using ys assms(4) by force
  from merge_loop_bring_front [OF this, of out cur vs]
  show "merge_loop out cur ys = merge_loop out cur (x # remove1 x ys)"
    by (simp add: ys remove1_append del: merge_loop_Cons)
  show "sorted (map lo (remove1 x ys))" using assms(1) by (rule sorted_map_remove1)
qed

lemma merge_loop_perm:
  assumes "mset ys = mset xs" "sorted (map lo xs)" "sorted (map lo ys)" "\<forall>s\<in>set xs. lo s \<le> hi s"
  shows "merge_loop out cur ys = merge_loop out cur xs"
  using assms
proof (induction xs arbitrary: ys out cur)
  case Nil
  then show ?case by simp
next
  case (Cons x xs)
  have s: "set ys = insert x (set xs)" using Cons.prems(1) by (metis list.simps(15) set_mset_mset)
  have l: "x \<in> set ys" "\<forall>y\<in>set ys. lo x \<le> lo y" "\<forall>y\<in>set ys. lo y \<le> hi y"
    using Cons.prems s by auto
  have "mset (remove1 x ys) = mset xs" using Cons.prems(1) by simp
  then have "merge_loop out' cur' (remove1 x ys) = merge_loop out' cur' xs" for out' cur'
    using Cons.IH [of "remove1 x ys"] Cons.prems merge_loop_least(2) [OF Cons.prems(3) l] by simp
  then show ?case using merge_loop_least(1) [OF Cons.prems(3) l, of out cur] by simp
qed

lemma merge_sorted_perm:
  assumes "mset ys = mset xs" "sorted (map lo xs)" "sorted (map lo ys)" "\<forall>s\<in>set xs. lo s \<le> hi s"
  shows "merge_sorted ys = merge_sorted xs"
proof (cases xs)
  case Nil
  then show ?thesis using assms(1) by simp
next
  case (Cons x xs')
  then obtain y ys' where ys: "ys = y # ys'" using assms(1) by (cases ys) auto
  have set_eq: "set ys = set xs" using assms(1) by (metis set_mset_mset)
  then have lo_eq: "lo x = lo y"
    using assms(2,3) by (auto simp: Cons ys intro!: order_antisym)
  show ?thesis
  proof (cases "x = y")
    case True
    then show ?thesis
      using assms merge_loop_perm [of ys' xs' "[]" x] by (simp add: Cons ys merge_sorted_def)
  next
    case False
    have yx: "y \<in> set xs'" "x \<in> set ys'" using set_eq False by (auto simp: Cons ys)
    have 1: "merge_loop [] x xs' = merge_loop [] x (y # remove1 y xs')"
      using assms set_eq yx lo_eq by (intro merge_loop_least) (auto simp: Cons ys)
    have 2: "merge_loop [] y ys' = merge_loop [] y (x # remove1 x ys')"
      using assms set_eq yx lo_eq by (intro merge_loop_least) (auto simp: Cons ys)
    have t: "touches x y" "touches y x"
      using assms(4) set_eq lo_eq by (auto simp: touches_def Cons ys)
    have "mset (remove1 x ys') = mset (remove1 y xs')"
      using assms(1) yx False by (simp add: Cons ys) (metis add_mset_diff_bothsides add_mset_remove_trivial diff_union_swap insert_DiffM set_mset_mset)
    then have "merge_loop [] c (remove1 x ys') = merge_loop [] c (remove1 y xs')" for c
      using assms set_eq
      by (intro merge_loop_perm) (auto simp: Cons ys dest: notin_set_remove1 sorted_map_remove1 intro: sorted_map_remove1)
    with 1 2 t widen_swap [OF lo_eq] show ?thesis by (simp add: Cons ys merge_sorted_def)
  qed
qed

lemma merge_spans_perm:
  assumes "mset ys = mset ss" "sorted (map lo ys)" "\<forall>s\<in>set ss. lo s \<le> hi s"
  shows "merge_spans ss = merge_sorted ys"
proof -
  have "merge_spans ss = merge_sorted (sort_key lo ss)"
    by (cases ss rule: remdups_adj.cases) (auto simp: merge_spans_def merge_sorted_def)
  also have "\<dots> = merge_sorted ys"
    using assms mset_eq_setD [OF assms(1)] by (intro merge_sorted_perm) auto
  finally show ?thesis .
qed

section \<open>Properties\<close>

text \<open>
  C13. The index built from prefixes, none of them ending in an IPv4-mapped address: in each family the spans are sorted,
  disjoint and not adjacent, an address of the family lying strictly between any two; an address of the family lies in one of
  the spans exactly when it lies in one of the prefixes. The sort is \<^verbatim>\<open>sort.Slice\<close>, which may order equal keys in any way:
  every sorted permutation of the spans gives the same slice.
\<close>

theorem Build_slices:
  assumes "\<forall>p\<in>set ps. valid_prefix p \<and> \<not> mapped_top p"
  shows "(\<forall>s\<in>set (v4 (Build ps)). is4 (lo s) \<and> is4 (hi s) \<and> lo s \<le> hi s)
    \<and> (\<forall>s\<in>set (v6 (Build ps)). is6 (lo s) \<and> is6 (hi s) \<and> lo s \<le> hi s)
    \<and> sorted_wrt (\<lambda>a b. \<exists>w. hi a < Addr4 w \<and> Addr4 w < lo b) (v4 (Build ps))
    \<and> sorted_wrt (\<lambda>a b. \<exists>w. hi a < Addr6 w [] \<and> Addr6 w [] < lo b) (v6 (Build ps))
    \<and> (\<forall>w. (\<exists>s\<in>set (v4 (Build ps)). lo s \<le> Addr4 w \<and> Addr4 w \<le> hi s) \<longleftrightarrow> (\<exists>p\<in>set ps. in_prefix p (Addr4 w)))
    \<and> (\<forall>w. (\<exists>s\<in>set (v6 (Build ps)). lo s \<le> Addr6 w [] \<and> Addr6 w [] \<le> hi s) \<longleftrightarrow> (\<exists>p\<in>set ps. in_prefix p (Addr6 w [])))
    \<and> (\<forall>ys. mset ys = mset (map span_of (filter (is4 \<circ> p_addr) ps)) \<and> sorted (map lo ys)
         \<longrightarrow> v4 (Build ps) = merge_sorted ys)
    \<and> (\<forall>ys. mset ys = mset (map span_of (filter (Not \<circ> is4 \<circ> p_addr) ps)) \<and> sorted (map lo ys)
         \<longrightarrow> v6 (Build ps) = merge_sorted ys)"
proof -
  have ps: "\<forall>p\<in>set ps. searchable p" using assms by (simp add: searchable_def)
  note s4 = family_slice [OF searchable_family(1) [OF ps], folded Build_slice4]
    and s6 = family_slice [OF searchable_family(2) [OF ps], folded Build_slice6]
  have f4: "fam 32 x \<longleftrightarrow> (\<exists>w. x = Addr4 w)" and f6: "fam 128 x \<longleftrightarrow> (\<exists>w. x = Addr6 w [])" for x
    by (cases x; auto simp: fam_def)+
  have le: "lo s \<le> hi s" if "s \<in> set (map span_of ps)" for s
    using that assms span_of_prefix(1) by (auto simp: wf_span_def)
  have "\<forall>s\<in>set (v4 (Build ps)). is4 (lo s) \<and> is4 (hi s) \<and> lo s \<le> hi s" "\<forall>s\<in>set (v6 (Build ps)). is6 (lo s) \<and> is6 (hi s) \<and> lo s \<le> hi s"
    using s4(1) s6(1) by (auto simp: wf_spans_def wf_span_def f4 f6)
  moreover have "sorted_wrt (\<lambda>a b. \<exists>w. hi a < Addr4 w \<and> Addr4 w < lo b) (v4 (Build ps))"
    by (rule sorted_wrt_mono_rel [OF _ s4(4) [unfolded separated_def]]) (auto simp: f4)
  moreover have "sorted_wrt (\<lambda>a b. \<exists>w. hi a < Addr6 w [] \<and> Addr6 w [] < lo b) (v6 (Build ps))"
    by (rule sorted_wrt_mono_rel [OF _ s6(4) [unfolded separated_def]]) (auto simp: f6)
  moreover have "(\<exists>s\<in>set (v4 (Build ps)). lo s \<le> Addr4 w \<and> Addr4 w \<le> hi s) \<longleftrightarrow> (\<exists>p\<in>set ps. in_prefix p (Addr4 w))" for w
    using s4(3) [of "Addr4 w"] in_prefix_family [of _ "Addr4 w"] by (auto simp: f4 covers_def)
  moreover have "(\<exists>s\<in>set (v6 (Build ps)). lo s \<le> Addr6 w [] \<and> Addr6 w [] \<le> hi s) \<longleftrightarrow> (\<exists>p\<in>set ps. in_prefix p (Addr6 w []))" for w
    using s6(3) [of "Addr6 w []"] in_prefix_family [of _ "Addr6 w []"] by (auto simp: f6 covers_def)
  ultimately show ?thesis using le unfolding Build_eq by (auto intro!: merge_spans_perm)
qed

text \<open>Two adjacent prefixes and one inside the first.\<close>

definition sample_prefix_list :: "net_prefix list" where
  "sample_prefix_list =
     [\<lparr>p_addr = Addr4 0x01000400, p_bits = 24\<rparr>, \<lparr>p_addr = Addr4 0x01000200, p_bits = 23\<rparr>, \<lparr>p_addr = Addr4 0x01000200, p_bits = 24\<rparr>]"

lemma searchable_sample: "\<forall>p\<in>set sample_prefix_list. valid_prefix p \<and> \<not> mapped_top p"
  by (simp add: sample_prefix_list_def valid_prefix_def masked_def mapped_top_def mask_eq_exp_minus_1)

theorem Build_slices_witness:
  "(\<exists>s\<in>set (v4 (Build sample_prefix_list)). lo s \<le> Addr4 0x01000307 \<and> Addr4 0x01000307 \<le> hi s)
   \<and> sorted_wrt (\<lambda>a b. \<exists>w. hi a < Addr4 w \<and> Addr4 w < lo b) (v4 (Build sample_prefix_list))
   \<and> v6 (Build sample_prefix_list) = merge_sorted []"
proof -
  note t = Build_slices [OF searchable_sample]
  have "\<exists>p\<in>set sample_prefix_list. in_prefix p (Addr4 0x01000307)"
    by (simp add: sample_prefix_list_def in_prefix_def drop_bit_eq_div)
  moreover have "mset [] = mset (map span_of (filter (Not \<circ> is4 \<circ> p_addr) sample_prefix_list)) \<and> sorted (map lo [])"
    by (simp add: sample_prefix_list_def)
  ultimately show ?thesis using t by blast
qed

lemma mapped_example_last:
  "lastAddr \<lparr>p_addr = Addr6 0 [], p_bits = 100\<rparr> = Addr6 0xfffffff []"
  "lastAddr \<lparr>p_addr = Addr6 0xffff00000000 [], p_bits = 96\<rparr> = Addr4 0xffffffff"
  "lastAddr \<lparr>p_addr = Addr6 0x20010db8000000000000000000000000 [], p_bits = 32\<rparr>
     = Addr6 0x20010db8ffffffffffffffffffffffff []"
  by (simp_all add: lastAddr_bits unmap_def is4in6_def mask_eq_exp_minus_1)

abbreviation (input) low_p :: net_prefix where
  "low_p \<equiv> \<lparr>p_addr = Addr6 0 [], p_bits = 100\<rparr>"
abbreviation (input) mapped_p :: net_prefix where
  "mapped_p \<equiv> \<lparr>p_addr = Addr6 0xffff00000000 [], p_bits = 96\<rparr>"
abbreviation (input) high_p :: net_prefix where
  "high_p \<equiv> \<lparr>p_addr = Addr6 0x20010db8000000000000000000000000 [], p_bits = 32\<rparr>"

lemma mapped_example_slices:
  "v6 (Build [low_p, mapped_p, high_p]) = map span_of [low_p, mapped_p, high_p]"
  "v6 (Build [low_p, high_p]) = map span_of [low_p, high_p]"
  by (simp_all add: Build_eq span_of_def mapped_example_last merge_spans_def merge_sorted_def
      touches_def nextAddr_bits unmap_def is4in6_def)

lemma mapped_example_search:
  "\<not> contains (map span_of [low_p, mapped_p, high_p]) (Addr6 2 [])"
  "contains (map span_of [low_p, high_p]) (Addr6 2 [])"
  by (simp_all add: contains_def sort_search_def search_loop.simps span_of_def mapped_example_last
      addr_compare_ge addr_compare_gt Let_def)

text \<open>
  An IPv6 prefix that ends at an IPv4-mapped address is stored with an IPv4 upper bound. The
  slice is then no longer ordered by its upper bounds and the binary search misses other prefixes:
  with \<^verbatim>\<open>::/100\<close>, \<^verbatim>\<open>::ffff:0:0/96\<close> and \<^verbatim>\<open>2001:db8::/32\<close> the address \<^verbatim>\<open>::2\<close> is reported as not
  contained, without the mapped prefix it is.
\<close>

theorem mapped_prefix_breaks_search:
  "list_all valid_prefix [low_p, mapped_p, high_p]
   \<and> in_prefix low_p (Addr6 2 [])
   \<and> \<not> Contains (Build [low_p, mapped_p, high_p]) (Addr6 2 [])
   \<and> Contains (Build [low_p, high_p]) (Addr6 2 [])"
  using mapped_example_search
  by (simp add: Contains_def mapped_example_slices unmap_def is4in6_def in_prefix_def
      valid_prefix_def masked_def mask_eq_exp_minus_1)

text \<open>
  \<^verbatim>\<open>nextAddr\<close> adds one to the sixteen-byte form. On the last IPv6 address it wraps to the first
  one, on the last IPv4 address it leaves the family; it never returns its argument, which the
  comment on the function promises for overflow.
\<close>

theorem nextAddr_successor:
  "nextAddr (Addr4 v) = (if v = -1 then Addr6 0x1000000000000 [] else Addr4 (v + 1))
   \<and> nextAddr (Addr6 w z) = unmap (Addr6 (w + 1) [])
   \<and> nextAddr (Addr6 (-1) []) = Addr6 0 []
   \<and> nextAddr a \<noteq> a"
proof -
  have 6: "nextAddr (Addr6 w z) = unmap (Addr6 (w + 1) [])" for w z by (simp add: nextAddr_bits)
  have "nextAddr a \<noteq> a"
    by (cases a) (simp_all add: nextAddr4 6, simp_all add: nextAddr_bits unmap_def is4in6_def)
  then show ?thesis by (simp add: nextAddr4 6 unmap_def is4in6_def)
qed

end
