(* ===== verification/AssetLines.thy ===== *)
theory AssetLines
  imports GoStrings
begin

text \<open>
  Comment handling shared by the two asset formats: \<^verbatim>\<open>china.ParsePrefixLine\<close> and
  \<^verbatim>\<open>overrides.LoadFrom\<close> contain the same lines. A whole-line comment starts with one of three
  markers; an inline comment starts at a marker after a blank. The loop takes the first marker of
  its list that occurs anywhere, not the marker that occurs first.
\<close>

definition is_comment_line :: "gostring \<Rightarrow> bool" where
  "is_comment_line line \<longleftrightarrow>
     line = [] \<or> has_prefix line ''#'' \<or> has_prefix line '';'' \<or> has_prefix line ''//''"

definition comment_seps :: "gostring list" where
  "comment_seps = ['' #'', tab # ''#'', '' ;'', tab # '';'', '' //'', tab # ''//'']"

fun strip_inline :: "gostring list \<Rightarrow> gostring \<Rightarrow> gostring" where
  "strip_inline [] line = line"
| "strip_inline (sep # seps) line =
     (case index_of line sep of
        Some i \<Rightarrow> trim_space (take i line)
      | None \<Rightarrow> strip_inline seps line)"

text \<open>A line without any marker is left alone.\<close>

lemma strip_inline_plain:
  "\<forall>sep\<in>set seps. \<not> sublist sep line \<Longrightarrow> strip_inline seps line = line"
  by (induction seps) (auto simp flip: index_of_None)

lemma trimmed_strip_inline: "trimmed line \<Longrightarrow> trimmed (strip_inline seps line)"
  by (induction seps) (auto simp: trimmed_trim_space split: option.splits)

text \<open>
  The entry of a line with one comment marker, when no marker occurs before it: the text in front,
  trimmed.
\<close>

lemma index_of_append:
  assumes "\<not> sublist sep (body @ butlast sep)" "sep \<noteq> []"
  shows "index_of (body @ sep @ rest) sep = Some (length body)"
  using assms
proof (induction body)
  case Nil
  then show ?case by (cases sep) (auto simp: prefix_def)
next
  case (Cons c body)
  have "\<not> prefix sep ((c # body) @ sep @ rest)"
  proof
    assume p: "prefix sep ((c # body) @ sep @ rest)"
    have "length sep \<le> length ((c # body) @ butlast sep)" by simp
    moreover have "(c # body) @ sep @ rest = ((c # body) @ butlast sep) @ (last sep # rest)"
      using Cons.prems(2) by simp
    ultimately have "prefix sep ((c # body) @ butlast sep)"
      using p by (metis prefix_append prefix_length_prefix prefixI)
    then show False using Cons.prems(1) by (simp add: prefix_imp_sublist)
  qed
  moreover have "\<not> sublist sep (body @ butlast sep)"
    using Cons.prems(1) by (simp add: sublist_Cons_right)
  ultimately show ?case using Cons.IH Cons.prems(2) by simp
qed

end
