(* ===== verification/ChinaLoader.thy ===== *)
theory ChinaLoader
  imports China AssetLines
begin

text \<open>
  \<^verbatim>\<open>internal/china/loader.go\<close>: one line of a prefix file, one file, a list of files. Opening a
  path is a parameter (\<open>fs\<close>); the scanner's buffer limit of one mebibyte is the code's.
\<close>

datatype load_error =
    OpenError gostring
  | BadPrefixAt gostring nat gostring
  | FileScanError gostring scan_error
  | NoPrefixes gostring

section \<open>Operations\<close>

text \<open>\<^verbatim>\<open>Inl\<close> is the error with the offending text, \<^verbatim>\<open>Inr None\<close> a line to skip (\<^verbatim>\<open>ok = false\<close>).\<close>

definition ParsePrefixLine :: "gostring \<Rightarrow> gostring + net_prefix option" where
  "ParsePrefixLine raw =
     (let line = trim_space raw
      in if is_comment_line line then Inr None
         else let line = strip_inline comment_seps line
              in if line = [] then Inr None
                 else case parse_prefix line of
                        None \<Rightarrow> Inl line
                      | Some p \<Rightarrow> Inr (Some (masked p)))"

fun scan_prefixes :: "gostring list \<Rightarrow> nat \<Rightarrow> net_prefix list \<Rightarrow> (nat \<times> gostring) + net_prefix list" where
  "scan_prefixes [] line dst = Inr dst"
| "scan_prefixes (l # ls) line dst =
     (case ParsePrefixLine l of
        Inl bad \<Rightarrow> Inl (Suc line, bad)
      | Inr None \<Rightarrow> scan_prefixes ls (Suc line) dst
      | Inr (Some p) \<Rightarrow> scan_prefixes ls (Suc line) (dst @ [p]))"

definition max_prefix_line :: nat where
  "max_prefix_line = 1024 * 1024"

definition loadFile ::
  "(gostring \<Rightarrow> reader option) \<Rightarrow> gostring \<Rightarrow> net_prefix list \<Rightarrow> load_error + net_prefix list \<times> nat" where
  "loadFile fs path dst =
     (case fs path of
        None \<Rightarrow> Inl (OpenError path)
      | Some f \<Rightarrow>
          (case scan_lines max_prefix_line f of (ls, scerr) \<Rightarrow>
             (case scan_prefixes ls 0 dst of
                Inl (n, bad) \<Rightarrow> Inl (BadPrefixAt path n bad)
              | Inr dst' \<Rightarrow>
                  (case scerr of
                     Some e \<Rightarrow> Inl (FileScanError path e)
                   | None \<Rightarrow> Inr (dst', length dst' - length dst)))))"

fun load_loop :: "(gostring \<Rightarrow> reader option) \<Rightarrow> gostring list \<Rightarrow> net_prefix list \<Rightarrow> load_error + Index" where
  "load_loop fs [] all = Inr (Build all)"
| "load_loop fs (path # ps) all =
     (case loadFile fs path all of
        Inl e \<Rightarrow> Inl e
      | Inr (all', n) \<Rightarrow> (if n = 0 then Inl (NoPrefixes path) else load_loop fs ps all'))"

definition China_Load :: "(gostring \<Rightarrow> reader option) \<Rightarrow> gostring list \<Rightarrow> load_error + Index" where
  "China_Load fs paths = load_loop fs paths []"

definition China_LoadFrom :: "reader \<Rightarrow> (nat \<times> gostring) + scan_error + Index" where
  "China_LoadFrom r =
     (case scan_lines max_prefix_line r of (ls, scerr) \<Rightarrow>
        (case scan_prefixes ls 0 [] of
           Inl e \<Rightarrow> Inl e
         | Inr all \<Rightarrow> Inr (case scerr of Some e \<Rightarrow> Inl e | None \<Rightarrow> Inr (Build all))))"

section \<open>The syntax of a line\<close>

text \<open>
  An entry line, without reference to the way it is parsed: a prefix in text form between blanks, and possibly a comment that
  begins with a marker after a space or a tab. The line denotes the prefix with its host bits cleared.
\<close>

definition comment_text :: "gostring \<Rightarrow> bool" where
  "comment_text c \<longleftrightarrow> prefix ''#'' c \<or> prefix '';'' c \<or> prefix ''//'' c"

definition entry_line :: "gostring \<Rightarrow> net_prefix \<Rightarrow> bool" where
  "entry_line l p \<longleftrightarrow>
     (\<exists>w1 e w2 c q. l = w1 @ e @ w2 @ c \<and> list_all is_space w1 \<and> list_all is_space w2
        \<and> (c = [] \<or> w2 \<noteq> [] \<and> last w2 \<in> {CHR '' '', tab} \<and> comment_text c)
        \<and> parse_prefix e = Some q \<and> p = masked q)"

text \<open>The text of a prefix has no blank and no comment marker.\<close>

definition addr_char :: "char \<Rightarrow> bool" where
  "addr_char c \<longleftrightarrow> hex_val c \<noteq> None \<or> c = CHR ''.'' \<or> c = CHR '':''"

lemma addr_char_plain: "addr_char c \<Longrightarrow> \<not> is_space c \<and> c \<noteq> CHR ''#'' \<and> c \<noteq> CHR '';'' \<and> c \<noteq> CHR ''/''"
  by (auto simp: addr_char_def hex_val_def is_space_def Let_def split: if_splits)

lemma addr_char_dot: "addr_char CHR ''.''" "addr_char CHR '':''"
  by (simp_all add: addr_char_def)

lemma is_digit_addr_char: "is_digit c \<Longrightarrow> addr_char c"
  by (simp add: addr_char_def hex_val_def is_digit_def Let_def)

lemma parse4_fields_chars: "parse4_fields prev val dl fs s = Some r \<Longrightarrow> list_all addr_char s"
  by (induction prev val dl fs s rule: parse4_fields.induct)
    (auto simp: Let_def is_digit_addr_char addr_char_dot split: if_splits)

lemma hex_group_chars: "hex_group off acc s = Some (off', acc', rest) \<Longrightarrow> \<exists>h. s = h @ rest \<and> list_all addr_char h"
proof (induction off acc s rule: hex_group.induct)
  case (2 off acc c cs)
  show ?case
  proof (cases "hex_val c")
    case None
    then show ?thesis using 2(2) by auto
  next
    case (Some d)
    then obtain h where "cs = h @ rest" "list_all addr_char h" using 2 by (auto split: if_splits)
    moreover have "addr_char c" using Some by (simp add: addr_char_def)
    ultimately show ?thesis by (intro exI [of _ "c # h"]) simp
  qed
qed auto

lemma parse6_loop_chars:
  "parse6_loop s ip ell = Some (rest, ip', ell') \<Longrightarrow> \<exists>h. s = h @ rest \<and> list_all addr_char h"
proof (induction "16 - length ip" arbitrary: s ip ell rule: less_induct)
  case less
  note colon = addr_char_dot(2)
  show ?case
  proof (cases "16 \<le> length ip")
    case True
    then show ?thesis using less(2) by (simp add: parse6_loop.simps [of s ip ell])
  next
    case False
    then obtain off acc r where g: "hex_group 0 0 s = Some (off, acc, r)"
      using less(2) by (auto simp: parse6_loop.simps [of s ip ell] split: option.splits)
    from hex_group_chars [OF g] obtain h where h: "s = h @ r" "list_all addr_char h" by blast
    note step = less(2) [unfolded parse6_loop.simps [of s ip ell]]
    show ?thesis
    proof (cases "r \<noteq> [] \<and> hd r = CHR ''.''")
      case True
      then show ?thesis using step False g by (auto split: if_splits option.splits dest: parse4_fields_chars)
    next
      case nodot: False
      show ?thesis
      proof (cases r)
        case Nil
        then show ?thesis using step False g h by (auto simp: Let_def split: if_splits)
      next
        case (Cons c s')
        then have c: "c = CHR '':''" "s' \<noteq> []" using step False g nodot by (auto simp: Let_def split: if_splits)
        define ip1 where "ip1 = ip @ [of_nat (acc div 256), of_nat acc :: u8]"
        have small: "16 - length ip1 < 16 - length ip" using False by (simp add: ip1_def)
        consider "hd s' = CHR '':''" "tl s' = []" "rest = []"
          | "hd s' = CHR '':''" "parse6_loop (tl s') ip1 (Some (length ip1)) = Some (rest, ip', ell')"
          | "hd s' \<noteq> CHR '':''" "parse6_loop s' ip1 ell = Some (rest, ip', ell')"
          using step False g nodot Cons c by (auto simp: Let_def ip1_def split: if_splits)
        then show ?thesis
        proof cases
          case 1
          then have "s = (h @ '':'' @ [hd s']) @ rest" using h(1) Cons c by (cases s') auto
          then show ?thesis using h(2) colon 1(1) by (intro exI [of _ "h @ '':'' @ [hd s']"]) simp
        next
          case 2
          then obtain k where "tl s' = k @ rest" "list_all addr_char k"
            using less(1) [OF small] by blast
          then show ?thesis using h Cons c 2(1) colon by (intro exI [of _ "h @ '':'' @ hd s' # k"]) (cases s'; simp)
        next
          case 3
          then obtain k where "s' = k @ rest" "list_all addr_char k"
            using less(1) [OF small] by blast
          then show ?thesis using h Cons c colon by (intro exI [of _ "h @ '':'' @ k"]) simp
        qed
      qed
    qed
  qed
qed

lemma parse_addr_chars:
  assumes "parse_addr s = Some a" "addr_zone a = []"
  shows "list_all addr_char s \<and> s \<noteq> []"
proof -
  have v6: "list_all addr_char s" if h: "parse_ipv6 s = Some a"
  proof -
    obtain t zone where t: "split_zone s = Some (t, zone)" using h by (auto simp: parse_ipv6_def split: option.splits)
    have "addr_zone a = zone" using h t by (auto simp: parse_ipv6_def Let_def split: if_splits option.splits)
    then have "t = s" using t assms(2) by (auto simp: split_zone_def split: option.splits if_splits)
    have "list_all addr_char (if prefix ''::'' s then drop 2 s else s)"
      using h t \<open>t = s\<close> parse6_loop_chars
      by (fastforce simp: parse_ipv6_def Let_def split: if_splits option.splits)
    moreover have "s = ''::'' @ drop 2 s" if "prefix ''::'' s" using that by (auto simp: prefix_def)
    ultimately show ?thesis using addr_char_dot(2) by (cases "prefix ''::'' s") (auto simp: list_all_iff prefix_def)
  qed
  have "parse_ipv4 s = Some a \<or> parse_ipv6 s = Some a" if "parse_addr_scan s cs = Some a" for cs
    using that by (induction cs) (auto split: if_splits)
  then have "parse_ipv4 s = Some a \<or> parse_ipv6 s = Some a" using assms(1) by (simp add: parse_addr_def)
  moreover have "s \<noteq> []" using assms(1) by (auto simp: parse_addr_def)
  ultimately show ?thesis using v6 by (auto simp: parse_ipv4_def dest: parse4_fields_chars)
qed

lemma split_last_Some: "split_last c s = Some (a, b) \<Longrightarrow> s = a @ c # b"
proof -
  assume h: "split_last c s = Some (a, b)"
  let ?P = "\<lambda>x. x \<noteq> c"
  have c: "c \<in> set s" and ab: "a = rev (tl (dropWhile ?P (rev s)))" "b = rev (takeWhile ?P (rev s))"
    using h by (auto simp: split_last_def split: if_splits)
  have "dropWhile ?P (rev s) \<noteq> []" using c by (simp add: dropWhile_eq_Nil_conv)
  then have d: "dropWhile ?P (rev s) = c # tl (dropWhile ?P (rev s))" using hd_dropWhile [of ?P "rev s"] by (cases "dropWhile ?P (rev s)") auto
  have "rev s = takeWhile ?P (rev s) @ dropWhile ?P (rev s)" by simp
  then have "rev s = rev b @ c # rev a" using d ab by simp
  then show ?thesis by (metis append_Cons append_assoc append_Nil rev_append rev_rev_ident rev.simps(2))
qed

lemma parse_prefix_chars:
  assumes "parse_prefix e = Some q"
  shows "list_all (\<lambda>c. \<not> is_space c) e" "e \<noteq> []" "hd e \<notin> {CHR ''#'', CHR '';'', CHR ''/''}"
proof -
  obtain a bs ip where e: "split_last CHR ''/'' e = Some (a, bs)" "parse_addr a = Some ip" "is6 ip \<longrightarrow> addr_zone ip = []" "list_all is_digit bs"
    using assms by (auto simp: parse_prefix_def atoi_def split: option.splits if_splits prod.splits)
  have "addr_zone ip = []" using e(3) by (cases ip) auto
  then have a: "list_all addr_char a" "a \<noteq> []" using parse_addr_chars [OF e(2)] by auto
  have split: "e = a @ CHR ''/'' # bs" using e(1) split_last_Some by blast
  show "e \<noteq> []" by (simp add: split)
  have "\<not> is_space CHR ''/''" by (simp add: is_space_def)
  moreover have "list_all (\<lambda>c. \<not> is_space c) a" "list_all (\<lambda>c. \<not> is_space c) bs"
    using a(1) e(4) addr_char_plain is_digit_addr_char by (auto simp: list_all_iff)
  ultimately show "list_all (\<lambda>c. \<not> is_space c) e" by (simp add: split)
  have "addr_char (hd a)" using a by (cases a) auto
  then show "hd e \<notin> {CHR ''#'', CHR '';'', CHR ''/''}" using a(2) addr_char_plain [of "hd a"] by (auto simp: split)
qed

lemma takeWhile_all_space: "list_all is_space (takeWhile is_space s)"
  by (auto simp: list_all_iff dest: set_takeWhileD)

lemma trim_space_split: "\<exists>w1 w2. s = w1 @ trim_space s @ w2 \<and> list_all is_space w1 \<and> list_all is_space w2"
proof -
  define t where "t = dropWhile is_space s"
  define w where "w = rev (takeWhile is_space (rev t))"
  have "trim_right t @ w = rev (takeWhile is_space (rev t) @ dropWhile is_space (rev t))"
    by (simp only: rev_append trim_right_def w_def)
  then have t: "trim_right t @ w = t" by (simp only: takeWhile_dropWhile_id rev_rev_ident)
  have "takeWhile is_space s @ t = s" unfolding t_def by (rule takeWhile_dropWhile_id)
  then have "s = takeWhile is_space s @ trim_right t @ w" unfolding t by (rule sym)
  moreover have "list_all is_space w" unfolding w_def list_all_rev by (rule takeWhile_all_space)
  ultimately show ?thesis using takeWhile_all_space [of s] unfolding trim_space_def trim_left_def t_def by blast
qed

lemma strip_inline_disj:
  "strip_inline seps t = t \<and> (\<forall>sep\<in>set seps. \<not> sublist sep t)
   \<or> (\<exists>sep\<in>set seps. \<exists>i. index_of t sep = Some i \<and> strip_inline seps t = trim_space (take i t))"
proof (induction seps)
  case (Cons sep seps)
  show ?case
  proof (cases "index_of t sep")
    case None
    then have "\<not> sublist sep t" by (simp add: index_of_None)
    with None Cons show ?thesis by auto
  qed auto
qed simp

lemma strip_inline_cases:
  obtains "strip_inline seps t = t" "\<forall>sep\<in>set seps. \<not> sublist sep t"
    | sep i where "sep \<in> set seps" "index_of t sep = Some i" "strip_inline seps t = trim_space (take i t)"
  using strip_inline_disj [of seps t] by blast

lemma comment_sep: "sep \<in> set comment_seps \<longleftrightarrow> (\<exists>b m. sep = b # m \<and> b \<in> {CHR '' '', tab} \<and> m \<in> {''#'', '';'', ''//''})"
  by (auto simp: comment_seps_def)

lemma blank_space: "b \<in> {CHR '' '', tab} \<Longrightarrow> is_space b"
  by (auto simp: is_space_def tab_def)

lemma ParsePrefixLine_entry:
  assumes "ParsePrefixLine l = Inr (Some p)"
  shows "entry_line l p"
proof -
  define t where "t = trim_space l"
  obtain w1 w2 where l: "l = w1 @ t @ w2" "list_all is_space w1" "list_all is_space w2" using trim_space_split [of l] unfolding t_def by blast
  define e where "e = strip_inline comment_seps t"
  obtain q where q: "parse_prefix e = Some q" "p = masked q"
    using assms by (auto simp: ParsePrefixLine_def t_def e_def Let_def split: if_splits option.splits)
  show ?thesis
  proof (cases rule: strip_inline_cases [of comment_seps t])
    case 1
    then have "l = w1 @ e @ w2 @ []" using l(1) by (simp add: e_def)
    then show ?thesis unfolding entry_line_def using l(2,3) q by blast
  next
    case (2 sep i)
    obtain b m where bm: "sep = b # m" "b \<in> {CHR '' '', tab}" "m \<in> {''#'', '';'', ''//''}" using 2(1) by (auto simp: comment_sep)
    obtain rest where rest: "drop i t = sep @ rest" using index_of_Some [OF 2(2)] by (auto simp: prefix_def)
    obtain w3 w4 where w: "take i t = w3 @ e @ w4" "list_all is_space w3" "list_all is_space w4"
      using trim_space_split [of "take i t"] 2(3) by (auto simp: e_def)
    have "t = take i t @ drop i t" by simp
    then have "l = (w1 @ w3) @ e @ (w4 @ [b]) @ (m @ rest @ w2)" using l(1) w(1) rest bm(1) by (metis append_Cons append_Nil append_assoc)
    moreover have "comment_text (m @ rest @ w2)" using bm(3) by (auto simp: comment_text_def)
    moreover have "list_all is_space (w1 @ w3)" "list_all is_space (w4 @ [b])" "last (w4 @ [b]) \<in> {CHR '' '', tab}" "w4 @ [b] \<noteq> []"
      using l(2) w(2,3) bm(2) blank_space by auto
    ultimately show ?thesis unfolding entry_line_def using q by blast
  qed
qed

lemma trim_right_keep:
  assumes "e \<noteq> []" "list_all (\<lambda>c. \<not> is_space c) e"
  shows "trim_right (w @ e @ r) = w @ e @ trim_right r"
proof -
  have keep: "dropWhile is_space (rev e @ rev w) = rev e @ rev w" using assms by (cases e rule: rev_cases) auto
  have "dropWhile is_space (rev r @ rev e @ rev w) = dropWhile is_space (rev r) @ rev e @ rev w"
  proof (cases "\<forall>x\<in>set (rev r). is_space x")
    case True
    then have "dropWhile is_space (rev r) = []" by (simp only: dropWhile_eq_Nil_conv)
    with True show ?thesis using dropWhile_append2 [of "rev r" is_space "rev e @ rev w"] keep by simp
  qed (auto simp: dropWhile_append1)
  then show ?thesis by (simp add: trim_right_def)
qed

lemma trim_space_entry:
  assumes "list_all is_space w" "e \<noteq> []" "list_all (\<lambda>c. \<not> is_space c) e"
  shows "trim_space (w @ e @ r) = e @ trim_right r"
proof -
  have "dropWhile is_space (w @ e @ r) = e @ r" using assms by (cases e) (auto simp: list_all_iff dropWhile_append2)
  then show ?thesis using trim_right_keep [OF assms(2,3), of "[]" r] by (simp add: trim_space_def trim_left_def)
qed

lemma trim_right_prefix: "prefix (trim_right r) r"
proof -
  have "rev (takeWhile is_space (rev r) @ dropWhile is_space (rev r)) = r" by simp
  then have "r = trim_right r @ rev (takeWhile is_space (rev r))" by (simp only: rev_append trim_right_def)
  then show ?thesis by (rule prefixI)
qed

lemma ParsePrefixLine_of_entry:
  assumes "entry_line l p" "\<not> isl (ParsePrefixLine l)"
  shows "ParsePrefixLine l = Inr (Some p)"
proof -
  obtain w1 e w2 c q where l: "l = w1 @ e @ w2 @ c" "list_all is_space w1" "list_all is_space w2"
    "c = [] \<or> w2 \<noteq> [] \<and> last w2 \<in> {CHR '' '', tab} \<and> comment_text c" "parse_prefix e = Some q" "p = masked q"
    using assms(1) unfolding entry_line_def by blast
  note ch = parse_prefix_chars [OF l(5)]
  define r where "r = trim_right (w2 @ c)"
  have t: "trim_space l = e @ r" unfolding l(1) r_def by (rule trim_space_entry [OF l(2) ch(2,1)])
  have nc: "\<not> is_comment_line (e @ r)" using ch(2,3) by (cases e) (auto simp: is_comment_line_def has_prefix_def)
  have strip: "strip_inline comment_seps (e @ r) = e"
  proof (cases rule: strip_inline_cases [of comment_seps "e @ r"])
    case 1
    have "c = []"
    proof (rule ccontr)
      assume "c \<noteq> []"
      then have w: "w2 \<noteq> []" "last w2 \<in> {CHR '' '', tab}" "comment_text c" using l(4) by auto
      then obtain m c2 where m: "c = m @ c2" "m \<in> {''#'', '';'', ''//''}" unfolding comment_text_def prefix_def by blast
      then have "m \<noteq> []" "list_all (\<lambda>c. \<not> is_space c) m" by (auto simp: is_space_def)
      then have "r = w2 @ m @ trim_right c2" unfolding r_def m(1) by (rule trim_right_keep)
      then have "e @ r = (e @ butlast w2) @ (last w2 # m) @ trim_right c2" using append_butlast_last_id [OF w(1)] by simp
      then have "sublist (last w2 # m) (e @ r)" unfolding sublist_def by blast
      moreover have "last w2 # m \<in> set comment_seps" using w(2) m(2) by (auto simp: comment_sep)
      ultimately show False using 1(2) by blast
    qed
    then have "dropWhile is_space (rev (w2 @ c)) = []" using l(3) by (simp add: dropWhile_eq_Nil_conv list_all_iff)
    then have "r = []" by (simp add: r_def trim_right_def)
    then show ?thesis using 1(1) by simp
  next
    case (2 sep i)
    obtain b m where bm: "sep = b # m" "b \<in> {CHR '' '', tab}" using 2(1) by (auto simp: comment_sep)
    have p: "prefix sep (drop i (e @ r))" "i \<le> length (e @ r)" using index_of_Some [OF 2(2)] by auto
    have "length e \<le> i"
    proof (rule ccontr)
      assume "\<not> length e \<le> i"
      then have "hd (drop i (e @ r)) = e ! i" "drop i (e @ r) \<noteq> []" by (auto simp: hd_drop_conv_nth nth_append)
      moreover have "hd (drop i (e @ r)) = b" using p(1) bm(1) by (auto simp: prefix_def)
      ultimately have "is_space (e ! i)" using blank_space [OF bm(2)] by simp
      then show False using ch(1) \<open>\<not> length e \<le> i\<close> unfolding list_all_length by force
    qed
    then obtain x where x: "take i (e @ r) = e @ x" "prefix x r" by (simp add: take_is_prefix)
    have s: "strip_inline comment_seps (e @ r) = e @ trim_right x" using trim_space_entry [of "[]" e x] ch x(1) 2(3) by simp
    have "trim_right x = []"
    proof (rule ccontr)
      assume ne: "trim_right x \<noteq> []"
      have "ParsePrefixLine l = (case parse_prefix (e @ trim_right x) of None \<Rightarrow> Inl (e @ trim_right x) | Some p \<Rightarrow> Inr (Some (masked p)))"
        using nc s ch(2) by (simp add: ParsePrefixLine_def t Let_def)
      then obtain q' where "parse_prefix (e @ trim_right x) = Some q'" using assms(2) by (auto split: option.splits)
      from parse_prefix_chars(1) [OF this] have "\<not> is_space (hd (trim_right x))" using ne by (cases "trim_right x") auto
      moreover have "prefix (trim_right x) (w2 @ c)" using trim_right_prefix x(2) prefix_order.trans unfolding r_def by metis
      then have hd: "hd (trim_right x) = hd (w2 @ c)" "w2 @ c \<noteq> []" using ne by (auto simp: prefix_def)
      moreover have "is_space (hd (w2 @ c))" using hd(2) l(3,4) by (cases w2) auto
      ultimately show False by simp
    qed
    then show ?thesis using s by simp
  qed
  show ?thesis using nc strip ch(2) l(5,6) by (simp add: ParsePrefixLine_def t Let_def)
qed

section \<open>What a file contributes\<close>

text \<open>The prefixes of the lines of a file in order, when every line is an entry or is skipped.\<close>

definition line_prefix :: "gostring \<Rightarrow> net_prefix option" where
  "line_prefix l = (case ParsePrefixLine l of Inr (Some p) \<Rightarrow> Some p | _ \<Rightarrow> None)"

definition line_ok :: "gostring \<Rightarrow> bool" where
  "line_ok l \<longleftrightarrow> \<not> isl (ParsePrefixLine l)"

lemma ParsePrefixLine_valid: "ParsePrefixLine l = Inr (Some p) \<Longrightarrow> valid_prefix p"
  by (auto simp: ParsePrefixLine_def Let_def split: if_splits option.splits
      intro!: valid_prefix_masked dest: parse_prefix_valid)

lemma scan_prefixes_Inr:
  "scan_prefixes ls n dst = Inr out \<longleftrightarrow>
     list_all line_ok ls \<and> out = dst @ List.map_filter line_prefix ls"
proof (induction ls n dst rule: scan_prefixes.induct)
  case (1 line dst)
  then show ?case by (auto simp: map_filter_def)
next
  case (2 l ls line dst)
  then show ?case
    by (auto simp: map_filter_def line_ok_def line_prefix_def split: sum.splits option.splits)
qed

lemma scan_prefixes_ok:
  "list_all line_ok ls \<Longrightarrow> scan_prefixes ls n dst = Inr (dst @ List.map_filter line_prefix ls)"
  by (simp add: scan_prefixes_Inr)

lemma scan_prefixes_Cons_ok:
  "line_ok l \<Longrightarrow> scan_prefixes (l # ls) n dst =
     scan_prefixes ls (Suc n) (dst @ (case line_prefix l of None \<Rightarrow> [] | Some p \<Rightarrow> [p]))"
  by (auto simp: line_ok_def line_prefix_def split: sum.splits option.splits)

lemma scan_prefixes_append:
  "list_all line_ok xs \<Longrightarrow> scan_prefixes (xs @ ys) n dst =
     scan_prefixes ys (n + length xs) (dst @ List.map_filter line_prefix xs)"
  by (induction xs arbitrary: n dst)
    (simp_all add: scan_prefixes_Cons_ok List.map_filter_simps split: option.splits del: scan_prefixes.simps(2))

lemma scan_prefixes_Inl:
  "scan_prefixes ls n dst = Inl (m, bad) \<Longrightarrow>
     \<exists>i < length ls. m = n + Suc i \<and> ParsePrefixLine (ls ! i) = Inl bad \<and> list_all line_ok (take i ls)"
proof (induction ls n dst rule: scan_prefixes.induct)
  case (1 line dst)
  then show ?case by simp
next
  case (2 l ls line dst)
  show ?case
  proof (cases "ParsePrefixLine l")
    case (Inl b)
    with 2 show ?thesis by (intro exI [of _ 0]) auto
  next
    case (Inr r)
    with 2 obtain i where "i < length ls" "m = Suc line + Suc i"
        "ParsePrefixLine (ls ! i) = Inl bad" "list_all line_ok (take i ls)"
      by (cases r) auto
    moreover have "line_ok l" using Inr by (simp add: line_ok_def)
    ultimately show ?thesis by (intro exI [of _ "Suc i"]) auto
  qed
qed

definition file_prefixes :: "(gostring \<Rightarrow> reader option) \<Rightarrow> gostring \<Rightarrow> net_prefix list" where
  "file_prefixes fs path =
     (case fs path of None \<Rightarrow> []
      | Some f \<Rightarrow> List.map_filter line_prefix (fst (scan_lines max_prefix_line f)))"

definition file_ok :: "(gostring \<Rightarrow> reader option) \<Rightarrow> gostring \<Rightarrow> bool" where
  "file_ok fs path \<longleftrightarrow>
     (case fs path of None \<Rightarrow> False
      | Some f \<Rightarrow> list_all line_ok (fst (scan_lines max_prefix_line f))
                \<and> snd (scan_lines max_prefix_line f) = None)
     \<and> file_prefixes fs path \<noteq> []"

lemma loadFile_Inr:
  "loadFile fs path dst = Inr (dst', n) \<longleftrightarrow>
     (\<exists>f. fs path = Some f \<and> list_all line_ok (fst (scan_lines max_prefix_line f))
        \<and> snd (scan_lines max_prefix_line f) = None)
     \<and> dst' = dst @ file_prefixes fs path \<and> n = length (file_prefixes fs path)"
  by (cases "fs path")
    (auto simp: loadFile_def file_prefixes_def scan_prefixes_Inr scan_prefixes_ok
      split: prod.splits sum.splits option.splits)

lemma load_loop_Inr:
  "load_loop fs paths all = Inr ix \<longleftrightarrow>
     list_all (file_ok fs) paths \<and> ix = Build (all @ concat (map (file_prefixes fs) paths))"
proof (induction paths arbitrary: all)
  case Nil
  then show ?case by auto
next
  case (Cons path paths)
  show ?case
  proof (cases "loadFile fs path all")
    case (Inl e)
    then have "\<not> file_ok fs path"
      using loadFile_Inr [of fs path all "all @ file_prefixes fs path" "length (file_prefixes fs path)"]
      by (auto simp: file_ok_def split: option.splits)
    with Inl show ?thesis by simp
  next
    case (Inr r)
    obtain all' n where r: "r = (all', n)" by (cases r)
    from Inr have *: "loadFile fs path all = Inr (all', n)" by (simp add: r)
    show ?thesis
      using * Cons [of all'] loadFile_Inr [of fs path all all' n]
      by (auto simp: file_ok_def split: option.splits)
  qed
qed

lemma China_Load_Inr:
  "China_Load fs paths = Inr ix \<longleftrightarrow>
     list_all (file_ok fs) paths \<and> ix = Build (concat (map (file_prefixes fs) paths))"
  by (simp add: China_Load_def load_loop_Inr)

lemma file_prefixes_valid: "p \<in> set (file_prefixes fs path) \<Longrightarrow> valid_prefix p"
  by (auto simp: file_prefixes_def line_prefix_def map_filter_def
      split: option.splits sum.splits dest: ParsePrefixLine_valid)

text \<open>The lines of a file, and the prefixes of a file that loads as the entries among them.\<close>

definition file_lines :: "(gostring \<Rightarrow> reader option) \<Rightarrow> gostring \<Rightarrow> gostring list" where
  "file_lines fs path = (case fs path of None \<Rightarrow> [] | Some f \<Rightarrow> fst (scan_lines max_prefix_line f))"

lemma line_prefix_entry: "line_ok l \<Longrightarrow> line_prefix l = Some p \<longleftrightarrow> entry_line l p"
  using ParsePrefixLine_entry [of l p] ParsePrefixLine_of_entry [of l p]
  by (auto simp: line_ok_def line_prefix_def split: sum.splits option.splits)

lemma file_prefixes_entries:
  assumes "file_ok fs path"
  shows "p \<in> set (file_prefixes fs path) \<longleftrightarrow> (\<exists>l\<in>set (file_lines fs path). entry_line l p)"
proof -
  obtain f where f: "fs path = Some f" "list_all line_ok (fst (scan_lines max_prefix_line f))"
    using assms by (auto simp: file_ok_def split: option.splits)
  then show ?thesis
    by (auto simp: file_prefixes_def file_lines_def map_filter_def list_all_iff line_prefix_entry image_iff)
       (metis line_prefix_entry option.sel)+
qed

section \<open>Properties\<close>

text \<open>
  C12. Loading prefix files either fails or yields an index that answers exactly by the files:
  an address is in the index if and only if some line of some file is an entry, a prefix in text form
  between blanks and possibly before a comment, and the prefix contains the (unmapped) address. Excluded are zoned addresses and
  files with an IPv6 prefix whose last address is IPv4-mapped, which \<^verbatim>\<open>lastAddr\<close> turns into an IPv4 address.
\<close>

theorem China_Load_classifies:
  assumes "China_Load fs paths = Inr ix"
    and "\<forall>path\<in>set paths. \<forall>l\<in>set (file_lines fs path). \<forall>p. entry_line l p \<longrightarrow> \<not> mapped_top p"
    and "addr_zone ip = []"
  shows "Contains ix ip \<longleftrightarrow>
    (\<exists>path\<in>set paths. \<exists>l\<in>set (file_lines fs path). \<exists>p. entry_line l p \<and> in_prefix p (unmap ip))"
proof -
  let ?ps = "concat (map (file_prefixes fs) paths)"
  have ix: "ix = Build ?ps" and ok: "\<And>path. path \<in> set paths \<Longrightarrow> file_ok fs path"
    using assms(1) by (auto simp: China_Load_Inr list_all_iff)
  have ps: "p \<in> set ?ps \<longleftrightarrow> (\<exists>path\<in>set paths. \<exists>l\<in>set (file_lines fs path). entry_line l p)" for p
    using file_prefixes_entries [OF ok] by auto
  have "\<forall>p\<in>set ?ps. searchable p"
  proof
    fix p assume p: "p \<in> set ?ps"
    then have "valid_prefix p" using file_prefixes_valid by auto
    moreover have "\<not> mapped_top p" using p assms(2) unfolding ps by blast
    ultimately show "searchable p" by (simp add: searchable_def)
  qed
  then show ?thesis using Contains_Build [OF _ assms(3), of ?ps] ps unfolding ix by blast
qed

definition sample_fs :: "gostring \<Rightarrow> reader option" where
  "sample_fs path =
     (if path = ''cn.txt''
      then Some \<lparr>rd_data = ''1.0.1.0/24'' @ newline # ''1.0.2.9/23 # x'', rd_failed = False\<rparr> else None)"

lemma plain_line_max:
  "length l < 1024 \<Longrightarrow> newline \<notin> set l \<Longrightarrow> last l \<noteq> carriage_return \<Longrightarrow> plain_line max_prefix_line l"
  by (simp add: plain_line_def max_prefix_line_def)

lemma sample_scan:
  "fs path = Some \<lparr>rd_data = ''1.0.1.0/24'' @ newline # ''1.0.2.9/23 # x'', rd_failed = False\<rparr> \<Longrightarrow>
   \<exists>f. fs path = Some f \<and> scan_lines max_prefix_line f = ([''1.0.1.0/24'', ''1.0.2.9/23 # x''], None)"
proof -
  have "plain_line max_prefix_line ''1.0.1.0/24''" "plain_line max_prefix_line ''1.0.2.9/23 # x''"
    by (rule plain_line_max; simp add: newline_def carriage_return_def)+
  from scan_lines_two [OF this] show ?thesis
    if "fs path = Some \<lparr>rd_data = ''1.0.1.0/24'' @ newline # ''1.0.2.9/23 # x'', rd_failed = False\<rparr>"
    using that by blast
qed

lemma sample_prefixes: "file_prefixes sample_fs ''cn.txt'' =
    [\<lparr>p_addr = Addr4 0x01000100, p_bits = 24\<rparr>, \<lparr>p_addr = Addr4 0x01000200, p_bits = 23\<rparr>]"
  and sample_file_ok: "file_ok sample_fs ''cn.txt''"
proof -
  obtain f where f: "sample_fs ''cn.txt'' = Some f"
      "scan_lines max_prefix_line f = ([''1.0.1.0/24'', ''1.0.2.9/23 # x''], None)"
    using sample_scan [of sample_fs "''cn.txt''"] by (auto simp: sample_fs_def)
  have "line_prefix ''1.0.1.0/24'' = Some \<lparr>p_addr = Addr4 0x01000100, p_bits = 24\<rparr>"
    and "line_prefix ''1.0.2.9/23 # x'' = Some \<lparr>p_addr = Addr4 0x01000200, p_bits = 23\<rparr>"
    and ok: "line_ok ''1.0.1.0/24''" "line_ok ''1.0.2.9/23 # x''"
    by code_simp+
  then show ps: "file_prefixes sample_fs ''cn.txt'' =
      [\<lparr>p_addr = Addr4 0x01000100, p_bits = 24\<rparr>, \<lparr>p_addr = Addr4 0x01000200, p_bits = 23\<rparr>]"
    by (simp add: file_prefixes_def f List.map_filter_simps)
  show "file_ok sample_fs ''cn.txt''" by (simp add: file_ok_def f ps ok)
qed

theorem China_Load_classifies_witness:
  "\<exists>ix. China_Load sample_fs [''cn.txt''] = Inr ix \<and> Contains ix (Addr4 0x01000307)
     \<and> \<not> Contains ix (Addr4 0x08080808)"
proof -
  define ix where "ix = Build (file_prefixes sample_fs ''cn.txt'')"
  have l: "China_Load sample_fs [''cn.txt''] = Inr ix"
    using sample_file_ok by (simp add: China_Load_Inr ix_def)
  have e: "(\<exists>l\<in>set (file_lines sample_fs ''cn.txt''). entry_line l p) \<longleftrightarrow> p \<in> set (file_prefixes sample_fs ''cn.txt'')" for p
    by (rule file_prefixes_entries [OF sample_file_ok, symmetric])
  have "\<not> mapped_top p" if "p \<in> set (file_prefixes sample_fs ''cn.txt'')" for p
    using that by (auto simp: sample_prefixes mapped_top_def)
  then have t: "\<forall>path\<in>set [''cn.txt'']. \<forall>l\<in>set (file_lines sample_fs path). \<forall>p. entry_line l p \<longrightarrow> \<not> mapped_top p"
    using e by auto
  have c: "Contains ix ip \<longleftrightarrow> (\<exists>p\<in>set (file_prefixes sample_fs ''cn.txt''). in_prefix p (unmap ip))" if "addr_zone ip = []" for ip
    using China_Load_classifies [OF l t that] e [symmetric] by auto
  have "Contains ix (Addr4 0x01000307)"
    by (subst c) (simp_all add: sample_prefixes in_prefix_def unmap_def is4in6_def drop_bit_eq_div)
  moreover have "\<not> Contains ix (Addr4 0x08080808)"
    by (subst c) (simp_all add: sample_prefixes in_prefix_def unmap_def is4in6_def drop_bit_eq_div)
  ultimately show ?thesis using l by blast
qed

text \<open>
  Loading is all or nothing: it succeeds exactly when every file opens, fits the scanner,
  contains only entries, comments and blank lines and has at least one entry; the index then holds
  the entries of all files in order, each of them a masked prefix of in-range length.
\<close>

theorem China_Load_all_or_nothing:
  "China_Load fs paths = Inr ix \<longleftrightarrow>
     list_all (file_ok fs) paths
     \<and> ix = Build (concat (map (file_prefixes fs) paths))
     \<and> list_all valid_prefix (concat (map (file_prefixes fs) paths))"
  by (auto simp: China_Load_Inr list_all_iff dest: file_prefixes_valid)

text \<open>
  A line that does not parse aborts the load of its file with the number of the first bad
  line, whatever was read before it.
\<close>

theorem loadFile_reports_first_bad_line:
  assumes "fs path = Some f" "fst (scan_lines max_prefix_line f) = ls"
    and "i < length ls" "list_all line_ok (take i ls)" "ParsePrefixLine (ls ! i) = Inl bad"
  shows "loadFile fs path dst = Inl (BadPrefixAt path (Suc i) bad)"
proof -
  have ls: "ls = take i ls @ ls ! i # drop (Suc i) ls" using assms(3) by (rule id_take_nth_drop)
  from scan_prefixes_append [OF assms(4), of "ls ! i # drop (Suc i) ls" 0 dst]
  have "scan_prefixes ls 0 dst = Inl (Suc i, bad)" using assms(3,5) ls by simp
  with assms(1,2) show ?thesis by (auto simp: loadFile_def split: prod.splits)
qed

text \<open>
  The inline comment loop searches the markers in a fixed order. An entry with a semicolon
  comment that contains a hash sign after a blank is therefore rejected, although each of the two
  comment styles alone is accepted.
\<close>

theorem ParsePrefixLine_mixed_comments:
  "ParsePrefixLine ''1.0.1.0/24 ; seen #2'' = Inl ''1.0.1.0/24 ; seen''
   \<and> ParsePrefixLine ''1.0.1.0/24 ; seen'' = Inr (Some \<lparr>p_addr = Addr4 0x01000100, p_bits = 24\<rparr>)
   \<and> ParsePrefixLine ''1.0.1.0/24 #2'' = Inr (Some \<lparr>p_addr = Addr4 0x01000100, p_bits = 24\<rparr>)"
  by code_simp

end
