(* ===== verification/Dns.thy ===== *)
theory Dns
  imports GoNet
begin

text \<open>
  DNS data as the resolver sees it. The message library (\<^verbatim>\<open>github.com/miekg/dns\<close>) is not part of the
  repository: its public data types appear with the fields the resolver reads or writes, and its
  functions are the fields of a record \<^verbatim>\<open>dns_lib\<close>, an argument of every definition that calls
  them. What the code relies on is stated as predicates over that record, in the words of the
  library's documentation.
\<close>

section \<open>Protocol numbers\<close>

definition TypeA :: u16 where [go_consts]: "TypeA = 1"
definition TypeCNAME :: u16 where [go_consts]: "TypeCNAME = 5"
definition TypeSOA :: u16 where [go_consts]: "TypeSOA = 6"
definition TypeAAAA :: u16 where [go_consts]: "TypeAAAA = 28"
definition TypeOPT :: u16 where [go_consts]: "TypeOPT = 41"
definition ClassINET :: u16 where [go_consts]: "ClassINET = 1"
definition OpcodeQuery :: int where [go_consts]: "OpcodeQuery = 0"
definition RcodeSuccess :: int where [go_consts]: "RcodeSuccess = 0"
definition RcodeFormatError :: int where [go_consts]: "RcodeFormatError = 1"
definition RcodeServerFailure :: int where [go_consts]: "RcodeServerFailure = 2"
definition RcodeNameError :: int where [go_consts]: "RcodeNameError = 3"
definition RcodeBadVers :: int where [go_consts]: "RcodeBadVers = 16"
definition MinMsgSize :: int where [go_consts]: "MinMsgSize = 512"

section \<open>Records and messages\<close>

record rr_header =
  hdr_name :: gostring
  hdr_rrtype :: u16
  hdr_class :: u16
  hdr_ttl :: u32

record soa_rr =
  soa_hdr :: rr_header
  soa_mname :: gostring
  soa_mbox :: gostring
  soa_serial :: u32
  soa_refresh :: u32
  soa_retry :: u32
  soa_expire :: u32
  soa_minttl :: u32

text \<open>The dynamic types of the interface \<^verbatim>\<open>dns.RR\<close> that the code distinguishes.\<close>

datatype rr =
    RR_A rr_header "u8 list"
  | RR_AAAA rr_header "u8 list"
  | RR_CNAME rr_header gostring
  | RR_SOA soa_rr
  | RR_OPT rr_header
  | RR_Other rr_header "u8 list"

fun rr_hdr :: "rr \<Rightarrow> rr_header" where
  "rr_hdr (RR_A h _) = h"
| "rr_hdr (RR_AAAA h _) = h"
| "rr_hdr (RR_CNAME h _) = h"
| "rr_hdr (RR_SOA s) = soa_hdr s"
| "rr_hdr (RR_OPT h) = h"
| "rr_hdr (RR_Other h _) = h"

record question =
  q_name :: gostring
  q_type :: u16
  q_class :: u16

record msg =
  m_id :: u16
  m_response :: bool
  m_opcode :: int
  m_authoritative :: bool
  m_truncated :: bool
  m_rd :: bool
  m_ra :: bool
  m_ad :: bool
  m_cd :: bool
  m_rcode :: int
  m_compress :: bool
  m_question :: "question list"
  m_answer :: "rr list"
  m_ns :: "rr list"
  m_extra :: "rr list"

text \<open>\<^verbatim>\<open>new(dns.Msg)\<close>: every field has its zero value.\<close>

definition new_msg :: msg where
  "new_msg = \<lparr>m_id = 0, m_response = False, m_opcode = 0, m_authoritative = False, m_truncated = False,
     m_rd = False, m_ra = False, m_ad = False, m_cd = False, m_rcode = 0, m_compress = False,
     m_question = [], m_answer = [], m_ns = [], m_extra = []\<rparr>"

section \<open>The message library as a parameter\<close>

record dns_lib =
  set_reply :: "msg \<Rightarrow> msg \<Rightarrow> msg"
  set_question :: "msg \<Rightarrow> gostring \<Rightarrow> u16 \<Rightarrow> msg"
  set_edns0 :: "msg \<Rightarrow> u16 \<Rightarrow> bool \<Rightarrow> msg"
  is_edns0 :: "msg \<Rightarrow> rr_header option"
  opt_version :: "rr_header \<Rightarrow> u8"
  opt_udp_size :: "rr_header \<Rightarrow> u16"
  msg_truncate :: "msg \<Rightarrow> int \<Rightarrow> msg"
  msg_pack :: "msg \<Rightarrow> u8 list option"
  msg_unpack :: "u8 list \<Rightarrow> msg option"
  rcode_string :: "int \<Rightarrow> gostring"

text \<open>
  \<^verbatim>\<open>SetReply\<close> creates a reply message from a request: it answers the request's identifier and
  first question, with rcode success and without records of its own.
\<close>

definition reply_law :: "dns_lib \<Rightarrow> bool" where
  "reply_law lib \<longleftrightarrow>
     (\<forall>req. let r = set_reply lib new_msg req
            in m_id r = m_id req \<and> m_response r \<and> m_rcode r = RcodeSuccess
               \<and> m_question r = take 1 (m_question req)
               \<and> m_answer r = [] \<and> m_ns r = [] \<and> m_extra r = [] \<and> \<not> m_truncated r)"

text \<open>\<^verbatim>\<open>IsEdns0\<close> looks for an OPT record in the additional section; \<^verbatim>\<open>SetEdns0\<close> appends one of version 0.\<close>

definition edns_law :: "dns_lib \<Rightarrow> bool" where
  "edns_law lib \<longleftrightarrow>
     (\<forall>m. (\<forall>r\<in>set (m_extra m). \<forall>h. r \<noteq> RR_OPT h) \<longrightarrow> is_edns0 lib m = None)
     \<and> (\<forall>m sz do. is_edns0 lib m = None \<longrightarrow>
          (\<exists>h. set_edns0 lib m sz do = m\<lparr>m_extra := m_extra m @ [RR_OPT h]\<rparr>
             \<and> is_edns0 lib (set_edns0 lib m sz do) = Some h
             \<and> opt_udp_size lib h = sz \<and> opt_version lib h = 0))"

text \<open>\<^verbatim>\<open>SetQuestion\<close> makes a message with one question of class INET and nothing else.\<close>

definition question_law :: "dns_lib \<Rightarrow> bool" where
  "question_law lib \<longleftrightarrow>
     (\<forall>n t. m_question (set_question lib new_msg n t) = [\<lparr>q_name = n, q_type = t, q_class = ClassINET\<rparr>]
        \<and> m_extra (set_question lib new_msg n t) = [])"

text \<open>A concrete library that obeys the laws; it shows that they are satisfiable.\<close>

definition ref_reply :: "msg \<Rightarrow> msg \<Rightarrow> msg" where
  "ref_reply r req = r\<lparr>m_id := m_id req, m_response := True, m_opcode := m_opcode req,
     m_rd := m_rd req, m_rcode := RcodeSuccess, m_question := take 1 (m_question req)\<rparr>"

fun find_opt :: "rr list \<Rightarrow> rr_header option" where
  "find_opt [] = None"
| "find_opt (RR_OPT h # rs) = Some h"
| "find_opt (_ # rs) = find_opt rs"

definition ref_lib :: dns_lib where
  "ref_lib = \<lparr>
     set_reply = ref_reply,
     set_question = (\<lambda>m n t. m\<lparr>m_question := [\<lparr>q_name = n, q_type = t, q_class = ClassINET\<rparr>]\<rparr>),
     set_edns0 = (\<lambda>m sz do. m\<lparr>m_extra := m_extra m @
        [RR_OPT \<lparr>hdr_name = ''.'', hdr_rrtype = TypeOPT, hdr_class = sz, hdr_ttl = (if do then 0x8000 else 0)\<rparr>]\<rparr>),
     is_edns0 = (\<lambda>m. find_opt (m_extra m)),
     opt_version = (\<lambda>h. ucast (drop_bit 16 (hdr_ttl h))),
     opt_udp_size = hdr_class,
     msg_truncate = (\<lambda>m n. m),
     msg_pack = (\<lambda>m. Some (be_bytes 2 (ucast (m_id m)))),
     msg_unpack = (\<lambda>bs. if length bs = 2 then Some (new_msg\<lparr>m_id := ucast (be_word bs)\<rparr>) else None),
     rcode_string = (\<lambda>n. if n = 2 then ''SERVFAIL'' else if n = 5 then ''REFUSED'' else [])\<rparr>"

lemma find_opt_None: "\<forall>r\<in>set rs. \<forall>h. r \<noteq> RR_OPT h \<Longrightarrow> find_opt rs = None"
  by (induction rs rule: find_opt.induct) auto

lemma find_opt_snoc: "find_opt rs = None \<Longrightarrow> find_opt (rs @ [RR_OPT h]) = Some h"
  by (induction rs rule: find_opt.induct) auto

lemma ref_lib_laws: "reply_law ref_lib" "edns_law ref_lib" "question_law ref_lib"
proof -
  show "reply_law ref_lib" by (simp add: reply_law_def ref_lib_def ref_reply_def new_msg_def Let_def)
  show "edns_law ref_lib"
    by (auto simp: edns_law_def ref_lib_def find_opt_None find_opt_snoc)
  show "question_law ref_lib" by (simp add: question_law_def ref_lib_def new_msg_def)
qed

end
