(* ===== verification/Policy.thy ===== *)
theory Policy
  imports Dns
begin

text \<open>
  Package \<^verbatim>\<open>internal/policy\<close>: which addresses answer a query, given the outcomes of the upstreams.
  The classification of addresses and the override list are arguments, as in the code.
\<close>

section \<open>Data\<close>

datatype State = StateFailure | StateNoData | StateNXDomain | StateAnswer

fun State_String :: "State \<Rightarrow> gostring" where
  "State_String StateFailure = ''failure''"
| "State_String StateNoData = ''nodata''"
| "State_String StateNXDomain = ''nxdomain''"
| "State_String StateAnswer = ''answer''"

record policy_result =
  Server :: addr
  ServerChina :: bool
  res_addrs :: "addr list"
  res_state :: State
  res_soa :: "soa_rr option"
  MinTTL :: u32
  ErrCategory :: gostring

record SelectResult =
  sel_policy :: gostring
  sel_addrs :: "addr list"

definition PolicyOverride :: gostring where
  "PolicyOverride = ''override_non_china_from_non_china_resolvers''"
definition PolicyPreferChina :: gostring where
  "PolicyPreferChina = ''prefer_china_from_china_resolvers''"
definition PolicyAllNonChina :: gostring where
  "PolicyAllNonChina = ''all_non_china_return_only_non_china_resolvers''"
definition PolicyFallbackChina :: gostring where
  "PolicyFallbackChina = ''fallback_china_addresses''"

section \<open>Operations\<close>

fun policy_filter :: "(addr \<Rightarrow> bool) \<Rightarrow> addr list \<Rightarrow> addr list \<Rightarrow> addr list" where
  "policy_filter keep out [] = out"
| "policy_filter keep out (a # as) = policy_filter keep (if keep a then out @ [a] else out) as"

fun dedup_loop :: "addr set \<Rightarrow> addr list \<Rightarrow> addr list \<Rightarrow> addr list" where
  "dedup_loop seen out [] = out"
| "dedup_loop seen out (a # as) =
     (if a \<in> seen then dedup_loop seen out as else dedup_loop (insert a seen) (out @ [a]) as)"

definition dedup :: "addr list \<Rightarrow> addr list" where
  "dedup addrs = dedup_loop {} [] addrs"

text \<open>The loop of \<^verbatim>\<open>Select\<close>; the accumulators are \<^verbatim>\<open>cnIPs\<close>, \<^verbatim>\<open>nonCNIPs\<close> and \<^verbatim>\<open>allIPs\<close>.\<close>

fun gather :: "policy_result list \<Rightarrow> addr list \<Rightarrow> addr list \<Rightarrow> addr list
    \<Rightarrow> addr list \<times> addr list \<times> addr list" where
  "gather [] cn nc al = (cn, nc, al)"
| "gather (r # rs) cn nc al =
     (if res_state r \<noteq> StateAnswer then gather rs cn nc al
      else if ServerChina r then gather rs (cn @ res_addrs r) nc (al @ res_addrs r)
      else gather rs cn (nc @ res_addrs r) (al @ res_addrs r))"

definition Select :: "gostring \<Rightarrow> policy_result list \<Rightarrow> (addr \<Rightarrow> bool) \<Rightarrow> (gostring \<Rightarrow> bool) \<Rightarrow> SelectResult" where
  "Select qname results isChina isOverride =
     (case gather results [] [] [] of (cnIPs, nonCNIPs, allIPs) \<Rightarrow>
        (let cnIPsChina = policy_filter isChina [] cnIPs;
             nonCNIPsNonChina = policy_filter (\<lambda>a. \<not> isChina a) [] nonCNIPs;
             allChina = policy_filter isChina [] allIPs
         in if length cnIPsChina > 0 \<and> length nonCNIPsNonChina > 0 then
              (if isOverride qname
               then \<lparr>sel_policy = PolicyOverride, sel_addrs = dedup nonCNIPsNonChina\<rparr>
               else \<lparr>sel_policy = PolicyPreferChina, sel_addrs = dedup cnIPsChina\<rparr>)
            else if length allChina = 0 then
              (if length nonCNIPs > 0
               then \<lparr>sel_policy = PolicyAllNonChina, sel_addrs = dedup nonCNIPs\<rparr>
               else \<lparr>sel_policy = PolicyAllNonChina, sel_addrs = dedup allIPs\<rparr>)
            else if length cnIPsChina > 0
            then \<lparr>sel_policy = PolicyFallbackChina, sel_addrs = dedup cnIPsChina\<rparr>
            else \<lparr>sel_policy = PolicyFallbackChina, sel_addrs = dedup allChina\<rparr>))"

fun firstSOA :: "policy_result list \<Rightarrow> soa_rr option" where
  "firstSOA [] = None"
| "firstSOA (r # rs) = (case res_soa r of Some s \<Rightarrow> Some s | None \<Rightarrow> firstSOA rs)"

fun split_negative :: "policy_result list \<Rightarrow> policy_result list \<Rightarrow> policy_result list
    \<Rightarrow> policy_result list \<times> policy_result list" where
  "split_negative [] nx nodata = (nx, nodata)"
| "split_negative (r # rs) nx nodata =
     (case res_state r of
        StateNXDomain \<Rightarrow> split_negative rs (nx @ [r]) nodata
      | StateNoData \<Rightarrow> split_negative rs nx (nodata @ [r])
      | _ \<Rightarrow> split_negative rs nx nodata)"

definition FinalizeNegative :: "policy_result list \<Rightarrow> int \<times> soa_rr option \<times> bool" where
  "FinalizeNegative results =
     (case split_negative results [] [] of (nx, nodata) \<Rightarrow>
        (if length nx > 0 \<and> length nodata = 0 then (RcodeNameError, firstSOA nx, True)
         else if length nx = 0 \<and> length nodata > 0 then (RcodeSuccess, firstSOA nodata, True)
         else (RcodeServerFailure, None, False)))"

fun own_addrs :: "addr list \<Rightarrow> u32 \<Rightarrow> (addr \<rightharpoonup> u32) \<Rightarrow> (addr \<rightharpoonup> u32)" where
  "own_addrs [] ttl owner = owner"
| "own_addrs (a # as) ttl owner =
     own_addrs as ttl (if owner a = None then owner(a \<mapsto> ttl) else owner)"

fun own_results :: "policy_result list \<Rightarrow> (addr \<rightharpoonup> u32) \<Rightarrow> (addr \<rightharpoonup> u32)" where
  "own_results [] owner = owner"
| "own_results (r # rs) owner =
     (if res_state r \<noteq> StateAnswer then own_results rs owner
      else own_results rs (own_addrs (res_addrs r) (MinTTL r) owner))"

fun min_owner :: "(addr \<rightharpoonup> u32) \<Rightarrow> addr list \<Rightarrow> u32 \<Rightarrow> bool \<Rightarrow> u32 \<times> bool" where
  "min_owner owner [] ttl found = (ttl, found)"
| "min_owner owner (a # as) ttl found =
     (case owner a of
        None \<Rightarrow> min_owner owner as ttl found
      | Some t \<Rightarrow> (if \<not> found \<or> t < ttl then min_owner owner as t True
                   else min_owner owner as ttl found))"

definition SelectTTL :: "addr list \<Rightarrow> policy_result list \<Rightarrow> u32 \<times> bool" where
  "SelectTTL addrs results = min_owner (own_results results Map.empty) addrs 0 False"

section \<open>The loops\<close>

lemma policy_filter_eq [simp]: "policy_filter keep out as = out @ filter keep as"
  by (induction as arbitrary: out) auto

lemma dedup_loop_snoc:
  "dedup_loop (set out) out (xs @ [x]) =
     (if x \<in> set out \<union> set xs then dedup_loop (set out) out xs else dedup_loop (set out) out xs @ [x])"
proof (induction xs arbitrary: out)
  case Nil
  then show ?case by simp
next
  case (Cons a xs)
  have "insert a (set out) = set (out @ [a])" by simp
  then show ?case using Cons [of out] Cons [of "out @ [a]"] by (auto simp del: set_append)
qed

interpretation pol_dedup: stable_dedup dedup
  by unfold_locales
    (simp add: dedup_def, use dedup_loop_snoc [of "[]"] in \<open>simp add: dedup_def\<close>)

lemma dedup_facts [simp]:
  "set (dedup xs) = set xs" "distinct (dedup xs)" "dedup xs = [] \<longleftrightarrow> xs = []"
  by (simp_all add: pol_dedup.dd_set pol_dedup.dd_distinct pol_dedup.dd_empty_iff)

text \<open>The addresses of the answers that satisfy a condition on their result.\<close>

definition answers :: "(policy_result \<Rightarrow> bool) \<Rightarrow> policy_result list \<Rightarrow> addr list" where
  "answers c rs = concat (map res_addrs (filter (\<lambda>r. res_state r = StateAnswer \<and> c r) rs))"

lemma answers_append [simp]: "answers c (rs @ rs') = answers c rs @ answers c rs'"
  by (simp add: answers_def)

lemma answers_Nil [simp]: "answers c [] = []"
  and answers_Cons [simp]: "answers c (r # rs) =
    (if res_state r = StateAnswer \<and> c r then res_addrs r @ answers c rs else answers c rs)"
  by (simp_all add: answers_def)

lemma set_answers: "set (answers c rs) = {a. \<exists>r\<in>set rs. res_state r = StateAnswer \<and> c r \<and> a \<in> set (res_addrs r)}"
  by (auto simp: answers_def)

lemma gather_eq:
  "gather rs cn nc al =
     (cn @ answers ServerChina rs, nc @ answers (Not \<circ> ServerChina) rs, al @ answers (\<lambda>_. True) rs)"
  by (induction rs cn nc al rule: gather.induct) (auto simp: answers_def)

lemma split_negative_eq:
  "split_negative rs nx nodata =
     (nx @ filter (\<lambda>r. res_state r = StateNXDomain) rs, nodata @ filter (\<lambda>r. res_state r = StateNoData) rs)"
  by (induction rs nx nodata rule: split_negative.induct) (auto split: State.splits)

section \<open>The selection rules\<close>

text \<open>Evidence in a set of results: a chn address from a chn resolver, and the foreign counterpart.\<close>

definition cn_evidence :: "(addr \<Rightarrow> bool) \<Rightarrow> policy_result list \<Rightarrow> bool" where
  "cn_evidence isChina rs \<longleftrightarrow> (\<exists>a\<in>set (answers ServerChina rs). isChina a)"

definition foreign_evidence :: "(addr \<Rightarrow> bool) \<Rightarrow> policy_result list \<Rightarrow> bool" where
  "foreign_evidence isChina rs \<longleftrightarrow> (\<exists>a\<in>set (answers (Not \<circ> ServerChina) rs). \<not> isChina a)"

definition any_china :: "(addr \<Rightarrow> bool) \<Rightarrow> policy_result list \<Rightarrow> bool" where
  "any_china isChina rs \<longleftrightarrow> (\<exists>a\<in>set (answers (\<lambda>_. True) rs). isChina a)"

text \<open>The branches on address lists instead of accumulators.\<close>

definition select_spec :: "gostring \<Rightarrow> policy_result list \<Rightarrow> (addr \<Rightarrow> bool) \<Rightarrow> (gostring \<Rightarrow> bool) \<Rightarrow> SelectResult" where
  "select_spec qname rs isChina isOverride =
     (let cn = filter isChina (answers ServerChina rs);
          nc = answers (Not \<circ> ServerChina) rs;
          pick = (\<lambda>p as. \<lparr>sel_policy = p, sel_addrs = dedup as\<rparr>)
      in if cn_evidence isChina rs \<and> foreign_evidence isChina rs then
           (if isOverride qname then pick PolicyOverride (filter (Not \<circ> isChina) nc)
            else pick PolicyPreferChina cn)
         else if \<not> any_china isChina rs then
           pick PolicyAllNonChina (if nc \<noteq> [] then nc else answers (\<lambda>_. True) rs)
         else pick PolicyFallbackChina
                (if cn_evidence isChina rs then cn else filter isChina (answers (\<lambda>_. True) rs)))"

lemma evidence_filter:
  "length (filter isChina (answers ServerChina rs)) > 0 \<longleftrightarrow> cn_evidence isChina rs"
  "length (filter (\<lambda>a. \<not> isChina a) (answers (Not \<circ> ServerChina) rs)) > 0 \<longleftrightarrow> foreign_evidence isChina rs"
  "length (filter isChina (answers (\<lambda>_. True) rs)) = 0 \<longleftrightarrow> \<not> any_china isChina rs"
  by (auto simp: cn_evidence_def foreign_evidence_def any_china_def filter_nonempty_iff filter_empty_conv)

lemma Select_spec: "Select q rs isChina isOverride = select_spec q rs isChina isOverride"
  unfolding Select_def select_spec_def gather_eq Let_def prod.case append_Nil policy_filter_eq evidence_filter
  by (auto simp: comp_def)

lemma any_chinaI: "cn_evidence isChina rs \<Longrightarrow> any_china isChina rs"
  by (auto simp: cn_evidence_def any_china_def set_answers)

lemma Select_nonempty:
  "sel_addrs (Select q rs isChina isOverride) = [] \<longleftrightarrow> answers (\<lambda>_. True) rs = []"
proof -
  have "set (answers (Not \<circ> ServerChina) rs) \<subseteq> set (answers (\<lambda>_. True) rs)"
    "set (answers ServerChina rs) \<subseteq> set (answers (\<lambda>_. True) rs)"
    by (auto simp: set_answers)
  then show ?thesis
    unfolding Select_spec select_spec_def Let_def
    by (auto simp: cn_evidence_def foreign_evidence_def any_china_def filter_empty_conv)
qed

lemma Select_from_answers:
  "set (sel_addrs (Select q rs isChina isOverride)) \<subseteq> set (answers (\<lambda>_. True) rs)"
  unfolding Select_spec select_spec_def Let_def by (auto simp: set_answers)

lemma Select_distinct: "distinct (sel_addrs (Select q rs isChina isOverride))"
  unfolding Select_spec select_spec_def Let_def by auto

text \<open>Evidence never disappears when results arrive, and then neither does the branch.\<close>

lemma evidence_mono:
  "cn_evidence isChina rs \<Longrightarrow> cn_evidence isChina (rs @ rs')"
  "foreign_evidence isChina rs \<Longrightarrow> foreign_evidence isChina (rs @ rs')"
  by (auto simp: cn_evidence_def foreign_evidence_def)

lemma Select_stable:
  assumes "cn_evidence isChina rs" "foreign_evidence isChina rs"
  shows "sel_policy (Select q (rs @ rs') isChina ov) = sel_policy (Select q rs isChina ov)
    \<and> prefix (sel_addrs (Select q rs isChina ov)) (sel_addrs (Select q (rs @ rs') isChina ov))"
  using assms evidence_mono(1) [OF assms(1), of rs'] evidence_mono(2) [OF assms(2), of rs']
  by (simp add: Select_spec select_spec_def Let_def pol_dedup.dd_prefix)

text \<open>Each rule name carries its promise.\<close>

lemma policy_names:
  "PolicyOverride \<noteq> PolicyPreferChina" "PolicyOverride \<noteq> PolicyAllNonChina"
  "PolicyOverride \<noteq> PolicyFallbackChina" "PolicyPreferChina \<noteq> PolicyAllNonChina"
  "PolicyPreferChina \<noteq> PolicyFallbackChina" "PolicyAllNonChina \<noteq> PolicyFallbackChina"
  by (simp_all add: PolicyOverride_def PolicyPreferChina_def PolicyAllNonChina_def PolicyFallbackChina_def)

lemma Select_promise:
  fixes qname rs isChina isOverride
  defines "s \<equiv> Select qname rs isChina isOverride"
  shows "sel_policy s = PolicyOverride \<longrightarrow> isOverride qname
      \<and> (\<forall>a\<in>set (sel_addrs s). \<not> isChina a \<and> a \<in> set (answers (Not \<circ> ServerChina) rs))"
    and "sel_policy s = PolicyPreferChina \<longrightarrow> \<not> isOverride qname
      \<and> (\<forall>a\<in>set (sel_addrs s). isChina a \<and> a \<in> set (answers ServerChina rs))"
    and "sel_policy s = PolicyFallbackChina \<longrightarrow> (\<forall>a\<in>set (sel_addrs s). isChina a)"
    and "sel_policy s = PolicyAllNonChina \<longrightarrow> (\<forall>a\<in>set (answers (\<lambda>_. True) rs). \<not> isChina a)"
  using policy_names policy_names [symmetric]
  by (simp_all add: s_def Select_spec select_spec_def Let_def any_china_def)

lemma Select_policies:
  "sel_policy (Select qname rs isChina isOverride) \<in> {PolicyPreferChina, PolicyOverride, PolicyFallbackChina, PolicyAllNonChina}"
  by (simp add: Select_def Let_def split: prod.splits)

section \<open>TTL\<close>

text \<open>The TTL of the first result that contributed an address.\<close>

definition owner_ttl :: "policy_result list \<Rightarrow> addr \<Rightarrow> u32 option" where
  "owner_ttl rs a =
     map_option MinTTL (find (\<lambda>r. res_state r = StateAnswer \<and> a \<in> set (res_addrs r)) rs)"

lemma own_addrs_eq:
  "own_addrs as t owner a = (case owner a of Some x \<Rightarrow> Some x | None \<Rightarrow> if a \<in> set as then Some t else None)"
  by (induction as arbitrary: owner) (auto split: option.splits)

lemma own_results_eq:
  "own_results rs owner a = (case owner a of Some x \<Rightarrow> Some x | None \<Rightarrow> owner_ttl rs a)"
  by (induction rs arbitrary: owner) (auto simp: owner_ttl_def own_addrs_eq split: option.splits)

definition owner_ttls :: "(addr \<rightharpoonup> u32) \<Rightarrow> addr list \<Rightarrow> u32 set" where
  "owner_ttls owner as = {t. \<exists>a\<in>set as. owner a = Some t}"

lemma owner_ttls_Nil [simp]: "owner_ttls owner [] = {}"
  and owner_ttls_Cons: "owner_ttls owner (a # as) =
    (case owner a of None \<Rightarrow> owner_ttls owner as | Some t \<Rightarrow> insert t (owner_ttls owner as))"
  by (auto simp: owner_ttls_def split: option.splits)

lemma finite_owner_ttls [simp]: "finite (owner_ttls owner as)"
proof -
  have "owner_ttls owner as \<subseteq> (the \<circ> owner) ` set as" by (force simp: owner_ttls_def)
  then show ?thesis by (rule finite_subset) simp
qed

lemma min_owner_found: "min_owner owner as ttl True = (Min (insert ttl (owner_ttls owner as)), True)"
proof (induction as arbitrary: ttl)
  case Nil
  then show ?case by simp
next
  case (Cons a as)
  show ?case
  proof (cases "owner a")
    case None
    with Cons show ?thesis by (simp add: owner_ttls_Cons)
  next
    case (Some t)
    have "Min (insert ttl (insert t S)) = Min (insert (min t ttl) S)" if "finite S" for S
      using that by (cases "S = {}") (auto simp: min.left_commute min.commute min.assoc)
    then show ?thesis
      using Cons Some by (auto simp: owner_ttls_Cons min_def not_less)
  qed
qed

lemma min_owner_not_found:
  "min_owner owner as ttl False =
     (if owner_ttls owner as = {} then (ttl, False) else (Min (owner_ttls owner as), True))"
  by (induction as) (auto simp: owner_ttls_Cons min_owner_found split: option.splits)

lemma SelectTTL_eq:
  "SelectTTL as rs =
     (if owner_ttls (owner_ttl rs) as = {} then (0, False)
      else (Min (owner_ttls (owner_ttl rs) as), True))"
proof -
  have "own_results rs Map.empty = owner_ttl rs" by (rule ext) (simp add: own_results_eq)
  then show ?thesis by (simp add: SelectTTL_def min_owner_not_found)
qed

lemma owner_ttl_answers: "a \<in> set (answers (\<lambda>_. True) rs) \<Longrightarrow> \<exists>t. owner_ttl rs a = Some t"
  by (cases "find (\<lambda>r. res_state r = StateAnswer \<and> a \<in> set (res_addrs r)) rs")
    (auto simp: owner_ttl_def set_answers find_None_iff)

section \<open>Properties\<close>

text \<open>
  C6. Which rule \<^verbatim>\<open>Select\<close> applies and what it returns. If a chn resolver returned a chn address and a non-chn resolver a
  non-chn one, the answer is the non-chn addresses of the non-chn resolvers for a name on the override list, else the
  chn addresses of the chn resolvers. If nobody returned a chn address, it is what the non-chn resolvers returned, or
  what all returned if those returned nothing. Otherwise it is the chn addresses of the chn resolvers, or of all if those
  returned none. Each address comes once, in the order in which these resolvers first returned it.
\<close>

theorem Select_applies_rules:
  fixes rs isChina
  defines "got \<equiv> \<lambda>c k. \<exists>r\<in>set rs. res_state r = StateAnswer \<and> c r \<and> (\<exists>a\<in>set (res_addrs r). k a)"
  defines "chn \<equiv> ServerChina" and "non_chn \<equiv> Not \<circ> ServerChina" and "all \<equiv> \<lambda>r. True"
  shows "let s = Select qname rs isChina isOverride; both = got chn isChina \<and> got non_chn (Not \<circ> isChina)
    in (both \<and> isOverride qname \<longrightarrow> sel_policy s = PolicyOverride \<and> chosen_from (answers non_chn rs) (Not \<circ> isChina) (sel_addrs s))
     \<and> (both \<and> \<not> isOverride qname \<longrightarrow> sel_policy s = PolicyPreferChina \<and> chosen_from (answers chn rs) isChina (sel_addrs s))
     \<and> (\<not> got all isChina \<longrightarrow> sel_policy s = PolicyAllNonChina
         \<and> chosen_from (answers (if got non_chn (\<lambda>a. True) then non_chn else all) rs) (\<lambda>a. True) (sel_addrs s))
     \<and> (got all isChina \<and> \<not> both \<longrightarrow> sel_policy s = PolicyFallbackChina
         \<and> chosen_from (answers (if got chn isChina then chn else all) rs) isChina (sel_addrs s))"
proof -
  have got: "got c k \<longleftrightarrow> (\<exists>a\<in>set (answers c rs). k a)" for c k by (auto simp: got_def set_answers)
  have ev: "got chn isChina = cn_evidence isChina rs" "got non_chn (Not \<circ> isChina) = foreign_evidence isChina rs"
    "got all isChina = any_china isChina rs" "got non_chn (\<lambda>a. True) = (answers non_chn rs \<noteq> [])"
    by (simp_all add: got cn_evidence_def foreign_evidence_def any_china_def chn_def non_chn_def all_def comp_def ex_in_conv)
  have "chosen_from xs (\<lambda>a. True) (dedup xs)" for xs using pol_dedup.dd_chosen [of xs "\<lambda>a. True"] by simp
  then show ?thesis
    using any_chinaI [of isChina rs] pol_dedup.dd_chosen
    unfolding Let_def ev Select_spec select_spec_def unfolding chn_def non_chn_def all_def by auto
qed

definition sample_results :: "policy_result list" where
  "sample_results =
     [\<lparr>Server = Addr4 1, ServerChina = False, res_addrs = [Addr4 7, Addr4 9, Addr4 7], res_state = StateAnswer, res_soa = None, MinTTL = 60, ErrCategory = []\<rparr>,
      \<lparr>Server = Addr4 2, ServerChina = True, res_addrs = [Addr4 8], res_state = StateAnswer, res_soa = None, MinTTL = 60, ErrCategory = []\<rparr>]"

theorem Select_applies_rules_witness:
  "sel_policy (Select ''a.'' sample_results (\<lambda>a. a = Addr4 8) (\<lambda>q. True)) = PolicyOverride
   \<and> chosen_from [Addr4 7, Addr4 9, Addr4 7] (\<lambda>a. a \<noteq> Addr4 8) (sel_addrs (Select ''a.'' sample_results (\<lambda>a. a = Addr4 8) (\<lambda>q. True)))"
  using Select_applies_rules [where qname = "''a.''" and rs = sample_results and isChina = "\<lambda>a. a = Addr4 8" and isOverride = "\<lambda>q. True"]
  by (simp add: sample_results_def Let_def comp_def)

text \<open>
  C7. The selection neither invents nor repeats addresses, answers whenever some upstream did, and
  keeps the promise of the rule it names: under the override rule every address is a non-chn
  address from a non-chn resolver, under the preference rule a chn address from a chn resolver,
  under the fallback rule a chn address, and under the remaining rule no chn address exists.
\<close>

theorem Select_keeps_promises:
  "let s = Select qname rs isChina isOverride
   in distinct (sel_addrs s)
      \<and> set (sel_addrs s) \<subseteq> set (answers (\<lambda>_. True) rs)
      \<and> (sel_addrs s = [] \<longleftrightarrow> answers (\<lambda>_. True) rs = [])
      \<and> (sel_policy s = PolicyOverride \<longrightarrow> isOverride qname
           \<and> (\<forall>a\<in>set (sel_addrs s). \<not> isChina a \<and> a \<in> set (answers (Not \<circ> ServerChina) rs)))
      \<and> (sel_policy s = PolicyPreferChina \<longrightarrow> \<not> isOverride qname
           \<and> (\<forall>a\<in>set (sel_addrs s). isChina a \<and> a \<in> set (answers ServerChina rs)))
      \<and> (sel_policy s = PolicyFallbackChina \<longrightarrow> (\<forall>a\<in>set (sel_addrs s). isChina a))
      \<and> (sel_policy s = PolicyAllNonChina \<longrightarrow> (\<forall>a\<in>set (answers (\<lambda>_. True) rs). \<not> isChina a))"
  unfolding Let_def
  using Select_nonempty Select_from_answers Select_distinct Select_promise [of qname rs isChina isOverride] by blast

definition sample_result :: "bool \<Rightarrow> addr list \<Rightarrow> u32 \<Rightarrow> policy_result" where
  "sample_result cn as ttl = \<lparr>Server = Addr4 0x08080808, ServerChina = cn, res_addrs = as,
     res_state = StateAnswer, res_soa = None, MinTTL = ttl, ErrCategory = []\<rparr>"

theorem Select_keeps_promises_witness:
  "let rs = [sample_result True [Addr4 1] 60, sample_result False [Addr4 9] 300];
       s = Select ''bing.com'' rs (\<lambda>a. a < Addr4 5) (\<lambda>q. q = ''bing.com'')
   in sel_policy s = PolicyOverride \<and> sel_addrs s = [Addr4 9] \<and> distinct (sel_addrs s)"
  using Select_keeps_promises [of "''bing.com''"
      "[sample_result True [Addr4 1] 60, sample_result False [Addr4 9] 300]"
      "\<lambda>a. a < Addr4 5" "\<lambda>q. q = ''bing.com''"]
  by (simp add: Let_def Select_def sample_result_def dedup_def)

text \<open>
  C38. The order in which upstreams answer does not influence the decision: permuting the results
  changes neither the rule nor the set of chosen addresses.
\<close>

theorem Select_order_independent:
  assumes "mset rs' = mset rs"
  shows "sel_policy (Select q rs' isChina ov) = sel_policy (Select q rs isChina ov)
    \<and> set (sel_addrs (Select q rs' isChina ov)) = set (sel_addrs (Select q rs isChina ov))"
proof -
  have s: "set (answers c rs') = set (answers c rs)" for c
    using mset_eq_setD [OF assms] by (simp add: set_answers)
  then have "answers c rs' = [] \<longleftrightarrow> answers c rs = []" for c by (metis set_empty)
  with s show ?thesis
    by (simp add: Select_spec select_spec_def Let_def cn_evidence_def foreign_evidence_def any_china_def)
qed

theorem Select_order_independent_witness:
  "let a = sample_result True [Addr4 1] 60; b = sample_result False [Addr4 9, Addr4 2] 300
   in sel_policy (Select ''x'' [b, a] (\<lambda>a. a < Addr4 5) (\<lambda>_. False))
        = sel_policy (Select ''x'' [a, b] (\<lambda>a. a < Addr4 5) (\<lambda>_. False))"
  unfolding Let_def by (rule Select_order_independent [THEN conjunct1]) simp

text \<open>
  C39. Negative answers need agreement: NXDOMAIN is reported exactly when some upstream said so and
  none said NODATA, NODATA in the mirrored case, and everything else, disagreement included, is
  SERVFAIL without an SOA. The SOA is the first one among the agreeing upstreams.
\<close>

theorem FinalizeNegative_agreement:
  "FinalizeNegative rs =
     (let nx = filter (\<lambda>r. res_state r = StateNXDomain) rs;
          nodata = filter (\<lambda>r. res_state r = StateNoData) rs
      in if nx \<noteq> [] \<and> nodata = [] then (RcodeNameError, List.find (\<lambda>_. True) (List.map_filter res_soa nx), True)
         else if nx = [] \<and> nodata \<noteq> [] then (RcodeSuccess, List.find (\<lambda>_. True) (List.map_filter res_soa nodata), True)
         else (RcodeServerFailure, None, False))"
proof -
  have "firstSOA xs = List.find (\<lambda>_. True) (List.map_filter res_soa xs)" for xs
    by (induction xs) (auto simp: List.map_filter_simps split: option.splits)
  then show ?thesis by (simp add: FinalizeNegative_def split_negative_eq Let_def)
qed

text \<open>
  The TTL of a choice is the least TTL over the chosen addresses, each counted with the first
  result that returned it; for addresses that \<^verbatim>\<open>Select\<close> chose, and at least one of them, it is
  always found.
\<close>

theorem SelectTTL_is_minimum:
  "let as = sel_addrs (Select q rs isChina ov); ts = {t. \<exists>a\<in>set as. owner_ttl rs a = Some t}
   in SelectTTL as rs = (if as = [] then (0, False) else (Min ts, True))
      \<and> (\<forall>a\<in>set as. \<exists>t. owner_ttl rs a = Some t)"
proof -
  let ?as = "sel_addrs (Select q rs isChina ov)"
  have own: "\<forall>a\<in>set ?as. \<exists>t. owner_ttl rs a = Some t"
    using Select_from_answers owner_ttl_answers by blast
  then have "owner_ttls (owner_ttl rs) ?as = {} \<longleftrightarrow> ?as = []"
    by (cases ?as) (auto simp: owner_ttls_def)
  with own show ?thesis by (simp add: Let_def SelectTTL_eq owner_ttls_def)
qed

end
