(* ===== verification/Metrics.thy ===== *)
theory Metrics
  imports Policy
begin

text \<open>
  Package \<^verbatim>\<open>internal/metrics\<close>: the process counters. The counters are 64-bit words that wrap; the gauge
  \<^verbatim>\<open>Inflight\<close> is a 64-bit word read as a signed number. A map of
  counters per name is a partial map; a missing counter is created at its first use. Theory Counters takes the
  creation and the increment apart, and theory Exposition renders the counters as text (\<^verbatim>\<open>Write\<close>).
\<close>

type_synonym u64 = "64 word"

record UpstreamMetrics =
  um_addr :: gostring
  um_results :: "gostring \<rightharpoonup> u64"
  um_failures :: "gostring \<rightharpoonup> u64"

record Metrics =
  QueriesUDP :: u64
  QueriesTCP :: u64
  Resolved :: u64
  Forwarded :: u64
  FormErr :: u64
  DroppedOverload :: u64
  ParseError :: u64
  AnswersNOERROR :: u64
  AnswersNXDomain :: u64
  AnswersNODATA :: u64
  AnswersSERVFAIL :: u64
  Policies :: "gostring \<rightharpoonup> u64"
  Inflight :: u64
  met_upstreams :: "UpstreamMetrics list"

definition Metrics_New :: "gostring list \<Rightarrow> Metrics" where
  "Metrics_New upstreamAddrs =
     \<lparr>QueriesUDP = 0, QueriesTCP = 0, Resolved = 0, Forwarded = 0, FormErr = 0, DroppedOverload = 0, ParseError = 0,
      AnswersNOERROR = 0, AnswersNXDomain = 0, AnswersNODATA = 0, AnswersSERVFAIL = 0,
      Policies = [PolicyOverride \<mapsto> 0, PolicyPreferChina \<mapsto> 0, PolicyAllNonChina \<mapsto> 0, PolicyFallbackChina \<mapsto> 0],
      Inflight = 0,
      met_upstreams = map (\<lambda>a. \<lparr>um_addr = a, um_results = Map.empty, um_failures = Map.empty\<rparr>) upstreamAddrs\<rparr>"

text \<open>\<^verbatim>\<open>counter\<close> followed by \<^verbatim>\<open>Add(1)\<close>.\<close>

definition bump :: "(gostring \<rightharpoonup> u64) \<Rightarrow> gostring \<Rightarrow> (gostring \<rightharpoonup> u64)" where
  "bump dst name = (case dst name of Some c \<Rightarrow> dst(name \<mapsto> c + 1) | None \<Rightarrow> dst(name \<mapsto> 1))"

definition RecordUpstreamResult :: "Metrics \<Rightarrow> int \<Rightarrow> gostring \<Rightarrow> Metrics" where
  "RecordUpstreamResult m idx state =
     (if idx < 0 \<or> idx \<ge> int (length (met_upstreams m)) then m
      else let i = nat idx; u = met_upstreams m ! i
           in m\<lparr>met_upstreams := (met_upstreams m)[i := u\<lparr>um_results := bump (um_results u) state\<rparr>]\<rparr>)"

definition RecordUpstreamFailure :: "Metrics \<Rightarrow> int \<Rightarrow> gostring \<Rightarrow> Metrics" where
  "RecordUpstreamFailure m idx category =
     (if idx < 0 \<or> idx \<ge> int (length (met_upstreams m)) then m
      else let i = nat idx; u = met_upstreams m ! i
           in m\<lparr>met_upstreams := (met_upstreams m)[i := u\<lparr>um_failures := bump (um_failures u) category\<rparr>]\<rparr>)"

definition RecordPolicy :: "Metrics \<Rightarrow> gostring \<Rightarrow> Metrics" where
  "RecordPolicy m name =
     (case Policies m name of Some c \<Rightarrow> m\<lparr>Policies := (Policies m)(name \<mapsto> c + 1)\<rparr> | None \<Rightarrow> m)"

section \<open>Counting\<close>

text \<open>The value of a counter; one that does not exist yet counts zero.\<close>

definition tally :: "(gostring \<rightharpoonup> u64) \<Rightarrow> gostring \<Rightarrow> u64" where
  "tally m name = (case m name of Some c \<Rightarrow> c | None \<Rightarrow> 0)"

lemma tally_bump: "tally (bump m n) k = tally m k + (if k = n then 1 else 0)"
  by (simp add: tally_def bump_def split: option.splits)

definition result_count :: "Metrics \<Rightarrow> nat \<Rightarrow> gostring \<Rightarrow> u64" where
  "result_count m i st = tally (um_results (met_upstreams m ! i)) st"

definition failure_count :: "Metrics \<Rightarrow> nat \<Rightarrow> gostring \<Rightarrow> u64" where
  "failure_count m i cat = tally (um_failures (met_upstreams m ! i)) cat"

lemma RecordUpstreamResult_length [simp]: "length (met_upstreams (RecordUpstreamResult m i st)) = length (met_upstreams m)"
  and RecordUpstreamFailure_length [simp]: "length (met_upstreams (RecordUpstreamFailure m i st)) = length (met_upstreams m)"
  by (simp_all add: RecordUpstreamResult_def RecordUpstreamFailure_def Let_def)

lemma result_count_record:
  assumes "i < length (met_upstreams m)" "j < length (met_upstreams m)"
  shows "result_count (RecordUpstreamResult m (int i) st) j k = result_count m j k + (if j = i \<and> k = st then 1 else 0)"
    and "failure_count (RecordUpstreamResult m (int i) st) j k = failure_count m j k"
    and "failure_count (RecordUpstreamFailure m (int i) st) j k = failure_count m j k + (if j = i \<and> k = st then 1 else 0)"
    and "result_count (RecordUpstreamFailure m (int i) st) j k = result_count m j k"
  using assms by (auto simp: result_count_def failure_count_def RecordUpstreamResult_def RecordUpstreamFailure_def
      Let_def tally_bump nth_list_update)

end
