(* ===== verification/Overrides.thy ===== *)
theory Overrides
  imports AssetLines
begin

text \<open>
  Package \<^verbatim>\<open>internal/overrides\<close>: the list of names answered from the non-chn side. Entries are
  exact names and wildcards \<^verbatim>\<open>*.suffix\<close>; matching normalises both sides.
\<close>

section \<open>Data and operations\<close>

text \<open>The Go type is named \<^verbatim>\<open>Set\<close>; \<^verbatim>\<open>map[string]struct{}\<close> is a set of keys.\<close>

record OverrideSet =
  exact :: "gostring set"
  wildcard :: "gostring list"

definition overrides_normalize :: "gostring \<Rightarrow> gostring" where
  "overrides_normalize name = to_lower (trim_suffix (trim_space name) ''.'')"

fun new_exact :: "gostring list \<Rightarrow> OverrideSet \<Rightarrow> OverrideSet" where
  "new_exact [] s = s"
| "new_exact (e # es) s =
     (let e = overrides_normalize e
      in new_exact es (if e \<noteq> [] then s\<lparr>exact := insert e (exact s)\<rparr> else s))"

fun new_wildcard :: "gostring list \<Rightarrow> OverrideSet \<Rightarrow> OverrideSet" where
  "new_wildcard [] s = s"
| "new_wildcard (w # ws) s =
     (let w = overrides_normalize w
      in new_wildcard ws (if w \<noteq> [] then s\<lparr>wildcard := wildcard s @ [w]\<rparr> else s))"

definition Overrides_New :: "gostring list \<Rightarrow> gostring list \<Rightarrow> OverrideSet" where
  "Overrides_New ex wild = new_wildcard wild (new_exact ex \<lparr>exact = {}, wildcard = []\<rparr>)"

text \<open>The body of the scan loop; the accumulators are the slices \<^verbatim>\<open>exact\<close> and \<^verbatim>\<open>wildcard\<close>.\<close>

fun load_entries :: "gostring list \<Rightarrow> gostring list \<Rightarrow> gostring list \<Rightarrow> gostring list \<times> gostring list" where
  "load_entries [] ex wild = (ex, wild)"
| "load_entries (l # ls) ex wild =
     (let raw = trim_space l
      in if is_comment_line raw then load_entries ls ex wild
         else let raw = strip_inline comment_seps raw
              in if raw = [] then load_entries ls ex wild
                 else if has_prefix raw ''*.'' then load_entries ls ex (wild @ [drop 2 raw])
                 else load_entries ls (ex @ [raw]) wild)"

text \<open>The scanner's default limit, \<^verbatim>\<open>bufio.MaxScanTokenSize\<close>.\<close>

definition max_scan_token :: nat where
  "max_scan_token = 64 * 1024"

definition Overrides_LoadFrom :: "reader \<Rightarrow> scan_error + OverrideSet" where
  "Overrides_LoadFrom r =
     (case scan_lines max_scan_token r of (ls, scerr) \<Rightarrow>
        (case load_entries ls [] [] of (ex, wild) \<Rightarrow>
           (case scerr of Some e \<Rightarrow> Inl e | None \<Rightarrow> Inr (Overrides_New ex wild))))"

datatype override_load_error = OverridesOpenError gostring | OverridesScanError gostring scan_error

definition Overrides_Load :: "(gostring \<Rightarrow> reader option) \<Rightarrow> gostring \<Rightarrow> override_load_error + OverrideSet" where
  "Overrides_Load fs path =
     (case fs path of
        None \<Rightarrow> Inl (OverridesOpenError path)
      | Some f \<Rightarrow>
          (case Overrides_LoadFrom f of
             Inl e \<Rightarrow> Inl (OverridesScanError path e)
           | Inr s \<Rightarrow> Inr s))"

fun match_wildcards :: "gostring \<Rightarrow> gostring list \<Rightarrow> bool" where
  "match_wildcards q [] = False"
| "match_wildcards q (suf # sufs) = (if has_suffix q (''.'' @ suf) then True else match_wildcards q sufs)"

definition Match :: "OverrideSet \<Rightarrow> gostring \<Rightarrow> bool" where
  "Match s qname =
     (let q = overrides_normalize qname
      in if q = [] then False
         else if q \<in> exact s then True
         else match_wildcards q (wildcard s))"

section \<open>Normalisation\<close>

interpretation ov_norm: name_normalizer overrides_normalize
proof unfold_locales
  fix s
  show "overrides_normalize (to_lower s) = overrides_normalize s"
    by (simp add: overrides_normalize_def trim_space_lower trim_suffix_dot_lower)
  show "overrides_normalize (trim_space s) = overrides_normalize s"
    by (simp add: overrides_normalize_def)
  show "trimmed s \<Longrightarrow> \<not> suffix ''.'' s \<Longrightarrow> overrides_normalize (s @ ''.'') = overrides_normalize s"
    by (simp add: overrides_normalize_def trim_space_snoc_dot trim_space_id)
qed

section \<open>Matching\<close>

lemma new_exact_fields:
  "exact (new_exact es s) = exact s \<union> (overrides_normalize ` set es - {[]})"
  "wildcard (new_exact es s) = wildcard s"
  by (induction es arbitrary: s) (auto simp: Let_def)

lemma new_wildcard_fields:
  "exact (new_wildcard ws s) = exact s"
  "set (wildcard (new_wildcard ws s)) = set (wildcard s) \<union> (overrides_normalize ` set ws - {[]})"
  by (induction ws arbitrary: s) (auto simp: Let_def)

lemma match_wildcards_iff: "match_wildcards q sufs \<longleftrightarrow> (\<exists>s\<in>set sufs. suffix (CHR ''.'' # s) q)"
  by (induction sufs) (auto simp: has_suffix_def)

definition exact_match :: "gostring \<Rightarrow> gostring \<Rightarrow> bool" where
  "exact_match e q \<longleftrightarrow> overrides_normalize q = overrides_normalize e"

definition wildcard_match :: "gostring \<Rightarrow> gostring \<Rightarrow> bool" where
  "wildcard_match w q \<longleftrightarrow> overrides_normalize w \<noteq> []
     \<and> suffix (CHR ''.'' # overrides_normalize w) (overrides_normalize q)"

lemma Match_New:
  "Match (Overrides_New ex wild) q \<longleftrightarrow>
     overrides_normalize q \<noteq> [] \<and> ((\<exists>e\<in>set ex. exact_match e q) \<or> (\<exists>w\<in>set wild. wildcard_match w q))"
  by (auto simp: Match_def Overrides_New_def Let_def match_wildcards_iff new_exact_fields
      new_wildcard_fields exact_match_def wildcard_match_def)

text \<open>What one line of an override file matches.\<close>

definition line_entry :: "gostring \<Rightarrow> gostring option" where
  "line_entry l =
     (let raw = trim_space l
      in if is_comment_line raw \<or> strip_inline comment_seps raw = [] then None
         else Some (strip_inline comment_seps raw))"

definition entry_matches :: "gostring \<Rightarrow> gostring \<Rightarrow> bool" where
  "entry_matches e q \<longleftrightarrow> overrides_normalize q \<noteq> []
     \<and> (if has_prefix e ''*.'' then wildcard_match (drop 2 e) q else exact_match e q)"

lemma load_entries_sets:
  "load_entries ls ex wild = (ex', wild') \<Longrightarrow>
     set ex' = set ex \<union> {e. \<exists>l\<in>set ls. line_entry l = Some e \<and> \<not> has_prefix e ''*.''}
     \<and> set wild' = set wild \<union> {w. \<exists>l\<in>set ls. \<exists>e. line_entry l = Some e \<and> has_prefix e ''*.'' \<and> w = drop 2 e}"
proof (induction ls arbitrary: ex wild)
  case Nil
  then show ?case by simp
next
  case (Cons l ls)
  then show ?case
    by (simp add: Let_def line_entry_def split: if_splits) blast+
qed

lemma LoadFrom_Match:
  assumes "Overrides_LoadFrom r = Inr s"
  shows "Match s q \<longleftrightarrow> (\<exists>l\<in>set (fst (scan_lines max_scan_token r)). \<exists>e. line_entry l = Some e \<and> entry_matches e q)"
proof -
  obtain ls where sc: "scan_lines max_scan_token r = (ls, None)"
    using assms by (auto simp: Overrides_LoadFrom_def split: prod.splits option.splits)
  obtain ex wild where le: "load_entries ls [] [] = (ex, wild)" by fastforce
  have "s = Overrides_New ex wild" using assms by (simp add: Overrides_LoadFrom_def sc le)
  then show ?thesis
    using load_entries_sets [OF le] by (simp add: Match_New entry_matches_def sc) blast
qed

section \<open>Properties\<close>

text \<open>
  C40. A loaded override list matches a name exactly when some entry line of the file does: an
  exact entry matches the names that normalise to the same text, a wildcard entry the names that
  end in a dot and its suffix; comments, blank lines and empty names match nothing. A file is
  rejected only when it cannot be opened or scanned.
\<close>

theorem Overrides_Load_matches:
  assumes "fs path = Some f"
  shows "case Overrides_Load fs path of
      Inl e \<Rightarrow> \<exists>sc. snd (scan_lines max_scan_token f) = Some sc \<and> e = OverridesScanError path sc
    | Inr s \<Rightarrow> snd (scan_lines max_scan_token f) = None
        \<and> (\<forall>q. Match s q \<longleftrightarrow>
             (\<exists>l\<in>set (fst (scan_lines max_scan_token f)). \<exists>e. line_entry l = Some e \<and> entry_matches e q))"
proof (cases "Overrides_LoadFrom f")
  case (Inl e)
  with assms show ?thesis
    by (auto simp: Overrides_Load_def Overrides_LoadFrom_def split: prod.splits option.splits)
next
  case (Inr s)
  then have "snd (scan_lines max_scan_token f) = None"
    by (auto simp: Overrides_LoadFrom_def split: prod.splits option.splits)
  with assms Inr LoadFrom_Match [OF Inr] show ?thesis by (simp add: Overrides_Load_def)
qed

definition sample_overrides :: reader where
  "sample_overrides = \<lparr>rd_data = ''bing.com # exact'' @ newline # ''*.apple.com'', rd_failed = False\<rparr>"

lemma sample_overrides_scan:
  "scan_lines max_scan_token sample_overrides = ([''bing.com # exact'', ''*.apple.com''], None)"
  unfolding sample_overrides_def
  by (rule scan_lines_two)
    (simp_all add: plain_line_def max_scan_token_def newline_def carriage_return_def)

lemma sample_line_entries:
  "line_entry ''bing.com # exact'' = Some ''bing.com''" "line_entry ''*.apple.com'' = Some ''*.apple.com''"
  by code_simp+

lemma sample_entry_matches:
  "entry_matches ''bing.com'' ''BING.com.''" "\<not> entry_matches ''*.apple.com'' ''apple.com''"
  "\<not> entry_matches ''bing.com'' ''apple.com''"
  by code_simp+

theorem Overrides_Load_matches_witness:
  "\<exists>s. Overrides_Load (\<lambda>_. Some sample_overrides) ''ov.txt'' = Inr s
     \<and> Match s ''BING.com.'' \<and> \<not> Match s ''apple.com''"
proof -
  note t = Overrides_Load_matches [where fs = "\<lambda>_. Some sample_overrides" and path = "''ov.txt''", OF refl]
  obtain s where s: "Overrides_Load (\<lambda>_. Some sample_overrides) ''ov.txt'' = Inr s"
    using t by (cases "Overrides_Load (\<lambda>_. Some sample_overrides) ''ov.txt''")
      (auto simp: sample_overrides_scan)
  with t sample_entry_matches show ?thesis
    by (auto simp: sample_overrides_scan sample_line_entries)
qed

text \<open>
  A wildcard covers every subdomain of its suffix, at any depth and in any letter case, with
  or without the final dot of the query, but never the suffix itself.
\<close>

theorem wildcard_subdomains_not_apex:
  assumes "overrides_normalize w = w" "w \<noteq> []" "trimmed (sub @ ''.'' @ w)"
    and "\<not> suffix ''.'' (sub @ ''.'' @ w)"
  shows "Match (Overrides_New [] [w]) (sub @ ''.'' @ w)
    \<and> Match (Overrides_New [] [w]) (sub @ ''.'' @ w @ ''.'')
    \<and> \<not> Match (Overrides_New [] [w]) w"
proof -
  let ?q = "sub @ ''.'' @ w"
  have q: "overrides_normalize ?q = to_lower ?q"
    using assms(3,4) by (simp add: overrides_normalize_def trim_space_id)
  have "to_lower w = w" using assms(1) by (metis ov_norm.norm_lower overrides_normalize_def to_lower_idem)
  then have "to_lower ?q = to_lower sub @ CHR ''.'' # w" by (simp add: lower_char_def)
  with q assms(1,2) have m: "Match (Overrides_New [] [w]) ?q"
    by (auto simp: Match_New wildcard_match_def suffix_def)
  have "overrides_normalize (?q @ ''.'') = overrides_normalize ?q"
    using assms(3,4) by (rule ov_norm.norm_dot)
  with m have "Match (Overrides_New [] [w]) (?q @ ''.'')" by (simp add: Match_def)
  moreover have "\<not> suffix (CHR ''.'' # w) w" by (auto dest: suffix_length_le)
  ultimately show ?thesis using m assms(1) by (simp add: Match_New wildcard_match_def)
qed

text \<open>
  The inline comment loop of the override file has the fixed marker order of the prefix
  loader: an entry with a slash comment that contains a hash sign after a blank is kept with part
  of its comment, loads without an error and never matches the name it was written for.
\<close>

theorem override_mixed_comments:
  "line_entry ''bing.com // ticket #7'' = Some ''bing.com // ticket''
   \<and> \<not> entry_matches ''bing.com // ticket'' ''bing.com''
   \<and> line_entry ''bing.com // ticket'' = Some ''bing.com''"
  by code_simp

end
