(* ===== verification/Upstream.thy ===== *)
theory Upstream
  imports Policy
begin

text \<open>
  Package \<^verbatim>\<open>internal/upstream\<close>: one exchange with an upstream (\<^verbatim>\<open>client.go\<close>) and the resolution of a name
  against one upstream along its CNAME chain (\<^verbatim>\<open>chase.go\<close>).

  What a goroutine observes of the outside is an environment: the answers of \<^verbatim>\<open>ctx.Err()\<close>, the time
  left until the context's deadline and the results of \<^verbatim>\<open>dns.Client.Exchange\<close>, each as a function of
  the number of observations made before. The definitions thread that number; a statement for all
  environments covers every network and every timing. Durations are nanoseconds.
\<close>

section \<open>Environment\<close>

datatype go_error = ErrTimeout | ErrNetwork | ErrCanceled | CtxCanceled | CtxDeadlineExceeded

text \<open>An error of \<^verbatim>\<open>dns.Client.Exchange\<close>: a \<^verbatim>\<open>net.Error\<close> whose \<^verbatim>\<open>Timeout()\<close> holds, or any other.\<close>

datatype net_error = NetTimeout | NetOther

record dns_client =
  cl_net :: gostring
  cl_udp_size :: u16
  cl_timeout :: int

record Client =
  cl_udp :: dns_client
  cl_tcp :: dns_client

record query_env =
  ctx_err :: "nat \<Rightarrow> go_error option"
  ctx_until :: "nat \<Rightarrow> int option"
  net_exchange :: "nat \<Rightarrow> dns_client \<Rightarrow> addr_port \<Rightarrow> msg \<Rightarrow> net_error + msg"

section \<open>client.go\<close>

definition NewClient :: "u16 \<Rightarrow> Client" where
  "NewClient udpSize =
     \<lparr>cl_udp = \<lparr>cl_net = ''udp'', cl_udp_size = udpSize, cl_timeout = 0\<rparr>,
      cl_tcp = \<lparr>cl_net = ''tcp'', cl_udp_size = udpSize, cl_timeout = 0\<rparr>\<rparr>"

definition exchangeNet :: "query_env \<Rightarrow> nat \<Rightarrow> dns_client \<Rightarrow> addr_port \<Rightarrow> msg \<Rightarrow> int
    \<Rightarrow> dns_client \<times> nat \<times> (go_error + msg)" where
  "exchangeNet env t cl addr q budget =
     (let cl = cl\<lparr>cl_timeout := budget\<rparr>
      in (cl, Suc t,
          case net_exchange env t cl addr q of
            Inl NetTimeout \<Rightarrow> Inl ErrTimeout
          | Inl NetOther \<Rightarrow> Inl ErrNetwork
          | Inr resp \<Rightarrow> Inr resp))"

definition Exchange :: "query_env \<Rightarrow> nat \<Rightarrow> Client \<Rightarrow> addr_port \<Rightarrow> msg \<Rightarrow> int
    \<Rightarrow> Client \<times> nat \<times> (go_error + msg)" where
  "Exchange env t c addr q budget =
     (if ctx_err env t \<noteq> None then (c, Suc t, Inl ErrCanceled)
      else case exchangeNet env (Suc t) (cl_udp c) addr q budget of (u, t, r) \<Rightarrow>
        (let c = c\<lparr>cl_udp := u\<rparr>
         in case r of
              Inl e \<Rightarrow> (c, t, Inl e)
            | Inr resp \<Rightarrow>
                (if m_truncated resp then
                   (if ctx_err env t \<noteq> None then (c, Suc t, Inl ErrCanceled)
                    else case exchangeNet env (Suc t) (cl_tcp c) addr q budget of (w, t, r) \<Rightarrow>
                           (c\<lparr>cl_tcp := w\<rparr>, t, r))
                 else (c, t, Inr resp))))"

fun Category :: "go_error \<Rightarrow> gostring" where
  "Category ErrTimeout = ''timeout''"
| "Category ErrCanceled = ''canceled''"
| "Category _ = ''network''"

section \<open>chase.go\<close>

definition hopBudget :: "query_env \<Rightarrow> nat \<Rightarrow> int \<Rightarrow> int \<times> nat" where
  "hopBudget env t attempt =
     (let a = (case ctx_until env t of
                 Some rem \<Rightarrow> (if rem < attempt then rem else attempt)
               | None \<Rightarrow> attempt)
      in (if a < 0 then 0 else a, Suc t))"

definition chase_normalize :: "gostring \<Rightarrow> gostring" where
  "chase_normalize name = to_lower (trim_suffix (trim_space name) ''.'') @ ''.''"

fun rrAddr :: "rr \<Rightarrow> addr \<times> bool" where
  "rrAddr (RR_A h ip) = (case addr_from_slice ip of (a, ok) \<Rightarrow> (unmap a, ok))"
| "rrAddr (RR_AAAA h ip) = addr_from_slice ip"
| "rrAddr _ = (AddrZero, False)"

fun extractSOA_loop :: "rr list \<Rightarrow> soa_rr option" where
  "extractSOA_loop [] = None"
| "extractSOA_loop (r # rs) = (case r of RR_SOA s \<Rightarrow> Some s | _ \<Rightarrow> extractSOA_loop rs)"

definition extractSOA :: "msg \<Rightarrow> soa_rr option" where
  "extractSOA m = extractSOA_loop (m_ns m)"

fun dedupAddrs_loop :: "addr set \<Rightarrow> addr list \<Rightarrow> addr list \<Rightarrow> addr list" where
  "dedupAddrs_loop seen out [] = out"
| "dedupAddrs_loop seen out (a # as) =
     (if a \<in> seen then dedupAddrs_loop seen out as else dedupAddrs_loop (insert a seen) (out @ [a]) as)"

definition dedupAddrs :: "addr list \<Rightarrow> addr list" where
  "dedupAddrs addrs = dedupAddrs_loop {} [] addrs"

text \<open>The loop over the answer section that fills \<^verbatim>\<open>addrs\<close> and \<^verbatim>\<open>minTTL\<close>.\<close>

fun answer_addrs :: "u16 \<Rightarrow> rr list \<Rightarrow> addr list \<Rightarrow> u32 \<Rightarrow> addr list \<times> u32" where
  "answer_addrs qtype [] addrs minTTL = (addrs, minTTL)"
| "answer_addrs qtype (r # rs) addrs minTTL =
     (if hdr_rrtype (rr_hdr r) \<noteq> qtype then answer_addrs qtype rs addrs minTTL
      else case rrAddr r of (ip, ok) \<Rightarrow>
        (if \<not> ok then answer_addrs qtype rs addrs minTTL
         else let ttl = hdr_ttl (rr_hdr r)
              in answer_addrs qtype rs (addrs @ [ip])
                   (if minTTL = 0 \<or> ttl < minTTL then ttl else minTTL)))"

text \<open>The loop that collects the targets of the CNAME records of the current name.\<close>

fun cname_targets :: "gostring \<Rightarrow> rr list \<Rightarrow> gostring list \<Rightarrow> gostring set \<Rightarrow> gostring list" where
  "cname_targets cur [] targets seenTarget = targets"
| "cname_targets cur (r # rs) targets seenTarget =
     (case r of
        RR_CNAME h target \<Rightarrow>
          (if \<not> equal_fold (hdr_name h) cur then cname_targets cur rs targets seenTarget
           else let t = chase_normalize target
                in if t \<noteq> [] \<and> t \<notin> seenTarget
                   then cname_targets cur rs (targets @ [t]) (insert t seenTarget)
                   else cname_targets cur rs targets seenTarget)
      | _ \<Rightarrow> cname_targets cur rs targets seenTarget)"

text \<open>
  The query of a hop. \<^verbatim>\<open>SetQuestion\<close> also draws an identifier at random; it is the library's choice, here a function of the
  question, and no definition reads it.
\<close>

definition chase_query :: "dns_lib \<Rightarrow> gostring \<Rightarrow> u16 \<Rightarrow> u16 \<Rightarrow> msg" where
  "chase_query lib cur qtype udpSize =
     set_edns0 lib ((set_question lib new_msg cur qtype)\<lparr>m_rd := True\<rparr>) udpSize False"

text \<open>
  The part of an iteration after a reply: a final result (\<^verbatim>\<open>return res\<close>) or the CNAME targets to
  follow.
\<close>

definition hop_reply :: "dns_lib \<Rightarrow> u16 \<Rightarrow> gostring \<Rightarrow> policy_result \<Rightarrow> msg \<Rightarrow> policy_result + gostring list" where
  "hop_reply lib qtype cur res resp =
     (if m_rcode resp = RcodeSuccess then
        (case answer_addrs qtype (m_answer resp) [] 0 of (addrs, minTTL) \<Rightarrow>
           (if length addrs > 0
            then Inl (res\<lparr>res_state := StateAnswer, res_addrs := dedupAddrs addrs, MinTTL := minTTL\<rparr>)
            else let targets = cname_targets cur (m_answer resp) [] {}
                 in if length targets = 0
                    then Inl (res\<lparr>res_state := StateNoData, res_soa := extractSOA resp\<rparr>)
                    else Inr targets))
      else if m_rcode resp = RcodeNameError
      then Inl (res\<lparr>res_state := StateNXDomain, res_soa := extractSOA resp\<rparr>)
      else Inl (res\<lparr>res_state := StateFailure, ErrCategory := ''rcode-'' @ rcode_string lib (m_rcode resp)\<rparr>))"

definition failed :: "policy_result \<Rightarrow> gostring \<Rightarrow> policy_result" where
  "failed res cat = res\<lparr>res_state := StateFailure, ErrCategory := cat\<rparr>"

text \<open>The arguments of \<^verbatim>\<open>Chase\<close> that stay fixed along the chain.\<close>

record chase_args =
  ca_addr :: addr_port
  ca_qtype :: u16
  ca_maxHops :: int
  ca_attemptTimeout :: int
  ca_udpSize :: u16

text \<open>
  The \<^verbatim>\<open>for len(pending) > 0\<close> loop. Besides the result it returns the client state, the observation
  count and, for the statements below, the names asked so far in order.
\<close>

function chase_loop :: "query_env \<Rightarrow> dns_lib \<Rightarrow> chase_args \<Rightarrow> policy_result \<Rightarrow> nat \<Rightarrow> Client
    \<Rightarrow> gostring list \<Rightarrow> gostring set \<Rightarrow> int \<Rightarrow> gostring list
    \<Rightarrow> policy_result \<times> Client \<times> nat \<times> gostring list" where
  "chase_loop env lib a res t cl [] seen lookups asked =
     (res\<lparr>res_state := StateNoData\<rparr>, cl, t, asked)"
| "chase_loop env lib a res t cl (cur # pending) seen lookups asked =
     (case ctx_err env t of
        Some err \<Rightarrow> (failed res (Category err), cl, Suc t, asked)
      | None \<Rightarrow>
          (if cur \<in> seen then chase_loop env lib a res (Suc t) cl pending seen lookups asked
           else if lookups + 1 > ca_maxHops a then (failed res ''cname-maxdepth'', cl, Suc t, asked)
           else case hopBudget env (Suc t) (ca_attemptTimeout a) of (budget, t1) \<Rightarrow>
             (if budget \<le> 0 then (failed res ''timeout'', cl, t1, asked)
              else case Exchange env t1 cl (ca_addr a)
                          (chase_query lib cur (ca_qtype a) (ca_udpSize a)) budget of (cl1, t2, r) \<Rightarrow>
                (case r of
                   Inl err \<Rightarrow> (failed res (Category err), cl1, t2, asked @ [cur])
                 | Inr resp \<Rightarrow>
                     (case hop_reply lib (ca_qtype a) cur res resp of
                        Inl final \<Rightarrow> (final, cl1, t2, asked @ [cur])
                      | Inr targets \<Rightarrow>
                          chase_loop env lib a res t2 cl1
                            (pending @ filter (\<lambda>x. x \<notin> insert cur seen) targets)
                            (insert cur seen) (lookups + 1) (asked @ [cur]))))))"
  by pat_completeness auto
termination
  by (relation "measures [\<lambda>(env, lib, a, res, t, cl, pending, seen, lookups, asked). nat (ca_maxHops a - lookups),
      \<lambda>(env, lib, a, res, t, cl, pending, seen, lookups, asked). length pending]") auto

definition empty_result :: "addr \<Rightarrow> policy_result" where
  "empty_result srv = \<lparr>Server = srv, ServerChina = False, res_addrs = [], res_state = StateFailure,
     res_soa = None, MinTTL = 0, ErrCategory = []\<rparr>"

definition Chase :: "query_env \<Rightarrow> dns_lib \<Rightarrow> chase_args \<Rightarrow> Client \<Rightarrow> gostring
    \<Rightarrow> policy_result \<times> Client \<times> nat \<times> gostring list" where
  "Chase env lib a cl qname =
     chase_loop env lib a (empty_result (ap_addr (ca_addr a))) 0 cl [chase_normalize qname] {} 0 []"

section \<open>The loops\<close>

lemma dedupAddrs_loop_eq: "dedupAddrs_loop seen out as = dedup_loop seen out as"
  by (induction as arbitrary: seen out) auto

lemma dedupAddrs_dedup: "dedupAddrs as = dedup as"
  by (simp add: dedupAddrs_def dedup_def dedupAddrs_loop_eq)

interpretation up_dedup: stable_dedup dedupAddrs
  by unfold_locales (simp_all add: dedupAddrs_dedup pol_dedup.dd_Nil pol_dedup.dd_snoc)

interpretation up_norm: name_normalizer chase_normalize
proof unfold_locales
  fix s
  show "chase_normalize (to_lower s) = chase_normalize s"
    by (simp add: chase_normalize_def trim_space_lower trim_suffix_dot_lower)
  show "chase_normalize (trim_space s) = chase_normalize s"
    by (simp add: chase_normalize_def)
  show "trimmed s \<Longrightarrow> \<not> suffix ''.'' s \<Longrightarrow> chase_normalize (s @ ''.'') = chase_normalize s"
    by (simp add: chase_normalize_def trim_space_snoc_dot trim_space_id)
qed

lemma chase_normalize_nonempty [simp]: "chase_normalize s \<noteq> []"
  by (simp add: chase_normalize_def)

definition usable :: "u16 \<Rightarrow> rr \<Rightarrow> bool" where
  "usable qtype r \<longleftrightarrow> hdr_rrtype (rr_hdr r) = qtype \<and> snd (rrAddr r)"

lemma answer_addrs_fst:
  "fst (answer_addrs qtype rs addrs m) = addrs @ map (fst \<circ> rrAddr) (filter (usable qtype) rs)"
  by (induction qtype rs addrs m rule: answer_addrs.induct)
    (auto simp: usable_def Let_def split: prod.splits)

text \<open>The TTLs the loop sees, and its update of \<^verbatim>\<open>minTTL\<close>.\<close>

definition usable_ttls :: "u16 \<Rightarrow> rr list \<Rightarrow> u32 list" where
  "usable_ttls qtype rs = map (hdr_ttl \<circ> rr_hdr) (filter (usable qtype) rs)"

definition ttl_step :: "u32 \<Rightarrow> u32 \<Rightarrow> u32" where
  "ttl_step ttl m = (if m = 0 \<or> ttl < m then ttl else m)"

lemma answer_addrs_snd: "snd (answer_addrs qtype rs addrs m) = fold ttl_step (usable_ttls qtype rs) m"
  by (induction qtype rs addrs m rule: answer_addrs.induct)
    (auto simp: usable_ttls_def usable_def ttl_step_def Let_def split: prod.splits)

lemma fold_ttl_step_pos:
  "m \<noteq> 0 \<Longrightarrow> 0 \<notin> set ts \<Longrightarrow> fold ttl_step ts m = Min (insert m (set ts)) \<and> fold ttl_step ts m \<noteq> 0"
proof (induction ts arbitrary: m)
  case Nil
  then show ?case by simp
next
  case (Cons t ts)
  have "ttl_step t m = min t m" using Cons.prems by (auto simp: ttl_step_def min_def)
  moreover have "Min (insert m (insert t (set ts))) = Min (insert (min t m) (set ts))"
    by (cases "ts = []") (auto simp: min.left_commute min.commute min.assoc)
  moreover have "min t m \<noteq> 0" using Cons.prems by (auto simp: min_def)
  moreover have "fold ttl_step ts (min t m) = Min (insert (min t m) (set ts)) \<and> fold ttl_step ts (min t m) \<noteq> 0"
    using calculation(3) Cons.prems(2) by (intro Cons.IH) auto
  ultimately show ?case by (metis fold_simps(2) list.set(2))
qed

lemma fold_ttl_step_min: "ts \<noteq> [] \<Longrightarrow> 0 \<notin> set ts \<Longrightarrow> fold ttl_step ts 0 = Min (set ts)"
  using fold_ttl_step_pos [of "hd ts" "tl ts"] by (cases ts) (auto simp: ttl_step_def)

text \<open>What a result of one upstream may look like; the engine and the policy rely on it.\<close>

definition wf_result :: "policy_result \<Rightarrow> bool" where
  "wf_result r \<longleftrightarrow>
     (if res_state r = StateAnswer then res_addrs r \<noteq> [] \<and> distinct (res_addrs r) \<and> res_soa r = None
      else res_addrs r = [] \<and> MinTTL r = 0)
     \<and> (res_state r = StateFailure \<longrightarrow> res_soa r = None) \<and> (\<forall>a\<in>set (res_addrs r). addr_zone a = [])"

lemma rrAddr_zone: "addr_zone (fst (rrAddr r)) = []"
  by (cases r) (auto simp: addr_from_slice_def addr_from16_def unmap_def)

lemma answer_addrs_zone: "answer_addrs qtype rs [] 0 = (addrs, ttl) \<Longrightarrow> a \<in> set addrs \<Longrightarrow> addr_zone a = []"
  using answer_addrs_fst [of qtype rs "[]" 0] rrAddr_zone by auto

definition blank :: "policy_result \<Rightarrow> bool" where
  "blank r \<longleftrightarrow> res_addrs r = [] \<and> res_soa r = None \<and> MinTTL r = 0"

lemma wf_failed: "blank r \<Longrightarrow> wf_result (failed r cat)"
  by (simp add: wf_result_def blank_def failed_def)

lemma wf_hop_reply: "blank res \<Longrightarrow> hop_reply lib qtype cur res resp = Inl final \<Longrightarrow> wf_result final"
  by (auto simp: hop_reply_def wf_result_def blank_def Let_def up_dedup.dd_empty_iff up_dedup.dd_distinct up_dedup.dd_set
      split: if_splits prod.splits dest: answer_addrs_zone)

lemma chase_loop_wf:
  "blank res \<Longrightarrow> wf_result (fst (chase_loop env lib a res t cl pending seen lookups asked))"
proof (induction env lib a res t cl pending seen lookups asked rule: chase_loop.induct)
  case (1 env lib a res t cl seen lookups asked)
  then show ?case by (simp add: wf_result_def blank_def)
next
  case (2 env lib a res t cl cur pending seen lookups asked)
  then show ?case
    by (auto simp: wf_failed wf_hop_reply split: option.splits prod.splits sum.splits)
qed

lemma Chase_wf: "wf_result (fst (Chase env lib a cl qname))"
  unfolding Chase_def by (rule chase_loop_wf) (simp add: blank_def empty_result_def)

text \<open>One hop, with the budget and the reply of its exchange named.\<close>

lemma chase_loop_hop:
  assumes "ctx_err env t = None" "cur \<notin> seen" "lookups + 1 \<le> ca_maxHops a"
    and hb: "hopBudget env (Suc t) (ca_attemptTimeout a) = (budget, t1)"
    and ex: "Exchange env t1 cl (ca_addr a) (chase_query lib cur (ca_qtype a) (ca_udpSize a)) budget = (cl1, t2, rep)"
  shows "chase_loop env lib a res t cl (cur # pending) seen lookups asked =
    (if budget \<le> 0 then (failed res ''timeout'', cl, t1, asked)
     else case rep of Inl err \<Rightarrow> (failed res (Category err), cl1, t2, asked @ [cur])
       | Inr resp \<Rightarrow> (case hop_reply lib (ca_qtype a) cur res resp of
           Inl final \<Rightarrow> (final, cl1, t2, asked @ [cur])
         | Inr targets \<Rightarrow> chase_loop env lib a res t2 cl1
             (pending @ filter (\<lambda>x. x \<notin> insert cur seen) targets)
             (insert cur seen) (lookups + 1) (asked @ [cur])))"
proof -
  have c: "(cur \<in> seen) = False" "(lookups + 1 > ca_maxHops a) = False" using assms by auto
  show ?thesis by (simp only: chase_loop.simps(2) assms(1) c hb ex option.case prod.case if_False)
qed

text \<open>The chain: no name is asked twice and the hop limit holds.\<close>

lemma chase_loop_asked:
  assumes "distinct asked" "set asked = seen" "int (length asked) = lookups" "lookups \<le> max 0 (ca_maxHops a)"
    and "chase_loop env lib a res t cl pending seen lookups asked = (r, cl', t', asked')"
  shows "distinct asked' \<and> int (length asked') \<le> max 0 (ca_maxHops a) \<and> prefix asked asked'"
  using assms
proof (induction env lib a res t cl pending seen lookups asked rule: chase_loop.induct)
  case (1 env lib a res t cl seen lookups asked)
  then show ?case by auto
next
  case (2 env lib a res t cl cur pending seen lookups asked)
  show ?case
  proof (cases "ctx_err env t = None \<and> cur \<notin> seen \<and> lookups + 1 \<le> ca_maxHops a")
    case False
    then show ?thesis using 2 by (auto split: option.splits if_splits)
  next
    case True
    have ok: "distinct (asked @ [cur])" "set (asked @ [cur]) = insert cur seen"
      "int (length (asked @ [cur])) = lookups + 1" "lookups + 1 \<le> max 0 (ca_maxHops a)"
      using 2(3-6) True by auto
    obtain budget t1 where hb: "hopBudget env (Suc t) (ca_attemptTimeout a) = (budget, t1)" by fastforce
    obtain cl1 t2 rep where ex: "Exchange env t1 cl (ca_addr a)
        (chase_query lib cur (ca_qtype a) (ca_udpSize a)) budget = (cl1, t2, rep)"
      by (metis prod_cases3)
    have run: "(if budget \<le> 0 then (failed res ''timeout'', cl, t1, asked)
        else case rep of Inl err \<Rightarrow> (failed res (Category err), cl1, t2, asked @ [cur])
          | Inr resp \<Rightarrow> (case hop_reply lib (ca_qtype a) cur res resp of
              Inl final \<Rightarrow> (final, cl1, t2, asked @ [cur])
            | Inr targets \<Rightarrow> chase_loop env lib a res t2 cl1 (pending @ filter (\<lambda>x. x \<notin> insert cur seen) targets)
                (insert cur seen) (lookups + 1) (asked @ [cur]))) = (r, cl', t', asked')"
      using 2(7) chase_loop_hop [OF _ _ _ hb ex] True by metis
    show ?thesis
    proof (cases "0 < budget \<and> (\<exists>resp ts. rep = Inr resp \<and> hop_reply lib (ca_qtype a) cur res resp = Inr ts)")
      case False
      then have "asked' = asked \<or> asked' = asked @ [cur]"
        using run by (auto split: sum.splits if_splits)
      then show ?thesis using ok 2(3-6) by auto
    next
      case follow: True
      then obtain resp ts where rep: "rep = Inr resp" "hop_reply lib (ca_qtype a) cur res resp = Inr ts"
        by blast
      have "distinct asked' \<and> int (length asked') \<le> max 0 (ca_maxHops a) \<and> prefix (asked @ [cur]) asked'"
        by (rule "2.IH"(2) [OF _ _ _ hb [symmetric] _ ex [symmetric] refl rep])
          (use run True ok follow rep in auto)
      then show ?thesis by (auto simp: prefix_def)
    qed
  qed
qed

declare chase_loop.simps(2) [simp del]

section \<open>An upstream that answers\<close>

text \<open>A client as \<^verbatim>\<open>NewClient\<close> makes it; exchanges only change its timeouts.\<close>

definition transports :: "Client \<Rightarrow> bool" where
  "transports cl \<longleftrightarrow> cl_net (cl_udp cl) = ''udp'' \<and> cl_net (cl_tcp cl) = ''tcp''"

lemma NewClient_transports [simp]: "transports (NewClient n)"
  by (simp add: transports_def NewClient_def)

lemma Exchange_transports: "Exchange env t cl addr q b = (cl', t', r) \<Longrightarrow> transports cl \<Longrightarrow> transports cl'"
  by (auto simp: Exchange_def exchangeNet_def transports_def Let_def split: if_splits sum.splits net_error.splits)

text \<open>
  A healthy upstream: the context stays alive, time remains for every hop, and every exchange for a
  name ends with the same reply, over UDP or, after truncation, over TCP.
\<close>

definition serves :: "query_env \<Rightarrow> dns_lib \<Rightarrow> chase_args \<Rightarrow> (gostring \<Rightarrow> msg) \<Rightarrow> bool" where
  "serves env lib a reply \<longleftrightarrow>
     (\<forall>t. ctx_err env t = None)
     \<and> (\<forall>t cl name. transports cl \<longrightarrow>
          (case hopBudget env t (ca_attemptTimeout a) of (b, t1) \<Rightarrow>
             0 < b \<and> snd (snd (Exchange env t1 cl (ca_addr a) (chase_query lib name (ca_qtype a) (ca_udpSize a)) b)) = Inr (reply name)))"

text \<open>One hop against such an upstream.\<close>

lemma serves_hop:
  assumes "serves env lib a reply" "cur \<notin> seen" "lookups + 1 \<le> ca_maxHops a" "transports cl"
  obtains cl' t' where "transports cl'"
    "\<And>res pending asked. chase_loop env lib a res t cl (cur # pending) seen lookups asked =
       (case hop_reply lib (ca_qtype a) cur res (reply cur) of
          Inl final \<Rightarrow> (final, cl', t', asked @ [cur])
        | Inr targets \<Rightarrow> chase_loop env lib a res t' cl'
            (pending @ filter (\<lambda>x. x \<notin> insert cur seen) targets)
            (insert cur seen) (lookups + 1) (asked @ [cur]))"
proof -
  obtain b t1 where hb: "hopBudget env (Suc t) (ca_attemptTimeout a) = (b, t1)" by fastforce
  obtain cl' t' r where ex: "Exchange env t1 cl (ca_addr a)
      (chase_query lib cur (ca_qtype a) (ca_udpSize a)) b = (cl', t', r)"
    by (metis prod_cases3)
  have "case hopBudget env (Suc t) (ca_attemptTimeout a) of (b, t1) \<Rightarrow> 0 < b \<and>
      snd (snd (Exchange env t1 cl (ca_addr a) (chase_query lib cur (ca_qtype a) (ca_udpSize a)) b)) = Inr (reply cur)"
    by (rule assms(1) [unfolded serves_def, THEN conjunct2, rule_format, OF assms(4)])
  then have r: "r = Inr (reply cur)" "(b \<le> 0) = False" using hb ex by auto
  have "ctx_err env t = None" using assms(1) by (simp add: serves_def)
  from chase_loop_hop [OF this assms(2,3) hb ex]
  have "chase_loop env lib a res t cl (cur # pending) seen lookups asked =
       (case hop_reply lib (ca_qtype a) cur res (reply cur) of
          Inl final \<Rightarrow> (final, cl', t', asked @ [cur])
        | Inr targets \<Rightarrow> chase_loop env lib a res t' cl'
            (pending @ filter (\<lambda>x. x \<notin> insert cur seen) targets)
            (insert cur seen) (lookups + 1) (asked @ [cur]))" for res pending asked
    by (simp only: r sum.case if_False)
  then show thesis using that Exchange_transports [OF ex assms(4)] by blast
qed

text \<open>The result depends on the replies only, not on timing or transport.\<close>

lemma serves_same_loop:
  assumes "serves env lib a reply" "serves env' lib a reply" "transports cl" "transports cl'"
  shows "fst (chase_loop env lib a res t cl pending seen lookups asked) =
    fst (chase_loop env' lib a res t' cl' pending seen lookups asked')"
  using assms(3,4)
proof (induction "nat (ca_maxHops a - lookups)" arbitrary: lookups pending seen t t' cl cl' asked asked' rule: less_induct)
  case less
  then show ?case
  proof (induction pending arbitrary: t t' cl cl')
    case (Cons cur pending)
    have alive: "ctx_err env n = None" "ctx_err env' n = None" for n using assms(1,2) by (simp_all add: serves_def)
    consider "cur \<in> seen" | "cur \<notin> seen" "\<not> lookups + 1 \<le> ca_maxHops a" | "cur \<notin> seen" "lookups + 1 \<le> ca_maxHops a"
      by blast
    then show ?case
    proof cases
      case 1
      then show ?thesis using Cons.IH [OF Cons.prems] alive by (simp add: chase_loop.simps(2))
    next
      case 2
      then show ?thesis using alive by (simp add: chase_loop.simps(2))
    next
      case 3
      obtain cl1 t1 where hop: "transports cl1" "\<And>res pending asked. chase_loop env lib a res t cl (cur # pending) seen lookups asked =
         (case hop_reply lib (ca_qtype a) cur res (reply cur) of
            Inl final \<Rightarrow> (final, cl1, t1, asked @ [cur])
          | Inr targets \<Rightarrow> chase_loop env lib a res t1 cl1 (pending @ filter (\<lambda>x. x \<notin> insert cur seen) targets)
              (insert cur seen) (lookups + 1) (asked @ [cur]))"
        using serves_hop [OF assms(1) 3 Cons.prems(2), where t = t] by blast
      obtain cl2 t2 where hop': "transports cl2" "\<And>res pending asked. chase_loop env' lib a res t' cl' (cur # pending) seen lookups asked =
         (case hop_reply lib (ca_qtype a) cur res (reply cur) of
            Inl final \<Rightarrow> (final, cl2, t2, asked @ [cur])
          | Inr targets \<Rightarrow> chase_loop env' lib a res t2 cl2 (pending @ filter (\<lambda>x. x \<notin> insert cur seen) targets)
              (insert cur seen) (lookups + 1) (asked @ [cur]))"
        using serves_hop [OF assms(2) 3 Cons.prems(3), where t = t'] by blast
      show ?thesis unfolding hop(2) hop'(2) using Cons.prems(1) [OF _ hop(1) hop'(1)] 3 by (simp split: sum.split)
    qed
  qed simp
qed

text \<open>A reply that only points from one name to the next.\<close>

definition cname_link :: "u16 \<Rightarrow> msg \<Rightarrow> gostring \<Rightarrow> gostring \<Rightarrow> bool" where
  "cname_link qtype m cur nxt \<longleftrightarrow>
     m_rcode m = RcodeSuccess
     \<and> (case m_answer m of
          [RR_CNAME h target] \<Rightarrow> hdr_rrtype h \<noteq> qtype \<and> equal_fold (hdr_name h) cur \<and> chase_normalize target = nxt
        | _ \<Rightarrow> False)"

lemma cname_link_hop: "cname_link qtype m cur nxt \<Longrightarrow> hop_reply lib qtype cur res m = Inr [nxt]"
  unfolding cname_link_def
  by (cases "m_answer m"; cases "hd (m_answer m)"; cases "tl (m_answer m)")
    (auto simp: hop_reply_def Let_def)

text \<open>A chain of names, each linked to the next.\<close>

fun cname_chain :: "u16 \<Rightarrow> (gostring \<Rightarrow> msg) \<Rightarrow> gostring list \<Rightarrow> bool" where
  "cname_chain qtype reply (x # y # ns) \<longleftrightarrow> cname_link qtype (reply x) x y \<and> cname_chain qtype reply (y # ns)"
| "cname_chain qtype reply ns \<longleftrightarrow> True"

lemma chain_step:
  assumes "serves env lib a reply" "cname_link (ca_qtype a) (reply x) x y"
    and "x \<notin> seen" "lookups + 1 \<le> ca_maxHops a" "y \<notin> insert x seen" "transports cl"
  obtains cl' t' where "transports cl'" "chase_loop env lib a res t cl [x] seen lookups asked =
      chase_loop env lib a res t' cl' [y] (insert x seen) (lookups + 1) (asked @ [x])"
proof -
  obtain cl' t' where hop: "transports cl'" "\<And>res pending asked. chase_loop env lib a res t cl (x # pending) seen lookups asked =
      (case hop_reply lib (ca_qtype a) x res (reply x) of
          Inl final \<Rightarrow> (final, cl', t', asked @ [x])
        | Inr targets \<Rightarrow> chase_loop env lib a res t' cl' (pending @ filter (\<lambda>x'. x' \<notin> insert x seen) targets)
            (insert x seen) (lookups + 1) (asked @ [x]))"
    using serves_hop [OF assms(1,3,4,6), where t = t] by blast
  then show thesis
    using cname_link_hop [OF assms(2)] assms(5) by (intro that [OF hop(1)]) simp
qed

text \<open>Along a chain that fits the hop limit the loop arrives at its last name.\<close>

lemma chain_walk:
  assumes "serves env lib a reply" "cname_chain (ca_qtype a) reply (ns @ [z])"
    and "distinct (ns @ [z])" "set (ns @ [z]) \<inter> seen = {}" "lookups + int (length ns) \<le> ca_maxHops a" "transports cl"
  shows "\<exists>t' cl'. transports cl' \<and> chase_loop env lib a res t cl [hd (ns @ [z])] seen lookups asked =
      chase_loop env lib a res t' cl' [z] (seen \<union> set ns) (lookups + int (length ns)) (asked @ ns)"
  using assms(2-6)
proof (induction ns arbitrary: seen lookups t cl asked)
  case Nil
  then show ?case by auto
next
  case (Cons x ns)
  define y where "y = hd (ns @ [z])"
  have link: "cname_link (ca_qtype a) (reply x) x y" and rest: "cname_chain (ca_qtype a) reply (ns @ [z])"
    using Cons.prems(1) by (cases ns; simp add: y_def)+
  have fresh: "y \<notin> insert x seen" "x \<notin> seen" using Cons.prems(2,3) by (cases ns; auto simp: y_def)+
  have lim: "lookups + 1 \<le> ca_maxHops a" using Cons.prems(4) by simp
  obtain t1 cl1 where 1: "transports cl1" "chase_loop env lib a res t cl [x] seen lookups asked =
      chase_loop env lib a res t1 cl1 [y] (insert x seen) (lookups + 1) (asked @ [x])"
    using chain_step [OF assms(1) link fresh(2) lim fresh(1) Cons.prems(5)] by metis
  obtain t2 cl2 where "transports cl2" "chase_loop env lib a res t1 cl1 [y] (insert x seen) (lookups + 1) (asked @ [x]) =
      chase_loop env lib a res t2 cl2 [z] (insert x seen \<union> set ns) (lookups + 1 + int (length ns)) ((asked @ [x]) @ ns)"
    using Cons.IH [of "insert x seen" "lookups + 1" cl1 t1 "asked @ [x]"] rest Cons.prems 1(1)
    unfolding y_def by fastforce
  then show ?case using 1 by (auto simp: algebra_simps)
qed

lemma chain_end:
  assumes "serves env lib a reply" "z \<notin> seen" "lookups + 1 \<le> ca_maxHops a" "transports cl"
  shows "hop_reply lib (ca_qtype a) z res (reply z) = Inl final \<Longrightarrow>
      \<exists>cl' t'. chase_loop env lib a res t cl [z] seen lookups asked = (final, cl', t', asked @ [z])"
    and "cname_link (ca_qtype a) (reply z) z x \<Longrightarrow> x \<in> insert z seen \<Longrightarrow>
      \<exists>cl' t'. chase_loop env lib a res t cl [z] seen lookups asked =
        (res\<lparr>res_state := StateNoData\<rparr>, cl', t', asked @ [z])"
proof -
  obtain cl' t' where "transports cl'"
    and run: "\<And>res pending asked. chase_loop env lib a res t cl (z # pending) seen lookups asked =
      (case hop_reply lib (ca_qtype a) z res (reply z) of
          Inl final \<Rightarrow> (final, cl', t', asked @ [z])
        | Inr targets \<Rightarrow> chase_loop env lib a res t' cl' (pending @ filter (\<lambda>x'. x' \<notin> insert z seen) targets)
            (insert z seen) (lookups + 1) (asked @ [z]))"
    using serves_hop [OF assms, where t = t] by blast
  show "\<exists>cl' t'. chase_loop env lib a res t cl [z] seen lookups asked = (final, cl', t', asked @ [z])"
    if "hop_reply lib (ca_qtype a) z res (reply z) = Inl final"
    using run that by simp
  show "\<exists>cl' t'. chase_loop env lib a res t cl [z] seen lookups asked =
      (res\<lparr>res_state := StateNoData\<rparr>, cl', t', asked @ [z])"
    if "cname_link (ca_qtype a) (reply z) z x" "x \<in> insert z seen"
    using run cname_link_hop [OF that(1)] that(2) by auto
qed

lemma chain_too_long:
  assumes "serves env lib a reply" "z \<notin> seen" "ca_maxHops a < lookups + 1"
  shows "chase_loop env lib a res t cl [z] seen lookups asked = (failed res ''cname-maxdepth'', cl, Suc t, asked)"
  using assms by (simp add: serves_def chase_loop.simps(2))

lemma cname_chain_append: "cname_chain qtype reply (xs @ ys) \<Longrightarrow> cname_chain qtype reply xs"
  by (induction qtype reply xs rule: cname_chain.induct) auto

text \<open>A chain longer than the limit is walked up to the limit, one within it up to its last name.\<close>

lemma chain_cut:
  assumes "serves env lib a reply" "cname_chain (ca_qtype a) reply ns" "distinct ns"
    and "0 \<le> ca_maxHops a" "ca_maxHops a < int (length ns)" "transports cl"
  shows "\<exists>cl' t'. chase_loop env lib a res 0 cl [hd ns] {} 0 [] =
      (failed res ''cname-maxdepth'', cl', t', take (nat (ca_maxHops a)) ns)"
proof -
  define k where "k = nat (ca_maxHops a)"
  have k: "k < length ns" "int k = ca_maxHops a" using assms(4,5) by (auto simp: k_def)
  define xs where "xs = take k ns"
  define z where "z = ns ! k"
  have ns: "ns = (xs @ [z]) @ drop (Suc k) ns" using k by (simp add: xs_def z_def id_take_nth_drop)
  have chain: "cname_chain (ca_qtype a) reply (xs @ [z])" using assms(2) ns cname_chain_append by metis
  have dist: "distinct (xs @ [z])" using assms(3) ns distinct_append by metis
  have len: "int (length xs) = ca_maxHops a" using k by (simp add: xs_def)
  have hd: "hd ns = hd (xs @ [z])" by (subst ns) (cases xs; simp)
  obtain t' cl' where "chase_loop env lib a res 0 cl [hd ns] {} 0 [] =
      chase_loop env lib a res t' cl' [z] (set xs) (ca_maxHops a) xs"
    using chain_walk [OF assms(1) chain dist, of "{}" 0 cl res 0 "[]"] len hd assms(6) by auto
  moreover have "z \<notin> set xs" using dist by simp
  ultimately show ?thesis using chain_too_long [OF assms(1), of z "set xs" "ca_maxHops a"]
    by (auto simp: xs_def k_def)
qed

lemma chain_fits:
  assumes "serves env lib a reply" "cname_chain (ca_qtype a) reply (xs @ [z])" "distinct (xs @ [z])"
    and "int (length (xs @ [z])) \<le> ca_maxHops a" "transports cl"
  shows "hop_reply lib (ca_qtype a) z res (reply z) = Inl final \<Longrightarrow>
      \<exists>cl' t'. chase_loop env lib a res 0 cl [hd (xs @ [z])] {} 0 [] = (final, cl', t', xs @ [z])"
    and "cname_link (ca_qtype a) (reply z) z x \<Longrightarrow> x \<in> set (xs @ [z]) \<Longrightarrow>
      \<exists>cl' t'. chase_loop env lib a res 0 cl [hd (xs @ [z])] {} 0 [] =
        (res\<lparr>res_state := StateNoData\<rparr>, cl', t', xs @ [z])"
proof -
  obtain t1 cl1 where walk: "chase_loop env lib a res 0 cl [hd (xs @ [z])] {} 0 [] =
      chase_loop env lib a res t1 cl1 [z] (set xs) (int (length xs)) xs" and t: "transports cl1"
    using chain_walk [OF assms(1-3), of "{}" 0 cl res 0 "[]"] assms(4,5) by auto
  have z: "z \<notin> set xs" and lim: "int (length xs) + 1 \<le> ca_maxHops a" using assms(3,4) by auto
  note fin = chain_end [OF assms(1) z lim t]
  show "\<exists>cl' t'. chase_loop env lib a res 0 cl [hd (xs @ [z])] {} 0 [] = (final, cl', t', xs @ [z])"
    if "hop_reply lib (ca_qtype a) z res (reply z) = Inl final"
    using fin(1) [OF that] unfolding walk .
  show "\<exists>cl' t'. chase_loop env lib a res 0 cl [hd (xs @ [z])] {} 0 [] =
      (res\<lparr>res_state := StateNoData\<rparr>, cl', t', xs @ [z])"
    if "cname_link (ca_qtype a) (reply z) z x" "x \<in> set (xs @ [z])"
    using fin(2) [OF that(1)] that(2) unfolding walk by simp
qed

lemma hop_reply_Server: "hop_reply lib qtype cur res resp = Inl final \<Longrightarrow> Server final = Server res"
  by (auto simp: hop_reply_def Let_def split: if_splits prod.splits)

lemma chase_loop_Server:
  "Server (fst (chase_loop env lib a res t cl pending seen lookups asked)) = Server res"
proof (induction env lib a res t cl pending seen lookups asked rule: chase_loop.induct)
  case (2 env lib a res t cl cur pending seen lookups asked)
  then show ?case
    by (auto simp: chase_loop.simps(2) failed_def hop_reply_Server split: option.splits prod.splits sum.splits)
qed simp

section \<open>Properties\<close>

text \<open>
  C19. Whatever the network and the clock do, \<^verbatim>\<open>Chase\<close> returns. Its result names the upstream asked
  and carries addresses exactly when its state is \<^verbatim>\<open>StateAnswer\<close>, and these are distinct and without zone; a failure
  carries no SOA; the names it asked for are pairwise different and at most \<^verbatim>\<open>maxHops\<close>.
\<close>

theorem Chase_result_shape:
  "case Chase env lib a cl qname of (r, cl', t', asked) \<Rightarrow>
     wf_result r \<and> Server r = ap_addr (ca_addr a)
     \<and> distinct asked \<and> int (length asked) \<le> max 0 (ca_maxHops a)"
proof -
  obtain r cl' t' asked where run: "Chase env lib a cl qname = (r, cl', t', asked)"
    by (metis prod_cases4)
  have "wf_result r" using Chase_wf [of env lib a cl qname] run by simp
  moreover have "distinct asked \<and> int (length asked) \<le> max 0 (ca_maxHops a) \<and> prefix [] asked"
    by (rule chase_loop_asked [OF _ _ _ _ run [unfolded Chase_def]]) simp_all
  moreover have "Server r = ap_addr (ca_addr a)"
    using chase_loop_Server [of env lib a "empty_result (ap_addr (ca_addr a))"] run
    by (metis Chase_def empty_result_def fst_conv policy_result.select_convs(1))
  ultimately show ?thesis using run by simp
qed

text \<open>
  Against an upstream that answers, a chain of CNAME replies is followed name by name. Within the
  hop limit the result is what the reply for the last name gives; if the last name points back into
  the chain the result is NODATA without SOA; a chain longer than the limit is a \<^verbatim>\<open>cname-maxdepth\<close>
  failure after exactly \<^verbatim>\<open>maxHops\<close> queries. In each case the names asked are the chain in order.
\<close>

lemma Chase_follows_chain:
  assumes "serves env lib a reply" "0 \<le> ca_maxHops a"
    and "names \<noteq> []" "hd names = chase_normalize qname" "distinct names"
    and "cname_chain (ca_qtype a) reply names" "transports cl"
  shows "(let r0 = empty_result (ap_addr (ca_addr a));
              (r, cl', t', asked) = Chase env lib a cl qname
          in (int (length names) \<le> ca_maxHops a \<longrightarrow>
                (\<forall>final. hop_reply lib (ca_qtype a) (last names) r0 (reply (last names)) = Inl final \<longrightarrow>
                   r = final \<and> asked = names)
                \<and> (\<forall>x\<in>set names. cname_link (ca_qtype a) (reply (last names)) (last names) x \<longrightarrow>
                     r = r0\<lparr>res_state := StateNoData\<rparr> \<and> asked = names))
             \<and> (ca_maxHops a < int (length names) \<longrightarrow>
                  r = failed r0 ''cname-maxdepth'' \<and> asked = take (nat (ca_maxHops a)) names))"
proof -
  define r0 where "r0 = empty_result (ap_addr (ca_addr a))"
  obtain r cl' t' asked where run: "Chase env lib a cl qname = (r, cl', t', asked)"
    by (metis prod_cases4)
  then have loop: "chase_loop env lib a r0 0 cl [hd names] {} 0 [] = (r, cl', t', asked)"
    by (simp add: Chase_def r0_def assms(4))
  obtain xs z where names: "names = xs @ [z]" using assms(3) by (metis rev_exhaust)
  note fits = chain_fits [OF assms(1) assms(6,5) [unfolded names] _ assms(7), folded names]
  have "r = final \<and> asked = names"
    if "int (length names) \<le> ca_maxHops a" "hop_reply lib (ca_qtype a) z r0 (reply z) = Inl final" for final
    using fits(1) [where res = r0, OF that] loop by auto
  moreover have "r = r0\<lparr>res_state := StateNoData\<rparr> \<and> asked = names"
    if "int (length names) \<le> ca_maxHops a" "cname_link (ca_qtype a) (reply z) z x" "x \<in> set names" for x
    using fits(2) [where res = r0, OF that] loop by auto
  moreover have "r = failed r0 ''cname-maxdepth'' \<and> asked = take (nat (ca_maxHops a)) names"
    if "ca_maxHops a < int (length names)"
    using chain_cut [OF assms(1,6,5,2) that assms(7), of r0] loop by auto
  ultimately show ?thesis using run names by (auto simp: r0_def Let_def)
qed

text \<open>A sample upstream: \<^verbatim>\<open>a.\<close> is an alias of \<^verbatim>\<open>b.\<close>, which has one address.\<close>

definition sample_reply :: "gostring \<Rightarrow> msg" where
  "sample_reply name =
     (if name = ''a.''
      then new_msg\<lparr>m_answer := [RR_CNAME \<lparr>hdr_name = ''A.'', hdr_rrtype = TypeCNAME, hdr_class = ClassINET, hdr_ttl = 60\<rparr> ''B'']\<rparr>
      else new_msg\<lparr>m_answer := [RR_A \<lparr>hdr_name = name, hdr_rrtype = TypeA, hdr_class = ClassINET, hdr_ttl = 300\<rparr> [1, 2, 3, 4]]\<rparr>)"

definition sample_args :: chase_args where
  "sample_args = \<lparr>ca_addr = \<lparr>ap_addr = Addr4 0x08080808, ap_port = 53\<rparr>, ca_qtype = TypeA, ca_maxHops = 8,
     ca_attemptTimeout = 1000000, ca_udpSize = 1232\<rparr>"

definition sample_env :: query_env where
  "sample_env = \<lparr>ctx_err = (\<lambda>_. None), ctx_until = (\<lambda>_. None),
     net_exchange = (\<lambda>_ _ _ q. Inr (sample_reply (q_name (hd (m_question q)))))\<rparr>"

text \<open>
  The addresses a reply contributes are those of its records of the question's type, in order;
  the TTL kept with them is the least of these records' TTLs, provided none of them is zero.
\<close>

theorem answer_addrs_minimum:
  assumes "usable_ttls qtype rs \<noteq> []" "0 \<notin> set (usable_ttls qtype rs)"
  shows "answer_addrs qtype rs [] 0 =
    (map (fst \<circ> rrAddr) (filter (usable qtype) rs), Min (set (usable_ttls qtype rs)))"
  using answer_addrs_fst [of qtype rs "[]" 0] answer_addrs_snd [of qtype rs "[]" 0] fold_ttl_step_min [OF assms]
  by (metis append_Nil prod.collapse)

definition sample_a :: "u32 \<Rightarrow> u8 \<Rightarrow> rr" where
  "sample_a ttl b = RR_A \<lparr>hdr_name = ''a.'', hdr_rrtype = TypeA, hdr_class = ClassINET, hdr_ttl = ttl\<rparr> [1, 2, 3, b]"

text \<open>
  The minimum forgets a zero TTL: zero also means that no TTL has been seen, so after a record with
  TTL 0 the next record's TTL replaces it, and the answer may be cached although a record of it must not.
\<close>

theorem zero_ttl_forgotten:
  "snd (answer_addrs TypeA [sample_a 0 4, sample_a 300 5] [] 0) = 300
   \<and> snd (answer_addrs TypeA [sample_a 300 5, sample_a 0 4] [] 0) = 0"
  by code_simp

text \<open>
  One exchange asks over UDP with the given budget; a reply without the TC bit is returned as it
  is, a truncated one is never returned: the same query goes out once more over TCP, unless the
  context has ended. Nothing is sent when the context has ended before.
\<close>

theorem Exchange_retries_truncated:
  "snd (snd (Exchange env t c addr q b)) =
     (if ctx_err env t \<noteq> None then Inl ErrCanceled
      else case net_exchange env (Suc t) ((cl_udp c)\<lparr>cl_timeout := b\<rparr>) addr q of
             Inl e \<Rightarrow> Inl (if e = NetTimeout then ErrTimeout else ErrNetwork)
           | Inr u \<Rightarrow>
               (if \<not> m_truncated u then Inr u
                else if ctx_err env (t + 2) \<noteq> None then Inl ErrCanceled
                else case net_exchange env (t + 3) ((cl_tcp c)\<lparr>cl_timeout := b\<rparr>) addr q of
                       Inl e \<Rightarrow> Inl (if e = NetTimeout then ErrTimeout else ErrNetwork)
                     | Inr w \<Rightarrow> Inr w))"
proof -
  have e: "(case x of Inl NetTimeout \<Rightarrow> Inl ErrTimeout | Inl NetOther \<Rightarrow> Inl ErrNetwork | Inr r \<Rightarrow> Inr r) =
      (case x of Inl e \<Rightarrow> Inl (if e = NetTimeout then ErrTimeout else ErrNetwork) | Inr r \<Rightarrow> Inr r)"
    for x :: "net_error + msg"
    by (auto split: sum.splits net_error.splits)
  have t: "t + 2 = Suc (Suc t)" "t + 3 = Suc (Suc (Suc t))" by auto
  show ?thesis unfolding t Exchange_def exchangeNet_def Let_def e by (auto split: sum.splits)
qed

text \<open>
  A context that has ended before a hop is reported in the category \<^verbatim>\<open>network\<close>, although the
  category \<^verbatim>\<open>canceled\<close> exists: \<^verbatim>\<open>Category\<close> knows only the errors of \<^verbatim>\<open>Exchange\<close>.
\<close>

theorem ended_context_is_network:
  "fst (Chase (env\<lparr>ctx_err := \<lambda>_. Some CtxCanceled\<rparr>) lib a cl qname) =
     failed (empty_result (ap_addr (ca_addr a))) ''network''"
  by (simp add: Chase_def chase_loop.simps(2))

end
