(* ===== verification/Engine.thy ===== *)
theory Engine
  imports China Overrides Upstream
begin

text \<open>
  Package \<^verbatim>\<open>internal/engine\<close>: the fan-out of a query to all upstreams and the decision when to answer.

  \<^verbatim>\<open>Resolve\<close> runs one goroutine per upstream and a loop that selects between their buffered channel
  and the context. The model is a state machine: the goroutines still running, the channel, what the
  loop has received, and its result once it has returned. A transition is a choice of the scheduler:
  a goroutine finishes, the loop receives, or the loop sees the context's end. Statements about all
  reachable states cover every interleaving.
\<close>

section \<open>Data\<close>

record Assets =
  as_china :: Index
  as_overrides :: OverrideSet

record Upstream =
  up_addr :: addr_port
  InChina :: bool
  up_client :: Client

text \<open>\<^verbatim>\<open>en_onresult\<close> says whether the callback \<^verbatim>\<open>OnResult\<close> is set; its calls are recorded below.\<close>

record Engine =
  en_upstreams :: "Upstream list"
  en_attemptTimeout :: int
  en_maxHops :: int
  en_udpSize :: u16
  en_assets :: Assets
  en_onresult :: bool

record Report =
  rep_server :: addr
  rep_state :: State
  rep_latency :: int
  rep_category :: gostring

record Result =
  eng_policy :: gostring
  eng_addrs :: "addr list"
  eng_rcode :: int
  eng_soa :: "soa_rr option"
  eng_ttl :: u32
  Complete :: bool
  Reports :: "Report list"

record outcome =
  oc_result :: policy_result
  oc_latency :: int
  oc_idx :: nat

section \<open>Operations\<close>

definition Engine_New :: "Assets \<Rightarrow> Upstream list \<Rightarrow> int \<Rightarrow> int \<Rightarrow> u16 \<Rightarrow> Engine" where
  "Engine_New assets upstreams attemptTimeout maxHops udpSize =
     \<lparr>en_upstreams = upstreams, en_attemptTimeout = attemptTimeout, en_maxHops = maxHops,
      en_udpSize = udpSize, en_assets = assets, en_onresult = False\<rparr>"

definition UpdateAssets :: "Engine \<Rightarrow> Assets \<Rightarrow> Engine" where
  "UpdateAssets e a = e\<lparr>en_assets := a\<rparr>"

text \<open>The two loops of \<^verbatim>\<open>earlyStable\<close>, over the addresses of a result and over the results.\<close>

fun stable_addrs :: "Assets \<Rightarrow> bool \<Rightarrow> addr list \<Rightarrow> bool \<Rightarrow> bool \<Rightarrow> bool \<times> bool" where
  "stable_addrs assets china [] cnChina ncNonChina = (cnChina, ncNonChina)"
| "stable_addrs assets china (a # as) cnChina ncNonChina =
     (let isCN = Contains (as_china assets) a
      in stable_addrs assets china as (if china \<and> isCN then True else cnChina)
           (if \<not> china \<and> \<not> isCN then True else ncNonChina))"

fun stable_results :: "Assets \<Rightarrow> policy_result list \<Rightarrow> bool \<Rightarrow> bool \<Rightarrow> bool \<times> bool" where
  "stable_results assets [] cnChina ncNonChina = (cnChina, ncNonChina)"
| "stable_results assets (r # rs) cnChina ncNonChina =
     (if res_state r \<noteq> StateAnswer then stable_results assets rs cnChina ncNonChina
      else case stable_addrs assets (ServerChina r) (res_addrs r) cnChina ncNonChina of
             (c, n) \<Rightarrow> stable_results assets rs c n)"

definition earlyStable :: "Assets \<Rightarrow> gostring \<Rightarrow> policy_result list \<Rightarrow> bool" where
  "earlyStable assets qname results =
     (case stable_results assets results False False of (cnChina, ncNonChina) \<Rightarrow> cnChina \<and> ncNonChina)"

fun has_answer :: "policy_result list \<Rightarrow> bool" where
  "has_answer [] = False"
| "has_answer (r # rs) = (if res_state r = StateAnswer then True else has_answer rs)"

definition finalize :: "Assets \<Rightarrow> gostring \<Rightarrow> policy_result list \<Rightarrow> Report list \<Rightarrow> bool \<Rightarrow> Result" where
  "finalize assets qname results reports complete =
     (let out = \<lparr>eng_policy = [], eng_addrs = [], eng_rcode = 0, eng_soa = None, eng_ttl = 0,
                 Complete = complete, Reports = reports\<rparr>
      in if has_answer results then
           (let sel = Select qname results (Contains (as_china assets)) (Match (as_overrides assets))
            in out\<lparr>eng_policy := sel_policy sel, eng_addrs := sel_addrs sel, eng_rcode := RcodeSuccess,
                   eng_ttl := fst (SelectTTL (sel_addrs sel) results)\<rparr>)
         else case FinalizeNegative results of (rcode, soa, ok) \<Rightarrow>
           (if ok then out\<lparr>eng_rcode := rcode, eng_soa := soa\<rparr>
            else out\<lparr>eng_rcode := RcodeServerFailure\<rparr>))"

section \<open>Resolve\<close>

text \<open>The body of the goroutine for upstream \<^verbatim>\<open>i\<close>, in the environment that upstream meets.\<close>

definition ask_upstream :: "dns_lib \<Rightarrow> Engine \<Rightarrow> gostring \<Rightarrow> u16 \<Rightarrow> query_env \<Rightarrow> nat \<Rightarrow> policy_result" where
  "ask_upstream lib e qname qtype env i =
     (let u = en_upstreams e ! i;
          r = fst (Chase env lib
                \<lparr>ca_addr = up_addr u, ca_qtype = qtype, ca_maxHops = en_maxHops e,
                 ca_attemptTimeout = en_attemptTimeout e, ca_udpSize = en_udpSize e\<rparr> (up_client u) qname)
      in r\<lparr>Server := ap_addr (up_addr u), ServerChina := InChina u\<rparr>)"

text \<open>What stays fixed during one \<^verbatim>\<open>Resolve\<close>: \<^verbatim>\<open>fan_assets\<close> is the snapshot taken at its start.\<close>

record fan =
  fan_lib :: dns_lib
  fan_engine :: Engine
  fan_assets :: Assets
  fan_qname :: gostring
  fan_qtype :: u16
  fan_env :: "nat \<Rightarrow> query_env"

record fan_state =
  running :: "nat set"
  chan :: "outcome list"
  results :: "policy_result list"
  reports :: "Report list"
  on_result :: "(nat \<times> State \<times> gostring) list"
  returned :: "Result option"

datatype choice = Finish nat int | Receive | CtxDone

abbreviation fan_n :: "fan \<Rightarrow> nat" where
  "fan_n f \<equiv> length (en_upstreams (fan_engine f))"

definition fan_start :: "dns_lib \<Rightarrow> Engine \<Rightarrow> gostring \<Rightarrow> u16 \<Rightarrow> (nat \<Rightarrow> query_env) \<Rightarrow> fan" where
  "fan_start lib e qname qtype envs = \<lparr>fan_lib = lib, fan_engine = e, fan_assets = en_assets e,
     fan_qname = qname, fan_qtype = qtype, fan_env = envs\<rparr>"

definition fan_init :: "fan \<Rightarrow> fan_state" where
  "fan_init f = \<lparr>running = {0..<fan_n f}, chan = [], results = [], reports = [], on_result = [],
     returned = (if 0 < fan_n f then None else Some (finalize (fan_assets f) (fan_qname f) [] [] True))\<rparr>"

definition fan_answer :: "fan \<Rightarrow> nat \<Rightarrow> policy_result" where
  "fan_answer f i = ask_upstream (fan_lib f) (fan_engine f) (fan_qname f) (fan_qtype f) (fan_env f i) i"

text \<open>The receiving case of the \<^verbatim>\<open>select\<close>.\<close>

definition receive :: "fan \<Rightarrow> outcome \<Rightarrow> fan_state \<Rightarrow> fan_state" where
  "receive f oc s =
     (let r = oc_result oc;
          log = (if en_onresult (fan_engine f)
                 then on_result s @ [(oc_idx oc, res_state r, ErrCategory r)] else on_result s);
          rs = results s @ [r];
          rep = reports s @ [\<lparr>rep_server = Server r, rep_state = res_state r, rep_latency = oc_latency oc,
                               rep_category = ErrCategory r\<rparr>];
          ret = (if length rs = fan_n f then Some (finalize (fan_assets f) (fan_qname f) rs rep True)
                 else if earlyStable (fan_assets f) (fan_qname f) rs
                 then Some (finalize (fan_assets f) (fan_qname f) rs rep False)
                 else None)
      in s\<lparr>results := rs, reports := rep, on_result := log, returned := ret\<rparr>)"

text \<open>A send on the channel needs room in its buffer of size \<^verbatim>\<open>n\<close>; the loop acts until it has returned.\<close>

fun fan_do :: "fan \<Rightarrow> choice \<Rightarrow> fan_state \<Rightarrow> fan_state option" where
  "fan_do f (Finish i latency) s =
     (if i \<in> running s \<and> length (chan s) < fan_n f
      then Some (s\<lparr>running := running s - {i},
                   chan := chan s @ [\<lparr>oc_result = fan_answer f i, oc_latency = latency, oc_idx = i\<rparr>]\<rparr>)
      else None)"
| "fan_do f Receive s =
     (case returned s of
        Some _ \<Rightarrow> None
      | None \<Rightarrow> (case chan s of [] \<Rightarrow> None | oc # rest \<Rightarrow> Some (receive f oc (s\<lparr>chan := rest\<rparr>))))"
| "fan_do f CtxDone s =
     (case returned s of
        Some _ \<Rightarrow> None
      | None \<Rightarrow> Some (s\<lparr>returned := Some (finalize (fan_assets f) (fan_qname f) (results s) (reports s) False)\<rparr>))"

fun fan_run :: "fan \<Rightarrow> choice list \<Rightarrow> fan_state \<Rightarrow> fan_state option" where
  "fan_run f [] s = Some s"
| "fan_run f (c # cs) s = (case fan_do f c s of None \<Rightarrow> None | Some s' \<Rightarrow> fan_run f cs s')"

inductive fan_reach :: "fan \<Rightarrow> fan_state \<Rightarrow> bool" for f where
  init: "fan_reach f (fan_init f)"
| step: "fan_reach f s \<Longrightarrow> fan_do f c s = Some s' \<Longrightarrow> fan_reach f s'"

section \<open>The decision\<close>

lemma stable_addrs_eq:
  "stable_addrs assets china as c n =
     (c \<or> (china \<and> (\<exists>a\<in>set as. Contains (as_china assets) a)),
      n \<or> (\<not> china \<and> (\<exists>a\<in>set as. \<not> Contains (as_china assets) a)))"
  by (induction as arbitrary: c n) (auto simp: Let_def)

lemma stable_results_eq:
  "stable_results assets rs c n =
     (c \<or> cn_evidence (Contains (as_china assets)) rs, n \<or> foreign_evidence (Contains (as_china assets)) rs)"
  by (induction rs arbitrary: c n)
    (auto simp: cn_evidence_def foreign_evidence_def stable_addrs_eq)

lemma earlyStable_eq:
  "earlyStable assets q rs \<longleftrightarrow>
     cn_evidence (Contains (as_china assets)) rs \<and> foreign_evidence (Contains (as_china assets)) rs"
  by (simp add: earlyStable_def stable_results_eq)

lemma earlyStable_Nil [simp]: "\<not> earlyStable assets q []"
  by (simp add: earlyStable_eq cn_evidence_def)

lemma has_answer_iff: "has_answer rs \<longleftrightarrow> (\<exists>r\<in>set rs. res_state r = StateAnswer)"
  by (induction rs) auto

lemma finalize_frame [simp]:
  "Complete (finalize assets q rs rep c) = c" "Reports (finalize assets q rs rep c) = rep"
  by (simp_all add: finalize_def Let_def split: prod.splits)

lemma finalize_answer:
  "has_answer rs \<Longrightarrow> finalize assets q rs rep c =
     (let sel = Select q rs (Contains (as_china assets)) (Match (as_overrides assets))
      in \<lparr>eng_policy = sel_policy sel, eng_addrs = sel_addrs sel, eng_rcode = RcodeSuccess, eng_soa = None,
          eng_ttl = fst (SelectTTL (sel_addrs sel) rs), Complete = c, Reports = rep\<rparr>)"
  by (simp add: finalize_def Let_def)

lemma finalize_negative:
  "\<not> has_answer rs \<Longrightarrow>
     eng_addrs (finalize assets q rs rep c) = [] \<and> eng_policy (finalize assets q rs rep c) = []
     \<and> eng_ttl (finalize assets q rs rep c) = 0
     \<and> eng_rcode (finalize assets q rs rep c) = fst (FinalizeNegative rs)
     \<and> eng_soa (finalize assets q rs rep c) = fst (snd (FinalizeNegative rs))"
  by (auto simp: finalize_def FinalizeNegative_def Let_def split: prod.splits)

text \<open>
  What the engine needs of an attempt on one upstream: an answer has addresses. \<^verbatim>\<open>Chase\<close> provides it,
  and naming the server and its class does not change it.
\<close>

locale attempts =
  fixes attempt :: "nat \<Rightarrow> policy_result"
  assumes attempt_wf: "wf_result (attempt i)"
begin

lemma answers_nonempty: "has_answer (map attempt order) \<longleftrightarrow> answers (\<lambda>_. True) (map attempt order) \<noteq> []"
proof (induction order)
  case Nil
  then show ?case by simp
next
  case (Cons i order)
  then show ?case using attempt_wf [of i] by (simp add: wf_result_def split: if_splits)
qed

lemma answer_addresses:
  "eng_addrs (finalize assets q (map attempt order) rep c) \<noteq> [] \<longleftrightarrow> has_answer (map attempt order)"
proof (cases "has_answer (map attempt order)")
  case True
  then show ?thesis
    using answers_nonempty by (simp add: finalize_answer Let_def Select_nonempty)
next
  case False
  then show ?thesis by (simp add: finalize_negative)
qed

lemma answer_from_upstreams:
  assumes "a \<in> set (eng_addrs (finalize assets q (map attempt order) rep c))"
  shows "\<exists>i\<in>set order. res_state (attempt i) = StateAnswer \<and> a \<in> set (res_addrs (attempt i))"
proof -
  have "has_answer (map attempt order)" using assms answer_addresses [of assets q order rep c] by auto
  then have "a \<in> set (answers (\<lambda>_. True) (map attempt order))"
    using assms Select_from_answers by (fastforce simp: finalize_answer Let_def)
  then show ?thesis by (auto simp: set_answers)
qed

lemma answer_zone: "a \<in> set (eng_addrs (finalize assets q (map attempt order) rep c)) \<Longrightarrow> addr_zone a = []"
  using answer_from_upstreams attempt_wf unfolding wf_result_def by blast

end

lemma ask_upstream_wf: "wf_result (ask_upstream lib e q t env i)"
  using Chase_wf by (simp add: ask_upstream_def Let_def wf_result_def)

interpretation fan_up: attempts "fan_answer f" for f
  by unfold_locales (simp add: fan_answer_def ask_upstream_wf)

section \<open>The state machine\<close>

text \<open>
  The invariant: goroutines are accounted for exactly once, as running, queued or received; what was
  received or queued are the attempts of different upstreams; the loop is still going only while
  results are missing and the branch is open; a returned result was computed from what was received.
\<close>

definition fan_inv :: "fan \<Rightarrow> fan_state \<Rightarrow> bool" where
  "fan_inv f s \<longleftrightarrow>
     (\<exists>order. distinct order \<and> set order \<inter> running s = {} \<and> set order \<union> running s = {0..<fan_n f}
        \<and> results s @ map oc_result (chan s) = map (fan_answer f) order)
     \<and> (returned s = None \<longrightarrow>
          length (results s) < fan_n f \<and> \<not> earlyStable (fan_assets f) (fan_qname f) (results s))
     \<and> (\<forall>r. returned s = Some r \<longrightarrow>
          r = finalize (fan_assets f) (fan_qname f) (results s) (reports s) (length (results s) = fan_n f))"

lemma fan_inv_count:
  assumes "fan_inv f s"
  shows "card (running s) + length (chan s) + length (results s) = fan_n f"
proof -
  obtain order where o: "distinct order" "set order \<inter> running s = {}" "set order \<union> running s = {0..<fan_n f}"
    "results s @ map oc_result (chan s) = map (fan_answer f) order"
    using assms by (auto simp: fan_inv_def)
  then have "finite (running s)" by (metis finite_Un finite_atLeastLessThan)
  then have "card (set order) + card (running s) = fan_n f"
    using o by (metis List.finite_set card_Un_disjoint card_atLeastLessThan diff_zero)
  moreover have "length (results s) + length (chan s) = length order"
    using arg_cong [OF o(4), of length] by simp
  ultimately show ?thesis using distinct_card [OF o(1)] by simp
qed

lemma fan_inv_init: "fan_inv f (fan_init f)"
  by (auto simp: fan_inv_def fan_init_def)

lemma fan_inv_finish:
  assumes "fan_inv f s" "fan_do f (Finish i l) s = Some s'"
  shows "fan_inv f s'"
proof -
  have i: "i \<in> running s"
    and s': "s' = s\<lparr>running := running s - {i},
      chan := chan s @ [\<lparr>oc_result = fan_answer f i, oc_latency = l, oc_idx = i\<rparr>]\<rparr>"
    using assms(2) by (auto split: if_splits)
  obtain order where "distinct order" "set order \<inter> running s = {}" "set order \<union> running s = {0..<fan_n f}"
    "results s @ map oc_result (chan s) = map (fan_answer f) order"
    using assms(1) by (auto simp: fan_inv_def)
  then have "distinct (order @ [i]) \<and> set (order @ [i]) \<inter> running s' = {} \<and> set (order @ [i]) \<union> running s' = {0..<fan_n f}
      \<and> results s' @ map oc_result (chan s') = map (fan_answer f) (order @ [i])"
    using i by (auto simp: s')
  then have "\<exists>order. distinct order \<and> set order \<inter> running s' = {} \<and> set order \<union> running s' = {0..<fan_n f}
      \<and> results s' @ map oc_result (chan s') = map (fan_answer f) order"
    by (rule exI)
  moreover have "returned s' = returned s" "results s' = results s" "reports s' = reports s"
    by (simp_all add: s')
  ultimately show ?thesis using assms(1) by (simp add: fan_inv_def)
qed

lemma fan_inv_receive:
  assumes "fan_inv f s" "fan_do f Receive s = Some s'"
  shows "fan_inv f s'"
proof -
  obtain oc rest where s: "returned s = None" "chan s = oc # rest" and s': "s' = receive f oc (s\<lparr>chan := rest\<rparr>)"
    using assms(2) by (auto split: option.splits list.splits)
  have frame: "results s' = results s @ [oc_result oc]" "chan s' = rest" "running s' = running s"
    by (simp_all add: s' receive_def Let_def)
  have ret: "returned s' =
      (if length (results s') = fan_n f \<or> earlyStable (fan_assets f) (fan_qname f) (results s')
       then Some (finalize (fan_assets f) (fan_qname f) (results s') (reports s') (length (results s') = fan_n f))
       else None)"
    by (simp add: s' receive_def Let_def)
  have "length (results s) < fan_n f" using assms(1) s(1) by (auto simp: fan_inv_def)
  then have "length (results s') \<le> fan_n f" by (simp add: frame)
  moreover have "\<exists>order. distinct order \<and> set order \<inter> running s' = {} \<and> set order \<union> running s' = {0..<fan_n f}
      \<and> results s' @ map oc_result (chan s') = map (fan_answer f) order"
    using assms(1) s(2) by (simp add: fan_inv_def frame)
  ultimately show ?thesis unfolding fan_inv_def ret by auto
qed

lemma fan_inv_done:
  assumes "fan_inv f s" "fan_do f CtxDone s = Some s'"
  shows "fan_inv f s'"
  using assms by (auto simp: fan_inv_def split: option.splits)

lemma fan_inv_reach: "fan_reach f s \<Longrightarrow> fan_inv f s"
proof (induction rule: fan_reach.induct)
  case init
  show ?case by (rule fan_inv_init)
next
  case (step s c s')
  then show ?case by (cases c) (auto intro: fan_inv_finish fan_inv_receive fan_inv_done simp del: fan_do.simps)
qed

text \<open>What was received, as attempts of different upstreams.\<close>

lemma received_order:
  assumes "fan_reach f s"
  obtains order where "distinct order" "set order \<subseteq> {0..<fan_n f}" "results s = map (fan_answer f) order"
proof -
  obtain order where "distinct order" "set order \<union> running s = {0..<fan_n f}"
    "results s @ map oc_result (chan s) = map (fan_answer f) order"
    using fan_inv_reach [OF assms] by (auto simp: fan_inv_def)
  then show thesis
    by (intro that [of "take (length (results s)) order"])
      (auto simp: take_map [symmetric] dest: in_set_takeD, metis append_eq_conv_conj)
qed

text \<open>Reports and callbacks follow the results received.\<close>

definition fan_logged :: "fan \<Rightarrow> fan_state \<Rightarrow> bool" where
  "fan_logged f s \<longleftrightarrow>
     map (\<lambda>p. (rep_server p, rep_state p, rep_category p)) (reports s) =
       map (\<lambda>r. (Server r, res_state r, ErrCategory r)) (results s)
     \<and> map snd (on_result s) =
       (if en_onresult (fan_engine f) then map (\<lambda>r. (res_state r, ErrCategory r)) (results s) else [])"

lemma fan_logged_reach: "fan_reach f s \<Longrightarrow> fan_logged f s"
proof (induction rule: fan_reach.induct)
  case init
  show ?case by (simp add: fan_logged_def fan_init_def)
next
  case (step s c s')
  then show ?case
    by (cases c) (auto simp: fan_logged_def receive_def Let_def split: if_splits option.splits list.splits)
qed

lemma fan_run_reach: "fan_reach f s \<Longrightarrow> fan_run f cs s = Some s' \<Longrightarrow> fan_reach f s'"
  by (induction cs arbitrary: s) (auto simp del: fan_do.simps intro: fan_reach.step split: option.splits)

text \<open>Every transition uses up something: a running goroutine, a queued outcome, or the loop itself.\<close>

definition fan_left :: "fan_state \<Rightarrow> nat" where
  "fan_left s = 2 * card (running s) + length (chan s) + (if returned s = None then 1 else 0)"

lemma fan_left_step:
  assumes "fan_do f c s = Some s'" "finite (running s)"
  shows "fan_left s' < fan_left s \<and> finite (running s')"
proof (cases c)
  case (Finish i l)
  then have "i \<in> running s" using assms(1) by (auto split: if_splits)
  then have "card (running s) = Suc (card (running s - {i}))"
    using assms(2) by (rule card.remove [rotated])
  moreover have "s' = s\<lparr>running := running s - {i},
      chan := chan s @ [\<lparr>oc_result = fan_answer f i, oc_latency = l, oc_idx = i\<rparr>]\<rparr>"
    using assms(1) Finish by (auto split: if_splits)
  ultimately show ?thesis using assms(2) by (simp add: fan_left_def)
next
  case Receive
  then show ?thesis using assms
    by (auto simp: fan_left_def receive_def Let_def split: option.splits list.splits)
next
  case CtxDone
  then show ?thesis using assms by (auto simp: fan_left_def split: option.splits)
qed

lemma fan_run_bound: "fan_run f cs s = Some s' \<Longrightarrow> finite (running s) \<Longrightarrow> length cs + fan_left s' \<le> fan_left s"
proof (induction cs arbitrary: s)
  case Nil
  then show ?case by simp
next
  case (Cons c cs)
  then obtain s1 where s1: "fan_do f c s = Some s1" "fan_run f cs s1 = Some s'"
    by (auto simp del: fan_do.simps split: option.splits)
  then show ?case using fan_left_step [OF s1(1) Cons.prems(2)] Cons.IH [OF s1(2)] by auto
qed

lemma fan_never_blocks:
  assumes "fan_reach f s" "i \<in> running s"
  shows "fan_do f (Finish i l) s \<noteq> None"
proof -
  have "running s \<subseteq> {0..<fan_n f}" using fan_inv_reach [OF assms(1)] by (auto simp: fan_inv_def)
  then have "card (running s) > 0" using assms(2) by (metis card_gt_0_iff empty_iff finite_atLeastLessThan finite_subset)
  then show ?thesis using fan_inv_count [OF fan_inv_reach [OF assms(1)]] assms(2) by auto
qed

lemma fan_progress:
  assumes "fan_reach f s" "running s = {}" "returned s = None"
  shows "fan_do f Receive s \<noteq> None"
proof -
  have "length (results s) < fan_n f" using fan_inv_reach [OF assms(1)] assms(3) by (auto simp: fan_inv_def)
  then have "chan s \<noteq> []" using fan_inv_count [OF fan_inv_reach [OF assms(1)]] assms(2) by auto
  then show ?thesis using assms(3) by (auto split: list.splits)
qed

section \<open>A sample run\<close>

text \<open>
  Three upstreams, the first in the classified range. The first two answer, which settles the branch
  while the third is still running.
\<close>

definition sample_env_for :: "u8 list \<Rightarrow> query_env" where
  "sample_env_for ip = \<lparr>ctx_err = (\<lambda>_. None), ctx_until = (\<lambda>_. Some 2000000000),
     net_exchange = (\<lambda>_ _ _ q. Inr (new_msg\<lparr>m_answer := [RR_A \<lparr>hdr_name = ''a.'', hdr_rrtype = TypeA,
        hdr_class = ClassINET, hdr_ttl = 300\<rparr> ip]\<rparr>))\<rparr>"

definition sample_upstream :: "32 word \<Rightarrow> bool \<Rightarrow> Upstream" where
  "sample_upstream w c = \<lparr>up_addr = \<lparr>ap_addr = Addr4 w, ap_port = 53\<rparr>, InChina = c, up_client = NewClient 1232\<rparr>"

definition sample_engine :: Engine where
  "sample_engine = Engine_New
     \<lparr>as_china = Build [\<lparr>p_addr = Addr4 0x01020300, p_bits = 24\<rparr>], as_overrides = Overrides_New [] []\<rparr>
     [sample_upstream 0x72727272 True, sample_upstream 0x08080808 False, sample_upstream 0x09090909 False]
     1000000000 8 1232"

definition sample_fan :: fan where
  "sample_fan = fan_start ref_lib sample_engine ''a.'' TypeA
     (\<lambda>i. sample_env_for (if i = 0 then [1, 2, 3, 4] else [9, 9, 9, 9]))"

definition sample_choices :: "choice list" where
  "sample_choices = [Finish 1 5, Receive, Finish 0 7, Receive]"

lemma sample_fan_run:
  "case fan_run sample_fan sample_choices (fan_init sample_fan) of
     None \<Rightarrow> False
   | Some s \<Rightarrow> (case returned s of
        None \<Rightarrow> False
      | Some r \<Rightarrow> eng_addrs r = [Addr4 0x01020304] \<and> eng_policy r = PolicyPreferChina \<and> eng_ttl r = 300
          \<and> \<not> Complete r \<and> earlyStable (fan_assets sample_fan) (fan_qname sample_fan) (results s)
          \<and> has_answer (results s))"
  by code_simp

lemma sample_fan_state:
  obtains s r where "fan_run sample_fan sample_choices (fan_init sample_fan) = Some s" "fan_reach sample_fan s"
    "returned s = Some r" "eng_addrs r = [Addr4 0x01020304]" "\<not> Complete r"
    "earlyStable (fan_assets sample_fan) (fan_qname sample_fan) (results s)" "has_answer (results s)"
  using sample_fan_run fan_run_reach [OF fan_reach.init]
  by (auto split: option.splits)

section \<open>Properties\<close>

text \<open>
  C10. In every interleaving, \<^verbatim>\<open>Resolve\<close> returns a result computed from the outcomes of different
  upstreams, in the order received, under the assets taken at its start. The result is marked complete
  exactly when every upstream is among them, and has one report per outcome.
\<close>

theorem Resolve_finalizes_received:
  assumes "fan_reach f s" "returned s = Some r"
  shows "\<exists>order. distinct order \<and> set order \<subseteq> {0..<fan_n f} \<and> results s = map (fan_answer f) order
     \<and> r = finalize (fan_assets f) (fan_qname f) (map (fan_answer f) order) (reports s) (set order = {0..<fan_n f})
     \<and> map (\<lambda>p. (rep_server p, rep_state p, rep_category p)) (Reports r) =
         map (\<lambda>i. (Server (fan_answer f i), res_state (fan_answer f i), ErrCategory (fan_answer f i))) order"
proof -
  obtain order where o: "distinct order" "set order \<subseteq> {0..<fan_n f}" "results s = map (fan_answer f) order"
    using received_order [OF assms(1)] .
  have r: "r = finalize (fan_assets f) (fan_qname f) (results s) (reports s) (length (results s) = fan_n f)"
    using fan_inv_reach [OF assms(1)] assms(2) by (simp add: fan_inv_def)
  have "length order = fan_n f \<longleftrightarrow> set order = {0..<fan_n f}"
    using o(1,2) by (metis card_atLeastLessThan card_subset_eq diff_zero distinct_card finite_atLeastLessThan)
  moreover have "map (\<lambda>p. (rep_server p, rep_state p, rep_category p)) (reports s) =
      map (\<lambda>r. (Server r, res_state r, ErrCategory r)) (results s)"
    using fan_logged_reach [OF assms(1)] by (simp add: fan_logged_def)
  ultimately show ?thesis using o r by (intro exI [of _ order]) (simp add: comp_def)
qed

theorem Resolve_finalizes_received_witness:
  "\<exists>s r order. fan_reach sample_fan s \<and> returned s = Some r \<and> eng_addrs r = [Addr4 0x01020304]
     \<and> distinct order \<and> results s = map (fan_answer sample_fan) order"
proof -
  obtain s r where "fan_reach sample_fan s" "returned s = Some r" "eng_addrs r = [Addr4 0x01020304]"
    using sample_fan_state by metis
  then show ?thesis using Resolve_finalizes_received [of sample_fan s r] by blast
qed

text \<open>
  C9. A partial success is never turned into a failure: whenever one of the outcomes received carries
  records, \<^verbatim>\<open>Resolve\<close> answers NOERROR with at least one address, all different and each returned by
  an upstream; otherwise it answers without addresses.
\<close>

theorem Resolve_keeps_partial_success:
  assumes "fan_reach f s" "returned s = Some r"
  shows "(if \<exists>x\<in>set (results s). res_state x = StateAnswer
      then eng_rcode r = RcodeSuccess \<and> eng_addrs r \<noteq> [] \<and> distinct (eng_addrs r)
        \<and> set (eng_addrs r) \<subseteq> (\<Union>x\<in>set (results s). set (res_addrs x))
      else eng_addrs r = [] \<and> eng_rcode r \<in> {RcodeSuccess, RcodeNameError, RcodeServerFailure})"
proof -
  obtain order where o: "results s = map (fan_answer f) order"
    using received_order [OF assms(1)] by metis
  have r: "r = finalize (fan_assets f) (fan_qname f) (map (fan_answer f) order) (reports s) (length (results s) = fan_n f)"
    using fan_inv_reach [OF assms(1)] assms(2) o by (simp add: fan_inv_def)
  show ?thesis
  proof (cases "has_answer (map (fan_answer f) order)")
    case True
    have "eng_rcode r = RcodeSuccess \<and> distinct (eng_addrs r)"
      by (simp add: r finalize_answer [OF True] Let_def Select_distinct)
    moreover have "set (eng_addrs r) \<subseteq> (\<Union>x\<in>set (results s). set (res_addrs x))"
      using fan_up.answer_from_upstreams unfolding r o by fastforce
    ultimately show ?thesis
      using True fan_up.answer_addresses [of "fan_assets f" "fan_qname f" f order] unfolding r o
      by (simp add: has_answer_iff)
  next
    case False
    then show ?thesis
      using finalize_negative [OF False] unfolding r o
      by (auto simp: has_answer_iff FinalizeNegative_def split: prod.splits)
  qed
qed

theorem Resolve_keeps_partial_success_witness:
  "\<exists>s r. fan_reach sample_fan s \<and> returned s = Some r \<and> has_answer (results s) \<and> eng_rcode r = RcodeSuccess"
proof -
  obtain s r where "fan_reach sample_fan s" "returned s = Some r" "has_answer (results s)"
    using sample_fan_state by metis
  then show ?thesis using Resolve_keeps_partial_success [of sample_fan s r] has_answer_iff by metis
qed

text \<open>
  C8. An early answer is the answer: when \<^verbatim>\<open>Resolve\<close> stops because the branch is stable, waiting for
  any further outcomes would have chosen the same policy, and the addresses already returned would
  have come first.
\<close>

theorem Resolve_early_answer_stable:
  assumes "fan_reach f s" "returned s = Some r"
    and "earlyStable (fan_assets f) (fan_qname f) (results s)"
  shows "\<forall>rest reps. let full = finalize (fan_assets f) (fan_qname f) (results s @ rest) reps True
           in eng_policy full = eng_policy r \<and> prefix (eng_addrs r) (eng_addrs full)"
proof -
  have ev: "cn_evidence (Contains (as_china (fan_assets f))) (results s)"
    "foreign_evidence (Contains (as_china (fan_assets f))) (results s)"
    using assms(3) by (simp_all add: earlyStable_eq)
  then have "has_answer (results s)" by (auto simp: cn_evidence_def set_answers has_answer_iff)
  moreover have "r = finalize (fan_assets f) (fan_qname f) (results s) (reports s) (length (results s) = fan_n f)"
    using fan_inv_reach [OF assms(1)] assms(2) by (simp add: fan_inv_def)
  moreover have "has_answer (results s @ rest)" for rest
    using \<open>has_answer (results s)\<close> by (auto simp: has_answer_iff)
  ultimately show ?thesis using Select_stable [OF ev] by (simp add: finalize_answer Let_def)
qed

theorem Resolve_early_answer_stable_witness:
  "\<exists>s r. fan_reach sample_fan s \<and> returned s = Some r \<and> \<not> Complete r
     \<and> (\<forall>rest. prefix [Addr4 0x01020304]
          (eng_addrs (finalize (fan_assets sample_fan) (fan_qname sample_fan) (results s @ rest) [] True)))"
proof -
  obtain s r where "fan_reach sample_fan s" "returned s = Some r" "eng_addrs r = [Addr4 0x01020304]"
    "\<not> Complete r" "earlyStable (fan_assets sample_fan) (fan_qname sample_fan) (results s)"
    using sample_fan_state by metis
  then show ?thesis using Resolve_early_answer_stable [of sample_fan s r] unfolding Let_def by metis
qed

text \<open>
  C11. \<^verbatim>\<open>Resolve\<close> always returns and leaves no goroutine behind: a run has at most 2n+1 transitions,
  a finishing goroutine always finds room in the channel, even after the loop has returned, and where
  no transition is left every goroutine has ended and the result is there.
\<close>

theorem Resolve_terminates:
  assumes "fan_run f cs (fan_init f) = Some s"
  shows "length cs \<le> 2 * fan_n f + 1
    \<and> (\<forall>i l. i \<in> running s \<longrightarrow> fan_do f (Finish i l) s \<noteq> None)
    \<and> ((\<forall>c. fan_do f c s = None) \<longrightarrow> running s = {} \<and> returned s \<noteq> None)"
proof -
  have reach: "fan_reach f s" by (rule fan_run_reach [OF fan_reach.init assms])
  have "length cs + fan_left s \<le> fan_left (fan_init f)"
    by (rule fan_run_bound [OF assms]) (simp add: fan_init_def)
  then have "length cs \<le> 2 * fan_n f + 1" by (simp add: fan_left_def fan_init_def split: if_splits)
  moreover have "running s = {} \<and> returned s \<noteq> None" if "\<forall>c. fan_do f c s = None"
    using that fan_never_blocks [OF reach] fan_progress [OF reach] by (metis all_not_in_conv)
  ultimately show ?thesis using fan_never_blocks [OF reach] by auto
qed

theorem Resolve_terminates_witness:
  "\<exists>s. fan_run sample_fan sample_choices (fan_init sample_fan) = Some s \<and> length sample_choices \<le> 2 * fan_n sample_fan + 1"
proof -
  obtain s where "fan_run sample_fan sample_choices (fan_init sample_fan) = Some s"
    using sample_fan_state by metis
  then show ?thesis using Resolve_terminates [of sample_fan sample_choices s] by blast
qed

end
