(* ===== verification/Cache.thy ===== *)
theory Cache
  imports Dns
begin

text \<open>
  Package \<^verbatim>\<open>internal/cache\<close>, file \<^verbatim>\<open>cache.go\<close>: the LRU cache with expiry.

  The list elements of \<^verbatim>\<open>container/list\<close> are addresses into a heap \<^verbatim>\<open>el_value\<close>, since the map of items
  and the list share them; \<^verbatim>\<open>ll\<close> lists the addresses, most recently used first. Times and durations are
  nanoseconds. The clock is a sequence of readings; \<^verbatim>\<open>c_reads\<close> counts the calls of \<^verbatim>\<open>now\<close> so far. Every
  operation here runs under the cache's mutex, so it is one transition of the state.
\<close>

section \<open>Time\<close>

definition second :: int where [go_consts]: "second = 1000000000"

text \<open>Arithmetic on \<^verbatim>\<open>time.Duration\<close> wraps at 64 bits; \<^verbatim>\<open>Time.Sub\<close> saturates.\<close>

definition int64 :: "int \<Rightarrow> int" where
  "int64 x = sint (word_of_int x :: 64 word)"

definition time_sub :: "int \<Rightarrow> int \<Rightarrow> int" where
  "time_sub t u = max (- (2 ^ 63)) (min (2 ^ 63 - 1) (t - u))"

text \<open>Go's division truncates toward zero.\<close>

definition go_div :: "int \<Rightarrow> int \<Rightarrow> int" where
  "go_div a b = (if (a < 0) = (b < 0) then \<bar>a\<bar> div \<bar>b\<bar> else - (\<bar>a\<bar> div \<bar>b\<bar>))"

section \<open>Data\<close>

record CacheKey =
  key_name :: gostring
  key_qtype :: u16

record Value =
  v_rcode :: int
  v_addrs :: "addr list"
  v_soa :: "soa_rr option"
  v_ttl :: u32
  v_policy :: gostring
  v_expires :: int

record cache_entry =
  ent_key :: CacheKey
  ent_value :: Value

record Cache =
  maxEntries :: int
  ll :: "nat list"
  el_value :: "nat \<Rightarrow> cache_entry"
  el_fresh :: nat
  items :: "CacheKey \<rightharpoonup> nat"
  flights :: "CacheKey \<rightharpoonup> nat"
  c_now :: "nat \<Rightarrow> int"
  c_reads :: nat
  Hits :: int
  Misses :: int
  Evictions :: int

definition zero_value :: Value where
  "zero_value = \<lparr>v_rcode = 0, v_addrs = [], v_soa = None, v_ttl = 0, v_policy = [], v_expires = 0\<rparr>"

section \<open>Operations\<close>

definition IsNegative :: "Value \<Rightarrow> bool" where
  "IsNegative v \<longleftrightarrow> length (v_addrs v) = 0 \<and> v_rcode v \<noteq> RcodeServerFailure"

definition Cache_New :: "int \<Rightarrow> (nat \<Rightarrow> int) \<Rightarrow> Cache" where
  "Cache_New n now =
     \<lparr>maxEntries = n, ll = [], el_value = (\<lambda>_. \<lparr>ent_key = \<lparr>key_name = [], key_qtype = 0\<rparr>, ent_value = zero_value\<rparr>),
      el_fresh = 0, items = Map.empty, flights = Map.empty, c_now = now, c_reads = 0,
      Hits = 0, Misses = 0, Evictions = 0\<rparr>"

text \<open>Reading the clock.\<close>

definition read_now :: "Cache \<Rightarrow> int \<times> Cache" where
  "read_now c = (c_now c (c_reads c), c\<lparr>c_reads := Suc (c_reads c)\<rparr>)"

text \<open>The operations of \<^verbatim>\<open>container/list\<close>; they do nothing on an element that is not in the list.\<close>

definition MoveToFront :: "Cache \<Rightarrow> nat \<Rightarrow> Cache" where
  "MoveToFront c el = (if el \<in> set (ll c) then c\<lparr>ll := el # remove1 el (ll c)\<rparr> else c)"

definition PushFront :: "Cache \<Rightarrow> cache_entry \<Rightarrow> nat \<times> Cache" where
  "PushFront c e =
     (let el = el_fresh c
      in (el, c\<lparr>el_fresh := Suc el, el_value := (el_value c)(el := e), ll := el # ll c\<rparr>))"

definition cache_remove :: "Cache \<Rightarrow> nat \<Rightarrow> Cache" where
  "cache_remove c el =
     c\<lparr>items := (items c)(ent_key (el_value c el) := None), ll := remove1 el (ll c)\<rparr>"

definition count_eviction :: "Cache \<Rightarrow> Cache" where
  "count_eviction c = c\<lparr>Evictions := Evictions c + 1\<rparr>"

text \<open>\<^verbatim>\<open>uint32((remaining + time.Second - 1) / time.Second)\<close>\<close>

definition ceil_seconds :: "int \<Rightarrow> u32" where
  "ceil_seconds remaining = word_of_int (go_div (int64 (int64 (remaining + second) - 1)) second)"

definition Cache_Get :: "Cache \<Rightarrow> CacheKey \<Rightarrow> Cache \<times> Value \<times> bool" where
  "Cache_Get c key =
     (case items c key of
        None \<Rightarrow> (c\<lparr>Misses := Misses c + 1\<rparr>, zero_value, False)
      | Some el \<Rightarrow>
          (let v = ent_value (el_value c el)
           in case read_now c of (now, c) \<Rightarrow>
             (let remaining = time_sub (v_expires v) now
              in if remaining \<le> 0
                 then (let c = count_eviction (cache_remove c el)
                       in (c\<lparr>Misses := Misses c + 1\<rparr>, zero_value, False))
                 else (let c = MoveToFront c el
                       in (c\<lparr>Hits := Hits c + 1\<rparr>, v\<lparr>v_ttl := ceil_seconds remaining\<rparr>, True)))))"

text \<open>The scan of \<^verbatim>\<open>evictLocked\<close> from the back; every comparison reads the clock.\<close>

fun find_victim :: "Cache \<Rightarrow> nat list \<Rightarrow> nat option \<times> Cache" where
  "find_victim c [] = (None, c)"
| "find_victim c (el # els) =
     (case read_now c of (now, c) \<Rightarrow>
        (if \<not> v_expires (ent_value (el_value c el)) > now then (Some el, c) else find_victim c els))"

lemma find_victim_frame:
  "\<exists>n. snd (find_victim c els) = c\<lparr>c_reads := n\<rparr>"
proof (induction els arbitrary: c)
  case Nil
  have "c = c\<lparr>c_reads := c_reads c\<rparr>" by simp
  then show ?case unfolding find_victim.simps snd_conv ..
next
  case (Cons el els)
  obtain n where "snd (find_victim (snd (read_now c)) els) = (snd (read_now c))\<lparr>c_reads := n\<rparr>" using Cons by blast
  then show ?case by (auto simp: read_now_def)
qed

lemma find_victim_in: "fst (find_victim c els) = Some el \<Longrightarrow> el \<in> set els"
  by (induction els arbitrary: c) (auto simp: read_now_def split: if_splits)

text \<open>
  \<^verbatim>\<open>evictLocked\<close>. When the list is empty \<^verbatim>\<open>Back\<close> is nil and \<^verbatim>\<open>remove\<close> panics: the value None. It happens
  only for a negative capacity.
\<close>

definition evict_choice :: "Cache \<Rightarrow> nat option \<times> Cache" where
  "evict_choice c =
     (case find_victim c (rev (ll c)) of (victim, c) \<Rightarrow>
        (case victim of
           Some el \<Rightarrow> (Some el, c)
         | None \<Rightarrow> (if ll c = [] then None else Some (last (ll c)), c)))"

lemma evict_choice_in:
  assumes "evict_choice c = (Some el, c1)"
  shows "el \<in> set (ll c) \<and> (\<exists>n. c1 = c\<lparr>c_reads := n\<rparr>)"
proof -
  obtain vo n where f: "find_victim c (rev (ll c)) = (vo, c\<lparr>c_reads := n\<rparr>)"
    using find_victim_frame [of c "rev (ll c)"] by (metis surjective_pairing)
  then show ?thesis
    using assms find_victim_in [of c "rev (ll c)" el] by (auto simp: evict_choice_def split: option.splits if_splits)
qed

function evictLocked :: "Cache \<Rightarrow> Cache option" where
  "evictLocked c =
     (if int (length (ll c)) > maxEntries c
      then (case evict_choice c of (victim, c1) \<Rightarrow>
              (case victim of
                 None \<Rightarrow> None
               | Some el \<Rightarrow> evictLocked (count_eviction (cache_remove c1 el))))
      else Some c)"
  by pat_completeness auto
termination
proof (relation "measure (\<lambda>c. length (ll c))")
  fix c victim el c1
  assume "maxEntries c < int (length (ll c))" "(victim, c1) = evict_choice c" "victim = Some el"
  then have "el \<in> set (ll c)" "ll c1 = ll c" using evict_choice_in [of c el c1] by auto
  then show "(count_eviction (cache_remove c1 el), c) \<in> measure (\<lambda>c. length (ll c))"
    using length_pos_if_in_set [of el "ll c"]
    by (simp add: count_eviction_def cache_remove_def length_remove1)
qed simp

definition setLocked :: "Cache \<Rightarrow> CacheKey \<Rightarrow> Value \<Rightarrow> Cache option" where
  "setLocked c key v =
     (case read_now c of (now, c) \<Rightarrow>
        (let v = v\<lparr>v_expires := now + int64 (uint (v_ttl v) * second)\<rparr>
         in case items c key of
              Some el \<Rightarrow>
                (let c = c\<lparr>el_value := (el_value c)(el := (el_value c el)\<lparr>ent_value := v\<rparr>)\<rparr>
                 in Some (MoveToFront c el))
            | None \<Rightarrow>
                (case PushFront c \<lparr>ent_key = key, ent_value = v\<rparr> of (el, c) \<Rightarrow>
                   evictLocked (c\<lparr>items := (items c)(key \<mapsto> el)\<rparr>))))"

definition Cache_Set :: "Cache \<Rightarrow> CacheKey \<Rightarrow> Value \<Rightarrow> u32 \<Rightarrow> Cache option" where
  "Cache_Set c key v ttl = setLocked c key (v\<lparr>v_ttl := ttl\<rparr>)"

definition Cache_Len :: "Cache \<Rightarrow> int" where
  "Cache_Len c = int (length (ll c))"

definition Flush :: "Cache \<Rightarrow> Cache" where
  "Flush c = c\<lparr>ll := [], items := Map.empty\<rparr>"

text \<open>The loop of \<^verbatim>\<open>sweep\<close>: the previous element is read before the current one is removed.\<close>

fun sweep_loop :: "Cache \<Rightarrow> int \<Rightarrow> nat list \<Rightarrow> Cache" where
  "sweep_loop c now [] = c"
| "sweep_loop c now (el # els) =
     sweep_loop (if \<not> v_expires (ent_value (el_value c el)) > now
                 then count_eviction (cache_remove c el) else c) now els"

definition sweep :: "Cache \<Rightarrow> Cache" where
  "sweep c = (case read_now c of (now, c) \<Rightarrow> sweep_loop c now (rev (ll c)))"

text \<open>
  \<^verbatim>\<open>RunJanitor\<close> on a sequence of ticks: \<^verbatim>\<open>NewTicker\<close> panics on an interval that is not positive.
\<close>

datatype janitor_event = Tick | JanitorDone

fun janitor_loop :: "janitor_event list \<Rightarrow> Cache \<Rightarrow> Cache" where
  "janitor_loop [] c = c"
| "janitor_loop (JanitorDone # es) c = c"
| "janitor_loop (Tick # es) c = janitor_loop es (sweep c)"

definition RunJanitor :: "Cache \<Rightarrow> int \<Rightarrow> janitor_event list \<Rightarrow> Cache option" where
  "RunJanitor c interval es = (if interval \<le> 0 then None else Some (janitor_loop es c))"

declare evictLocked.simps [simp del]

section \<open>Representation\<close>

text \<open>
  The map of items and the list describe the same entries: the elements of the list are distinct and
  allocated, and the map sends a key to the element of the list that holds it.
\<close>

definition wf_rep :: "nat list \<Rightarrow> nat \<Rightarrow> (nat \<Rightarrow> CacheKey) \<Rightarrow> (CacheKey \<rightharpoonup> nat) \<Rightarrow> bool" where
  "wf_rep els fresh key m \<longleftrightarrow>
     distinct els \<and> (\<forall>el\<in>set els. el < fresh) \<and> (\<forall>k el. m k = Some el \<longleftrightarrow> el \<in> set els \<and> key el = k)"

definition wf_cache :: "Cache \<Rightarrow> bool" where
  "wf_cache c \<longleftrightarrow> wf_rep (ll c) (el_fresh c) (ent_key \<circ> el_value c) (items c)"

definition within :: "Cache \<Rightarrow> bool" where
  "within c \<longleftrightarrow> 0 \<le> maxEntries c \<and> int (length (ll c)) \<le> maxEntries c"

text \<open>The cache as a list of entries, most recently used first.\<close>

definition entries :: "Cache \<Rightarrow> cache_entry list" where
  "entries c = map (el_value c) (ll c)"

definition drop_key :: "CacheKey \<Rightarrow> cache_entry list \<Rightarrow> cache_entry list" where
  "drop_key k es = filter (\<lambda>e. ent_key e \<noteq> k) es"

lemma wf_rep_inj: "wf_rep els fresh key m \<Longrightarrow> x \<in> set els \<Longrightarrow> y \<in> set els \<Longrightarrow> key x = key y \<Longrightarrow> x = y"
  unfolding wf_rep_def by (metis option.inject)

lemma wf_rep_absent: "wf_rep els fresh key m \<Longrightarrow> m k = None \<Longrightarrow> el \<in> set els \<Longrightarrow> key el \<noteq> k"
  unfolding wf_rep_def by (metis option.distinct(1))

lemma wf_rep_remove:
  assumes "wf_rep els fresh key m" "el \<in> set els"
  shows "wf_rep (remove1 el els) fresh key (m(key el := None))"
  using assms wf_rep_inj [OF assms(1)] by (auto simp: wf_rep_def)

lemma wf_rep_front:
  assumes "wf_rep els fresh key m" "el \<in> set els"
  shows "wf_rep (el # remove1 el els) fresh key m"
  using assms by (auto simp: wf_rep_def)

lemma wf_rep_push:
  assumes "wf_rep els fresh key m" "m k = None"
  shows "wf_rep (fresh # els) (Suc fresh) (key(fresh := k)) (m(k \<mapsto> fresh))"
  using assms wf_rep_absent [OF assms] by (auto simp: wf_rep_def)

lemma entries_remove1:
  assumes "wf_cache c" "el \<in> set (ll c)"
  shows "map (el_value c) (remove1 el (ll c)) = drop_key (ent_key (el_value c el)) (entries c)"
proof -
  have inj: "x = y" if "x \<in> set (ll c)" "y \<in> set (ll c)" "ent_key (el_value c x) = ent_key (el_value c y)" for x y
    using wf_rep_inj [OF assms(1) [unfolded wf_cache_def] that(1,2)] that(3) by simp
  have "distinct (ll c)" using assms(1) by (auto simp: wf_cache_def wf_rep_def)
  then have "remove1 el (ll c) = filter (\<lambda>x. x \<noteq> el) (ll c)"
    by (auto simp: distinct_remove1_removeAll removeAll_filter_not_eq intro!: filter_cong)
  also have "\<dots> = filter (\<lambda>x. ent_key (el_value c x) \<noteq> ent_key (el_value c el)) (ll c)"
    using inj assms(2) by (intro filter_cong) auto
  finally show ?thesis by (simp add: drop_key_def entries_def filter_map comp_def)
qed

lemma entries_distinct: "wf_cache c \<Longrightarrow> distinct (map ent_key (entries c))"
proof -
  assume wf: "wf_cache c"
  have "inj_on (ent_key \<circ> el_value c) (set (ll c))"
    by (rule inj_onI) (rule wf_rep_inj [OF wf [unfolded wf_cache_def]])
  then show ?thesis using wf by (simp add: entries_def distinct_map wf_cache_def wf_rep_def)
qed

lemma wf_reads [simp]: "wf_cache (c\<lparr>c_reads := n\<rparr>) = wf_cache c" "within (c\<lparr>c_reads := n\<rparr>) = within c"
  "entries (c\<lparr>c_reads := n\<rparr>) = entries c"
  and wf_counters [simp]: "wf_cache (c\<lparr>Hits := h\<rparr>) = wf_cache c" "wf_cache (c\<lparr>Misses := h\<rparr>) = wf_cache c"
  "wf_cache (count_eviction c) = wf_cache c" "within (c\<lparr>Hits := h\<rparr>) = within c"
  "within (c\<lparr>Misses := h\<rparr>) = within c" "within (count_eviction c) = within c"
  "entries (c\<lparr>Hits := h\<rparr>) = entries c" "entries (c\<lparr>Misses := h\<rparr>) = entries c"
  "entries (count_eviction c) = entries c"
  by (simp_all add: wf_cache_def within_def entries_def count_eviction_def)

lemma within_entries: "within c \<longleftrightarrow> 0 \<le> maxEntries c \<and> int (length (entries c)) \<le> maxEntries c"
  by (simp add: within_def entries_def)

lemma cache_remove_refines:
  assumes "wf_cache c" "el \<in> set (ll c)"
  shows "wf_cache (cache_remove c el)"
    and "entries (cache_remove c el) = drop_key (ent_key (el_value c el)) (entries c)"
    and "maxEntries (cache_remove c el) = maxEntries c"
  using assms wf_rep_remove [of "ll c" _ "ent_key \<circ> el_value c"] entries_remove1 [OF assms]
  by (simp_all add: wf_cache_def entries_def cache_remove_def)

lemma MoveToFront_refines:
  assumes "wf_cache c" "el \<in> set (ll c)"
  shows "wf_cache (MoveToFront c el)"
    and "entries (MoveToFront c el) = el_value c el # drop_key (ent_key (el_value c el)) (entries c)"
    and "maxEntries (MoveToFront c el) = maxEntries c"
  using assms wf_rep_front [of "ll c" _ "ent_key \<circ> el_value c"] entries_remove1 [OF assms]
  by (simp_all add: wf_cache_def entries_def MoveToFront_def)

text \<open>A new entry, linked into the list and the map.\<close>

definition insert_new :: "Cache \<Rightarrow> CacheKey \<Rightarrow> Value \<Rightarrow> Cache" where
  "insert_new c k v =
     (case PushFront c \<lparr>ent_key = k, ent_value = v\<rparr> of (el, c) \<Rightarrow> c\<lparr>items := (items c)(k \<mapsto> el)\<rparr>)"

lemma insert_new_refines:
  assumes "wf_cache c" "items c k = None"
  shows "wf_cache (insert_new c k v)"
    and "entries (insert_new c k v) = \<lparr>ent_key = k, ent_value = v\<rparr> # entries c"
    and "maxEntries (insert_new c k v) = maxEntries c"
proof -
  have "ent_key \<circ> (el_value c)(el_fresh c := \<lparr>ent_key = k, ent_value = v\<rparr>) = (ent_key \<circ> el_value c)(el_fresh c := k)"
    by auto
  then show "wf_cache (insert_new c k v)"
    using wf_rep_push [OF assms(1) [unfolded wf_cache_def] assms(2)]
    by (simp add: wf_cache_def insert_new_def PushFront_def Let_def)
  have "el_fresh c \<notin> set (ll c)" using assms(1) by (auto simp: wf_cache_def wf_rep_def)
  then show "entries (insert_new c k v) = \<lparr>ent_key = k, ent_value = v\<rparr> # entries c"
    by (simp add: entries_def insert_new_def PushFront_def Let_def)
qed (simp add: insert_new_def PushFront_def Let_def)

lemma find_map: "find P (map f xs) = map_option f (find (P \<circ> f) xs)"
  by (induction xs) auto

lemma items_find:
  assumes "wf_cache c"
  shows "find (\<lambda>e. ent_key e = k) (entries c) = map_option (el_value c) (items c k)"
proof (cases "items c k")
  case None
  have "ent_key e \<noteq> k" if "e \<in> set (entries c)" for e
    using wf_rep_absent [OF assms [unfolded wf_cache_def] None] that by (auto simp: entries_def)
  then show ?thesis using None by (simp add: find_None_iff)
next
  case (Some el)
  then have el: "el \<in> set (ll c)" "ent_key (el_value c el) = k"
    using assms by (auto simp: wf_cache_def wf_rep_def)
  have "find (\<lambda>x. ent_key (el_value c x) = k) els = Some el"
    if "set els \<subseteq> set (ll c)" "el \<in> set els" for els
    using that el(2) wf_rep_inj [OF assms [unfolded wf_cache_def] _ el(1)]
    by (induction els) auto
  then have "find (\<lambda>x. ent_key (el_value c x) = k) (ll c) = Some el" using el(1) by blast
  then show ?thesis using Some by (simp add: entries_def find_map comp_def)
qed

section \<open>Eviction\<close>

definition expires :: "cache_entry \<Rightarrow> int" where
  "expires e = v_expires (ent_value e)"

text \<open>The scan, with the reading it makes at each element.\<close>

lemma find_victim_spec:
  assumes "find_victim c els = (vo, c1)"
  shows "\<exists>n. c1 = c\<lparr>c_reads := n\<rparr> \<and> c_reads c \<le> n \<and>
     (case vo of
        None \<Rightarrow> \<forall>i<length els. c_now c (c_reads c + i) < expires (el_value c (els ! i))
      | Some el \<Rightarrow> \<exists>t. c_reads c \<le> t \<and> t < n \<and> expires (el_value c el) \<le> c_now c t)"
  using assms
proof (induction els arbitrary: c)
  case Nil
  then show ?case by (auto intro!: exI [of _ "c_reads c"])
next
  case (Cons el els)
  define c0 where "c0 = c\<lparr>c_reads := Suc (c_reads c)\<rparr>"
  show ?case
  proof (cases "expires (el_value c el) \<le> c_now c (c_reads c)")
    case True
    then have "vo = Some el" "c1 = c\<lparr>c_reads := Suc (c_reads c)\<rparr>"
      using Cons.prems by (auto simp: read_now_def expires_def)
    then show ?thesis using True by (intro exI [of _ "Suc (c_reads c)"]) auto
  next
    case False
    then have "find_victim c0 els = (vo, c1)"
      using Cons.prems by (simp add: read_now_def expires_def c0_def)
    from Cons.IH [OF this] obtain n where n0: "c1 = c0\<lparr>c_reads := n\<rparr>" "c_reads c0 \<le> n"
      "case vo of None \<Rightarrow> \<forall>i<length els. c_now c0 (c_reads c0 + i) < expires (el_value c0 (els ! i))
        | Some el \<Rightarrow> \<exists>t. c_reads c0 \<le> t \<and> t < n \<and> expires (el_value c0 el) \<le> c_now c0 t"
      by blast
    have f0: "c_reads c0 = Suc (c_reads c)" "c_now c0 = c_now c" "el_value c0 = el_value c"
      "c0\<lparr>c_reads := n\<rparr> = c\<lparr>c_reads := n\<rparr>"
      by (simp_all add: c0_def)
    note n = n0 [unfolded f0]
    show ?thesis
    proof (cases vo)
      case None
      have "c_now c (c_reads c + i) < expires (el_value c ((el # els) ! i))" if "i < length (el # els)" for i
        using that n(3) None False by (cases i) auto
      then show ?thesis using n None by (intro exI [of _ n]) auto
    next
      case (Some x)
      then show ?thesis using n by (intro exI [of _ n]) (auto intro: Suc_leD)
    qed
  qed
qed

text \<open>
  The entry an eviction may take from \<^verbatim>\<open>es\<close> while the clock runs from \<^verbatim>\<open>t0\<close> to \<^verbatim>\<open>t1\<close>: an expired one,
  or the least recently used when none had expired.
\<close>

definition evictable :: "int \<Rightarrow> int \<Rightarrow> cache_entry list \<Rightarrow> cache_entry \<Rightarrow> bool" where
  "evictable t0 t1 es e \<longleftrightarrow>
     e \<in> set es \<and> (expires e \<le> t1 \<or> (e = last es \<and> (\<forall>x\<in>set es. t0 < expires x)))"

lemma evict_choice_spec:
  assumes "ll c \<noteq> []" "mono (c_now c)"
  shows "\<exists>el n. evict_choice c = (Some el, c\<lparr>c_reads := n\<rparr>) \<and> c_reads c \<le> n \<and> el \<in> set (ll c)
     \<and> evictable (c_now c (c_reads c)) (c_now c n) (entries c) (el_value c el)"
proof -
  obtain vo c1 where f: "find_victim c (rev (ll c)) = (vo, c1)" by fastforce
  obtain n where n: "c1 = c\<lparr>c_reads := n\<rparr>" "c_reads c \<le> n"
     "case vo of
        None \<Rightarrow> \<forall>i<length (rev (ll c)). c_now c (c_reads c + i) < expires (el_value c (rev (ll c) ! i))
      | Some el \<Rightarrow> \<exists>t. c_reads c \<le> t \<and> t < n \<and> expires (el_value c el) \<le> c_now c t"
    using find_victim_spec [OF f] by blast
  show ?thesis
  proof (cases vo)
    case None
    have "c_now c (c_reads c) < expires (el_value c el)" if "el \<in> set (ll c)" for el
    proof -
      have "el \<in> set (rev (ll c))" using that by simp
      then obtain i where "i < length (rev (ll c))" "rev (ll c) ! i = el" by (auto simp only: in_set_conv_nth)
      then have "c_now c (c_reads c + i) < expires (el_value c el)" using n(3) None by auto
      moreover have "c_now c (c_reads c) \<le> c_now c (c_reads c + i)" using assms(2) by (simp add: monoD)
      ultimately show ?thesis by simp
    qed
    then have "evictable (c_now c (c_reads c)) (c_now c n) (entries c) (el_value c (last (ll c)))"
      using assms(1) by (auto simp: evictable_def entries_def last_map)
    moreover have "evict_choice c = (Some (last (ll c)), c\<lparr>c_reads := n\<rparr>)"
      using f n(1) None assms(1) by (simp add: evict_choice_def)
    ultimately show ?thesis using n(2) assms(1) by (metis last_in_set)
  next
    case (Some el)
    obtain t where "t < n" "expires (el_value c el) \<le> c_now c t" using n(3) Some by auto
    then have "expires (el_value c el) \<le> c_now c n" using assms(2) by (meson less_imp_le monoD order_trans)
    moreover have "el \<in> set (ll c)" using find_victim_in [of c "rev (ll c)" el] f Some by simp
    ultimately have "evictable (c_now c (c_reads c)) (c_now c n) (entries c) (el_value c el)" "el \<in> set (ll c)"
      by (auto simp: evictable_def entries_def)
    moreover have "evict_choice c = (Some el, c\<lparr>c_reads := n\<rparr>)"
      using f n(1) Some by (simp add: evict_choice_def)
    ultimately show ?thesis using n(2) by metis
  qed
qed

lemma evictLocked_within: "within c \<Longrightarrow> evictLocked c = Some c"
  by (simp add: evictLocked.simps [of c] within_def)

text \<open>One entry too many: exactly one is removed.\<close>

lemma evictLocked_one:
  assumes "wf_cache c" "0 \<le> maxEntries c" "int (length (entries c)) = maxEntries c + 1" "mono (c_now c)"
  shows "\<exists>c' e. evictLocked c = Some c' \<and> wf_cache c' \<and> within c' \<and> c_now c' = c_now c \<and> maxEntries c' = maxEntries c
     \<and> c_reads c \<le> c_reads c' \<and> flights c' = flights c \<and> Evictions c' = Evictions c + 1 \<and> Hits c' = Hits c \<and> Misses c' = Misses c
     \<and> entries c' = drop_key (ent_key e) (entries c)
     \<and> evictable (c_now c (c_reads c)) (c_now c (c_reads c')) (entries c) e"
proof -
  have "ll c \<noteq> []" using assms(2,3) by (auto simp: entries_def)
  then obtain el n where el: "evict_choice c = (Some el, c\<lparr>c_reads := n\<rparr>)" "c_reads c \<le> n" "el \<in> set (ll c)"
    "evictable (c_now c (c_reads c)) (c_now c n) (entries c) (el_value c el)"
    using evict_choice_spec [OF _ assms(4)] by blast
  define c1 where "c1 = count_eviction (cache_remove (c\<lparr>c_reads := n\<rparr>) el)"
  have rm: "wf_cache c1" "entries c1 = drop_key (ent_key (el_value c el)) (entries c)" "maxEntries c1 = maxEntries c"
    using cache_remove_refines [of "c\<lparr>c_reads := n\<rparr>" el] assms(1) el(3)
    by (simp_all add: c1_def) (simp add: count_eviction_def)
  have "length (ll c1) = length (ll c) - 1" "length (ll c) > 0"
    using el(3) by (auto simp: c1_def count_eviction_def cache_remove_def length_remove1)
  then have "within c1" using assms(2,3) rm(3) by (auto simp: within_def entries_def)
  moreover have "evictLocked c = evictLocked c1"
    using assms(3) el(1) by (subst evictLocked.simps) (simp add: c1_def entries_def)
  ultimately have "evictLocked c = Some c1" by (simp add: evictLocked_within)
  then show ?thesis using rm \<open>within c1\<close> el(2,4)
    by (intro exI [of _ c1] exI [of _ "el_value c el"])
      (auto simp: c1_def count_eviction_def cache_remove_def)
qed

section \<open>The operations against a list of entries\<close>

lemma int64_id: "- (2 ^ 63) \<le> x \<Longrightarrow> x < 2 ^ 63 \<Longrightarrow> int64 x = x"
  by (simp add: int64_def signed_of_int signed_take_bit_int_eq_self)

lemma ttl_duration: "int64 (uint (ttl :: u32) * second) = uint ttl * second"
proof -
  have "uint ttl < 2 ^ 32" using uint_lt2p [of ttl] by simp
  then have "uint ttl * second < 2 ^ 63" by (simp add: go_consts)
  moreover have "- (2 ^ 63) \<le> (0 :: int)" "0 \<le> uint ttl * second" by (simp_all add: go_consts)
  ultimately show ?thesis by (metis int64_id order_trans)
qed

lemma time_sub_nonpos [simp]: "time_sub t u \<le> 0 \<longleftrightarrow> t \<le> u"
  by (auto simp: time_sub_def)

lemma ceil_seconds_eq:
  assumes "0 < r" "r \<le> second * (2 ^ 32 - 1)"
  shows "uint (ceil_seconds r) = (r + second - 1) div second"
proof -
  have b: "0 < r + second - 1" "r + second < 2 ^ 63" using assms by (simp_all add: go_consts)
  then have "go_div (int64 (int64 (r + second) - 1)) second = (r + second - 1) div second"
    by (simp add: int64_id go_div_def go_consts)
  moreover have "(r + second - 1) div second < 2 ^ 32" "0 \<le> (r + second - 1) div second"
    using assms by (simp_all add: go_consts)
  ultimately show ?thesis by (simp add: ceil_seconds_def uint_word_of_int)
qed

definition lru_get :: "int \<Rightarrow> CacheKey \<Rightarrow> cache_entry list \<Rightarrow> cache_entry list \<times> cache_entry option" where
  "lru_get now k es =
     (case find (\<lambda>e. ent_key e = k) es of
        None \<Rightarrow> (es, None)
      | Some e \<Rightarrow> if expires e \<le> now then (drop_key k es, None) else (e # drop_key k es, Some e))"

text \<open>What is stored for a value written at time \<^verbatim>\<open>t\<close>.\<close>

definition stored :: "int \<Rightarrow> CacheKey \<Rightarrow> Value \<Rightarrow> cache_entry" where
  "stored t k v = \<lparr>ent_key = k, ent_value = v\<lparr>v_expires := t + uint (v_ttl v) * second\<rparr>\<rparr>"

definition lru_put :: "int \<Rightarrow> CacheKey \<Rightarrow> Value \<Rightarrow> cache_entry list \<Rightarrow> cache_entry list" where
  "lru_put t k v es = stored t k v # drop_key k es"

lemma length_drop_key:
  "e \<in> set es \<Longrightarrow> distinct (map ent_key es) \<Longrightarrow> length (drop_key (ent_key e) es) = length es - 1"
proof (induction es)
  case Nil
  then show ?case by simp
next
  case (Cons x es)
  have "length es > 0" if "e \<in> set es" using that by (rule length_pos_if_in_set)
  moreover have "drop_key (ent_key x) es = es" if "ent_key x \<notin> ent_key ` set es"
    using that unfolding drop_key_def filter_id_conv by (metis image_eqI)
  ultimately show ?case using Cons by (auto simp: drop_key_def)
qed

lemma drop_key_absent: "find (\<lambda>e. ent_key e = k) es = None \<Longrightarrow> drop_key k es = es"
  by (auto simp: drop_key_def find_None_iff filter_id_conv)

text \<open>Fields that no operation but its own changes.\<close>

definition same_frame :: "Cache \<Rightarrow> Cache \<Rightarrow> bool" where
  "same_frame c c' \<longleftrightarrow> maxEntries c' = maxEntries c \<and> c_now c' = c_now c \<and> flights c' = flights c
     \<and> c_reads c \<le> c_reads c'"

lemma Cache_Get_refines:
  assumes "wf_cache c" "Cache_Get c k = (c', v, ok)"
  shows "wf_cache c' \<and> same_frame c c' \<and> entries c' = fst (lru_get (c_now c (c_reads c)) k (entries c))
    \<and> (case snd (lru_get (c_now c (c_reads c)) k (entries c)) of
         None \<Rightarrow> \<not> ok \<and> v = zero_value \<and> Misses c' = Misses c + 1 \<and> Hits c' = Hits c
       | Some e \<Rightarrow> ok \<and> v = (ent_value e)\<lparr>v_ttl := ceil_seconds (time_sub (expires e) (c_now c (c_reads c)))\<rparr>
           \<and> Misses c' = Misses c \<and> Hits c' = Hits c + 1)"
proof (cases "items c k")
  case None
  then show ?thesis
    using assms items_find [OF assms(1), of k] by (auto simp: Cache_Get_def lru_get_def same_frame_def)
next
  case (Some el)
  define c1 where "c1 = c\<lparr>c_reads := Suc (c_reads c)\<rparr>"
  have el: "el \<in> set (ll c1)" "ent_key (el_value c1 el) = k" "wf_cache c1"
    using assms(1) Some by (auto simp: c1_def wf_cache_def wf_rep_def)
  have find: "find (\<lambda>e. ent_key e = k) (entries c) = Some (el_value c el)"
    using items_find [OF assms(1), of k] Some by simp
  show ?thesis
  proof (cases "expires (el_value c el) \<le> c_now c (c_reads c)")
    case True
    then have "c' = (count_eviction (cache_remove c1 el))\<lparr>Misses := Misses c + 1\<rparr> \<and> v = zero_value \<and> \<not> ok"
      using assms(2) Some
      by (auto simp: Cache_Get_def read_now_def Let_def expires_def c1_def count_eviction_def cache_remove_def)
    moreover have "Hits (count_eviction (cache_remove c1 el)) = Hits c"
      "same_frame c ((count_eviction (cache_remove c1 el))\<lparr>Misses := Misses c + 1\<rparr>)"
      by (simp_all add: count_eviction_def cache_remove_def c1_def same_frame_def)
    ultimately show ?thesis
      using cache_remove_refines [OF el(3,1)] el(2) True find by (simp add: lru_get_def) (simp add: c1_def)
  next
    case False
    then have "c' = (MoveToFront c1 el)\<lparr>Hits := Hits c + 1\<rparr> \<and> ok
        \<and> v = (ent_value (el_value c el))\<lparr>v_ttl := ceil_seconds (time_sub (expires (el_value c el)) (c_now c (c_reads c)))\<rparr>"
      using assms(2) Some
      by (auto simp: Cache_Get_def read_now_def Let_def expires_def c1_def MoveToFront_def)
    moreover have "Misses (MoveToFront c1 el) = Misses c" "same_frame c ((MoveToFront c1 el)\<lparr>Hits := Hits c + 1\<rparr>)"
      by (simp_all add: MoveToFront_def c1_def same_frame_def)
    ultimately show ?thesis
      using MoveToFront_refines [OF el(3,1)] el(2) False find by (simp add: lru_get_def) (simp add: c1_def)
  qed
qed

lemma setLocked_existing:
  assumes "wf_cache c" "items c k = Some el"
  shows "\<exists>c'. setLocked c k v = Some c' \<and> wf_cache c' \<and> same_frame c c'
    \<and> entries c' = lru_put (c_now c (c_reads c)) k v (entries c) \<and> length (entries c') = length (entries c)"
proof -
  define e where "e = stored (c_now c (c_reads c)) k v"
  define c1 where "c1 = c\<lparr>c_reads := Suc (c_reads c), el_value := (el_value c)(el := e)\<rparr>"
  have el: "el \<in> set (ll c)" "ent_key (el_value c el) = k"
    using assms by (auto simp: wf_cache_def wf_rep_def)
  have e: "e = (el_value c el)\<lparr>ent_value := v\<lparr>v_expires := c_now c (c_reads c) + uint (v_ttl v) * second\<rparr>\<rparr>"
    using el(2) by (simp add: e_def stored_def)
  then have set: "setLocked c k v = Some (MoveToFront c1 el)"
    using assms(2) by (simp add: setLocked_def read_now_def Let_def ttl_duration c1_def)
  have "ent_key \<circ> el_value c1 = ent_key \<circ> el_value c" using el(2) by (auto simp: c1_def e_def stored_def)
  then have wf: "wf_cache c1" using assms(1) by (simp add: wf_cache_def) (simp add: c1_def)
  have "drop_key k (entries c1) = drop_key k (entries c)"
    unfolding drop_key_def entries_def using el(2)
    by (simp add: filter_map c1_def comp_def e_def stored_def) (auto intro!: arg_cong [where f = "map _"] filter_cong)
  then have ents: "entries (MoveToFront c1 el) = e # drop_key k (entries c)"
    using MoveToFront_refines(2) [OF wf, of el] el(1) by (simp add: c1_def e_def stored_def)
  have "length (entries (MoveToFront c1 el)) = length (entries c)"
    using el(1) length_pos_if_in_set [OF el(1)] by (simp add: entries_def MoveToFront_def c1_def length_remove1)
  then show ?thesis
    using set MoveToFront_refines(1) [OF wf, of el] ents el(1)
    by (auto simp: lru_put_def e_def same_frame_def MoveToFront_def c1_def)
qed

lemma setLocked_new:
  assumes "wf_cache c" "within c" "mono (c_now c)" "items c k = None"
  shows "\<exists>c'. setLocked c k v = Some c' \<and> wf_cache c' \<and> within c' \<and> same_frame c c'
    \<and> (let es = lru_put (c_now c (c_reads c)) k v (entries c)
       in if int (length es) \<le> maxEntries c then entries c' = es
          else \<exists>e. evictable (c_now c (c_reads c)) (c_now c (c_reads c')) es e \<and> entries c' = drop_key (ent_key e) es)"
proof -
  define c0 where "c0 = c\<lparr>c_reads := Suc (c_reads c)\<rparr>"
  define e where "e = stored (c_now c (c_reads c)) k v"
  define c1 where "c1 = insert_new c0 k (ent_value e)"
  have set: "setLocked c k v = evictLocked c1"
    using assms(4) by (simp add: setLocked_def read_now_def Let_def ttl_duration c1_def c0_def insert_new_def e_def stored_def
      split: prod.splits)
  have "find (\<lambda>e. ent_key e = k) (entries c) = None" using items_find [OF assms(1), of k] assms(4) by simp
  then have put: "lru_put (c_now c (c_reads c)) k v (entries c) = e # entries c"
    by (simp add: lru_put_def e_def drop_key_absent)
  have c0: "wf_cache c0" "items c0 k = None" "entries c0 = entries c" using assms(1,4) by (simp_all add: c0_def)
  have e: "\<lparr>ent_key = k, ent_value = ent_value e\<rparr> = e" by (simp add: e_def stored_def)
  have c1: "wf_cache c1" "entries c1 = e # entries c" "maxEntries c1 = maxEntries c"
    using insert_new_refines [OF c0(1,2), of "ent_value e"] c0(3) e by (simp_all add: c1_def) (simp add: c0_def)
  have fr: "c_now c1 = c_now c" "c_reads c1 = Suc (c_reads c)" "flights c1 = flights c"
    by (simp_all add: c1_def c0_def insert_new_def PushFront_def Let_def)
  show ?thesis
  proof (cases "int (length (e # entries c)) \<le> maxEntries c")
    case True
    then have "within c1" using assms(2) c1 by (simp add: within_entries)
    then show ?thesis
      using set c1 fr True put by (simp add: evictLocked_within same_frame_def Let_def)
  next
    case False
    then have "int (length (entries c1)) = maxEntries c1 + 1"
      using assms(2) c1 by (simp add: within_entries)
    moreover have "0 \<le> maxEntries c1" "mono (c_now c1)" using assms(2,3) c1(3) fr(1) by (simp_all add: within_def)
    ultimately obtain c' x where c': "evictLocked c1 = Some c'" "wf_cache c'" "within c'" "c_now c' = c_now c1"
      "maxEntries c' = maxEntries c1" "c_reads c1 \<le> c_reads c'" "flights c' = flights c1"
      "entries c' = drop_key (ent_key x) (entries c1)"
      "evictable (c_now c1 (c_reads c1)) (c_now c1 (c_reads c')) (entries c1) x"
      using evictLocked_one [OF c1(1)] by blast
    have "c_now c (c_reads c) \<le> c_now c (Suc (c_reads c))" using assms(3) by (simp add: monoD)
    then have "evictable (c_now c (c_reads c)) (c_now c (c_reads c')) (e # entries c) x"
      using c'(9) fr c1(2) by (fastforce simp: evictable_def)
    then show ?thesis using set c' c1 fr False put by (auto simp: same_frame_def Let_def)
  qed
qed

lemma setLocked_refines:
  assumes "wf_cache c" "within c" "mono (c_now c)"
  shows "\<exists>c'. setLocked c k v = Some c' \<and> wf_cache c' \<and> within c' \<and> same_frame c c'
    \<and> (let es = lru_put (c_now c (c_reads c)) k v (entries c)
       in if int (length es) \<le> maxEntries c then entries c' = es
          else \<exists>e. evictable (c_now c (c_reads c)) (c_now c (c_reads c')) es e \<and> entries c' = drop_key (ent_key e) es)"
proof (cases "items c k")
  case None
  then show ?thesis using setLocked_new [OF assms] by blast
next
  case (Some el)
  obtain c' where c': "setLocked c k v = Some c'" "wf_cache c'" "same_frame c c'"
    "entries c' = lru_put (c_now c (c_reads c)) k v (entries c)" "length (entries c') = length (entries c)"
    using setLocked_existing [OF assms(1) Some] by blast
  then have "within c'" "int (length (entries c')) \<le> maxEntries c"
    using assms(2) by (auto simp: within_entries same_frame_def)
  then show ?thesis using c' by (auto simp: Let_def)
qed

lemma sweep_loop_refines:
  assumes "wf_cache c" "distinct els" "set els \<subseteq> set (ll c)"
  shows "wf_cache (sweep_loop c now els) \<and> same_frame c (sweep_loop c now els)
    \<and> el_value (sweep_loop c now els) = el_value c
    \<and> ll (sweep_loop c now els) = filter (\<lambda>el. el \<in> set els \<longrightarrow> now < expires (el_value c el)) (ll c)"
  using assms
proof (induction els arbitrary: c)
  case Nil
  then show ?case by (simp add: same_frame_def)
next
  case (Cons el els)
  define c1 where "c1 = (if now < expires (el_value c el) then c else count_eviction (cache_remove c el))"
  have d: "distinct (ll c)" using Cons.prems(1) by (simp add: wf_cache_def wf_rep_def)
  have c1: "wf_cache c1" "same_frame c c1" "el_value c1 = el_value c"
    using Cons.prems cache_remove_refines(1) [OF Cons.prems(1), of el]
    by (auto simp: c1_def same_frame_def) (simp_all add: count_eviction_def cache_remove_def)
  have ll: "ll c1 = filter (\<lambda>x. x = el \<longrightarrow> now < expires (el_value c el)) (ll c)"
    using d by (auto simp: c1_def count_eviction_def cache_remove_def distinct_remove1_removeAll
        removeAll_filter_not_eq intro!: filter_cong)
  have "set els \<subseteq> set (ll c1)" using Cons.prems(2,3) by (auto simp: ll)
  then have ih: "wf_cache (sweep_loop c1 now els) \<and> same_frame c1 (sweep_loop c1 now els)
      \<and> el_value (sweep_loop c1 now els) = el_value c1
      \<and> ll (sweep_loop c1 now els) = filter (\<lambda>el. el \<in> set els \<longrightarrow> now < expires (el_value c1 el)) (ll c1)"
    using Cons.IH [OF c1(1)] Cons.prems(2) by simp
  have "sweep_loop c now (el # els) = sweep_loop c1 now els" by (simp add: c1_def expires_def)
  moreover have "same_frame c (sweep_loop c1 now els)" using ih c1(2) by (auto simp: same_frame_def)
  moreover have "filter (\<lambda>x. x \<in> set els \<longrightarrow> now < expires (el_value c x)) (ll c1) =
      filter (\<lambda>x. x \<in> set (el # els) \<longrightarrow> now < expires (el_value c x)) (ll c)"
    by (auto simp: ll intro!: filter_cong)
  ultimately show ?case using ih c1(3) by simp
qed

lemma sweep_refines:
  assumes "wf_cache c"
  shows "wf_cache (sweep c) \<and> same_frame c (sweep c)
    \<and> entries (sweep c) = filter (\<lambda>e. c_now c (c_reads c) < expires e) (entries c)"
proof -
  define c0 where "c0 = c\<lparr>c_reads := Suc (c_reads c)\<rparr>"
  have c0: "wf_cache c0" "distinct (rev (ll c0))" using assms by (simp_all add: c0_def wf_cache_def wf_rep_def)
  have s: "sweep c = sweep_loop c0 (c_now c (c_reads c)) (rev (ll c0))"
    by (simp add: sweep_def read_now_def c0_def)
  have "entries (sweep c) = map (el_value c0) (filter (\<lambda>el. c_now c (c_reads c) < expires (el_value c0 el)) (ll c0))"
    using sweep_loop_refines [OF c0, of "c_now c (c_reads c)"] unfolding s entries_def
    by (auto intro!: arg_cong [where f = "map _"] filter_cong)
  moreover have "wf_cache (sweep c)" "same_frame c0 (sweep c)"
    using sweep_loop_refines [OF c0, of "c_now c (c_reads c)"] unfolding s by auto
  ultimately show ?thesis
    by (auto simp: c0_def same_frame_def entries_def filter_map comp_def)
qed

lemma Flush_refines: "wf_cache (Flush c) \<and> same_frame c (Flush c) \<and> entries (Flush c) = []"
  by (simp add: Flush_def wf_cache_def wf_rep_def same_frame_def entries_def)

lemma Cache_New_wf: "wf_cache (Cache_New n now)" "0 \<le> n \<Longrightarrow> within (Cache_New n now)"
  by (simp_all add: Cache_New_def wf_cache_def wf_rep_def within_def)

lemma frame_within: "within c \<Longrightarrow> same_frame c c' \<Longrightarrow> length (entries c') \<le> length (entries c) \<Longrightarrow> within c'"
  by (auto simp: within_entries same_frame_def)

section \<open>The contract its clients use\<close>

text \<open>
  A store of values: what it holds are values put into it under their key, what a hit returns is a
  value it holds with a positive TTL that has only counted down, and no operation fails.
\<close>

locale value_store =
  fixes good :: "'c \<Rightarrow> bool"
    and content :: "'c \<Rightarrow> (CacheKey \<times> Value) set"
    and get :: "'c \<Rightarrow> CacheKey \<Rightarrow> 'c \<times> Value \<times> bool"
    and put :: "'c \<Rightarrow> CacheKey \<Rightarrow> Value \<Rightarrow> 'c option"
    and clear :: "'c \<Rightarrow> 'c"
    and age :: "'c \<Rightarrow> 'c"
  assumes get_law: "good c \<Longrightarrow> get c k = (c', v, hit) \<Longrightarrow>
      good c' \<and> content c' \<subseteq> content c
      \<and> (hit \<longrightarrow> (\<exists>v0. (k, v0) \<in> content c \<and> v\<lparr>v_expires := 0\<rparr> = v0\<lparr>v_ttl := v_ttl v\<rparr>
            \<and> 0 < v_ttl v \<and> v_ttl v \<le> v_ttl v0))"
    and put_law: "good c \<Longrightarrow> \<exists>c'. put c k v = Some c' \<and> good c' \<and> content c' \<subseteq> insert (k, v\<lparr>v_expires := 0\<rparr>) (content c)"
    and clear_law: "good c \<Longrightarrow> good (clear c) \<and> content (clear c) = {}"
    and age_law: "good c \<Longrightarrow> good (age c) \<and> content (age c) \<subseteq> content c"
begin

text \<open>A property of all values held, for a predicate that does not read the expiry.\<close>

definition holds_only :: "(CacheKey \<Rightarrow> Value \<Rightarrow> bool) \<Rightarrow> 'c \<Rightarrow> bool" where
  "holds_only P c \<longleftrightarrow> good c \<and> (\<forall>(k, v)\<in>content c. P k v)"

lemma get_safe:
  assumes "holds_only P c" "get c k = (c', v, hit)"
  shows "holds_only P c'"
    and "hit \<Longrightarrow> \<exists>v0. P k v0 \<and> v\<lparr>v_expires := 0\<rparr> = v0\<lparr>v_ttl := v_ttl v\<rparr> \<and> 0 < v_ttl v \<and> v_ttl v \<le> v_ttl v0"
  using assms get_law [of c k c' v hit] by (fastforce simp: holds_only_def)+

lemma put_safe:
  assumes "holds_only P c" "P k (v\<lparr>v_expires := 0\<rparr>)"
  obtains c' where "put c k v = Some c'" "holds_only P c'"
  using assms put_law [of c k v] by (fastforce simp: holds_only_def)

lemma clear_safe: "holds_only P c \<Longrightarrow> holds_only P (clear c)"
  using clear_law [of c] by (simp add: holds_only_def)

lemma age_safe: "holds_only P c \<Longrightarrow> holds_only P (age c)"
  using age_law [of c] by (fastforce simp: holds_only_def)

end

text \<open>Expiry times lie at most the stored TTL ahead of the clock.\<close>

definition timed :: "Cache \<Rightarrow> bool" where
  "timed c \<longleftrightarrow> (\<forall>e\<in>set (entries c). expires e \<le> c_now c (c_reads c) + uint (v_ttl (ent_value e)) * second)"

definition cache_ok :: "Cache \<Rightarrow> bool" where
  "cache_ok c \<longleftrightarrow> wf_cache c \<and> within c \<and> mono (c_now c) \<and> timed c"

definition held :: "Cache \<Rightarrow> (CacheKey \<times> Value) set" where
  "held c = (\<lambda>e. (ent_key e, (ent_value e)\<lparr>v_expires := 0\<rparr>)) ` set (entries c)"

lemma timed_sub:
  assumes "timed c" "same_frame c c'" "mono (c_now c)" "set (entries c') \<subseteq> set (entries c)"
  shows "timed c'"
proof -
  have "c_now c (c_reads c) \<le> c_now c' (c_reads c')" using assms(2,3) by (simp add: same_frame_def monoD)
  then have "expires e \<le> c_now c' (c_reads c') + uint (v_ttl (ent_value e)) * second" if "e \<in> set (entries c')" for e
    using assms(1,4) that by (meson add_right_mono order_trans subsetD timed_def)
  then show ?thesis by (simp add: timed_def)
qed

lemma cache_ok_sub:
  assumes "cache_ok c" "wf_cache c'" "same_frame c c'" "set (entries c') \<subseteq> set (entries c)"
  shows "cache_ok c' \<and> held c' \<subseteq> held c"
proof -
  have "length (entries c') = card (set (map ent_key (entries c')))"
    using distinct_card [OF entries_distinct [OF assms(2)]] by simp
  also have "\<dots> \<le> card (set (map ent_key (entries c)))" using assms(4) by (intro card_mono) auto
  also have "\<dots> \<le> length (entries c)" by (metis card_length length_map)
  finally have "length (entries c') \<le> length (entries c)" .
  then have "within c'" using assms(1,3) frame_within [of c c'] unfolding cache_ok_def by blast
  moreover have "mono (c_now c')" using assms(1,3) by (simp add: cache_ok_def same_frame_def)
  ultimately show ?thesis
    using assms timed_sub [of c c'] by (auto simp: cache_ok_def held_def)
qed

lemma set_drop_key: "set (drop_key k es) = {e \<in> set es. ent_key e \<noteq> k}"
  by (auto simp: drop_key_def)

lemma lru_get_set: "set (fst (lru_get now k es)) \<subseteq> set es"
  "snd (lru_get now k es) = Some e \<Longrightarrow> e \<in> set es \<and> ent_key e = k \<and> now < expires e"
  by (auto simp: lru_get_def set_drop_key find_Some_iff split: option.splits if_splits)

lemma held_ttl:
  assumes "timed c" "e \<in> set (entries c)" "c_now c (c_reads c) < expires e"
  defines "r \<equiv> time_sub (expires e) (c_now c (c_reads c))"
  shows "r = expires e - c_now c (c_reads c) \<and> 0 < r \<and> r \<le> second * uint (v_ttl (ent_value e))
    \<and> 0 < ceil_seconds r \<and> ceil_seconds r \<le> v_ttl (ent_value e)"
proof -
  define d where "d = expires e - c_now c (c_reads c)"
  have ttl: "uint (v_ttl (ent_value e)) \<le> 2 ^ 32 - 1" using uint_lt2p [of "v_ttl (ent_value e)"] by simp
  have d: "0 < d" "d \<le> second * uint (v_ttl (ent_value e))"
    using assms(1-3) by (auto simp: timed_def d_def mult.commute)
  then have big: "d \<le> second * (2 ^ 32 - 1)" using ttl by (simp add: go_consts)
  then have r: "r = d" using d by (simp add: r_def time_sub_def d_def go_consts)
  have u: "uint (ceil_seconds d) = (d + second - 1) div second" by (rule ceil_seconds_eq [OF d(1) big])
  have "1 \<le> (d + second - 1) div second" "(d + second - 1) div second \<le> uint (v_ttl (ent_value e))"
    using d by (simp_all add: go_consts)
  then show ?thesis using d r u by (simp add: word_le_def word_less_def d_def)
qed

lemma cache_get_law:
  assumes "cache_ok c" "Cache_Get c k = (c', v, hit)"
  shows "cache_ok c' \<and> held c' \<subseteq> held c
    \<and> (hit \<longrightarrow> (\<exists>v0. (k, v0) \<in> held c \<and> v\<lparr>v_expires := 0\<rparr> = v0\<lparr>v_ttl := v_ttl v\<rparr>
          \<and> 0 < v_ttl v \<and> v_ttl v \<le> v_ttl v0))"
proof -
  define now where "now = c_now c (c_reads c)"
  have wf: "wf_cache c" and tm: "timed c" using assms(1) by (simp_all add: cache_ok_def)
  note ref = Cache_Get_refines [OF wf assms(2), folded now_def]
  have "cache_ok c' \<and> held c' \<subseteq> held c"
    using cache_ok_sub [OF assms(1), of c'] ref lru_get_set(1) [of now k "entries c"] by simp
  moreover have "\<exists>v0. (k, v0) \<in> held c \<and> v\<lparr>v_expires := 0\<rparr> = v0\<lparr>v_ttl := v_ttl v\<rparr> \<and> 0 < v_ttl v \<and> v_ttl v \<le> v_ttl v0"
    if h: hit
  proof -
    obtain e where e: "snd (lru_get now k (entries c)) = Some e"
      "v = (ent_value e)\<lparr>v_ttl := ceil_seconds (time_sub (expires e) now)\<rparr>"
      using ref h by (auto split: option.splits)
    then have in_c: "e \<in> set (entries c)" "ent_key e = k" "now < expires e" using lru_get_set(2) by blast+
    then show ?thesis
      using held_ttl [OF tm in_c(1) in_c(3) [unfolded now_def]] e(2)
      by (intro exI [of _ "(ent_value e)\<lparr>v_expires := 0\<rparr>"]) (auto simp: held_def now_def)
  qed
  ultimately show ?thesis by blast
qed

lemma cache_put_law:
  assumes "cache_ok c"
  shows "\<exists>c'. setLocked c k v = Some c' \<and> cache_ok c' \<and> held c' \<subseteq> insert (k, v\<lparr>v_expires := 0\<rparr>) (held c)"
proof -
  define es where "es = lru_put (c_now c (c_reads c)) k v (entries c)"
  have wf: "wf_cache c" "within c" "mono (c_now c)" "timed c" using assms by (simp_all add: cache_ok_def)
  obtain c' where c': "setLocked c k v = Some c'" "wf_cache c'" "within c'" "same_frame c c'"
    "set (entries c') \<subseteq> set es"
    using setLocked_refines [OF wf(1-3), of k v, folded es_def] by (auto simp: Let_def set_drop_key split: if_splits)
  have es: "set es \<subseteq> insert (stored (c_now c (c_reads c)) k v) (set (entries c))"
    by (auto simp: es_def lru_put_def set_drop_key)
  have le: "c_now c (c_reads c) \<le> c_now c' (c_reads c')" using c'(4) wf(3) by (simp add: same_frame_def monoD)
  have "expires e \<le> c_now c' (c_reads c') + uint (v_ttl (ent_value e)) * second" if "e \<in> set (entries c')" for e
  proof (cases "e = stored (c_now c (c_reads c)) k v")
    case True
    then show ?thesis using le by (simp add: stored_def expires_def)
  next
    case False
    then have "e \<in> set (entries c)" using that c'(5) es by blast
    then show ?thesis using wf(4) le by (meson add_right_mono order_trans timed_def)
  qed
  then have "timed c'" by (simp add: timed_def)
  moreover have "held c' \<subseteq> insert (k, v\<lparr>v_expires := 0\<rparr>) (held c)"
  proof -
    have "held c' \<subseteq> (\<lambda>e. (ent_key e, (ent_value e)\<lparr>v_expires := 0\<rparr>)) ` insert (stored (c_now c (c_reads c)) k v) (set (entries c))"
      unfolding held_def using c'(5) es by blast
    then show ?thesis by (simp add: held_def stored_def)
  qed
  ultimately show ?thesis using c' wf(3) by (simp add: cache_ok_def same_frame_def)
qed

interpretation lru: value_store cache_ok held Cache_Get setLocked Flush sweep
proof unfold_locales
  show "cache_ok (Flush c) \<and> held (Flush c) = {}" if "cache_ok c" for c
    using cache_ok_sub [OF that, of "Flush c"] Flush_refines [of c] by (simp add: held_def)
  show "cache_ok (sweep c) \<and> held (sweep c) \<subseteq> held c" if "cache_ok c" for c
    using cache_ok_sub [OF that, of "sweep c"] sweep_refines [of c] that by (auto simp: cache_ok_def)
qed (fact cache_get_law cache_put_law)+

lemma cache_ok_New: "0 \<le> n \<Longrightarrow> mono now \<Longrightarrow> cache_ok (Cache_New n now)"
  using Cache_New_wf [of n now] by (simp add: cache_ok_def timed_def) (simp add: Cache_New_def entries_def)

section \<open>Sequences of operations\<close>

datatype cache_op = OpGet CacheKey | OpSet CacheKey Value u32 | OpFlush | OpSweep

fun cache_do :: "cache_op \<Rightarrow> Cache \<Rightarrow> Cache option" where
  "cache_do (OpGet k) c = Some (fst (Cache_Get c k))"
| "cache_do (OpSet k v ttl) c = Cache_Set c k v ttl"
| "cache_do OpFlush c = Some (Flush c)"
| "cache_do OpSweep c = Some (sweep c)"

fun cache_run :: "cache_op list \<Rightarrow> Cache \<Rightarrow> Cache option" where
  "cache_run [] c = Some c"
| "cache_run (op # ops) c = (case cache_do op c of None \<Rightarrow> None | Some c' \<Rightarrow> cache_run ops c')"

lemma cache_do_ok:
  assumes "cache_ok c"
  shows "\<exists>c'. cache_do op c = Some c' \<and> cache_ok c' \<and> maxEntries c' = maxEntries c"
proof (cases op)
  case (OpGet k)
  obtain c' v ok where g: "Cache_Get c k = (c', v, ok)" by (metis prod_cases3)
  have "cache_ok c'" using cache_get_law [OF assms g] by simp
  moreover have "same_frame c c'" using Cache_Get_refines [OF _ g] assms by (simp add: cache_ok_def)
  ultimately show ?thesis using g OpGet by (simp add: same_frame_def)
next
  case (OpSet k v ttl)
  obtain c' where "setLocked c k (v\<lparr>v_ttl := ttl\<rparr>) = Some c'" "cache_ok c'" using cache_put_law [OF assms] by metis
  moreover have "maxEntries c' = maxEntries c"
    using setLocked_refines [of c k "v\<lparr>v_ttl := ttl\<rparr>"] assms calculation(1) by (auto simp: cache_ok_def same_frame_def)
  ultimately show ?thesis using OpSet by (simp add: Cache_Set_def)
next
  case OpFlush
  then show ?thesis using lru.clear_law [OF assms] by (simp add: Flush_def)
next
  case OpSweep
  then show ?thesis using lru.age_law [OF assms] sweep_refines [of c] assms by (simp add: cache_ok_def same_frame_def)
qed

lemma cache_run_ok:
  "cache_ok c \<Longrightarrow> \<exists>c'. cache_run ops c = Some c' \<and> cache_ok c' \<and> maxEntries c' = maxEntries c"
proof (induction ops arbitrary: c)
  case Nil
  then show ?case by simp
next
  case (Cons op ops)
  obtain c1 where "cache_do op c = Some c1" "cache_ok c1" "maxEntries c1 = maxEntries c"
    using cache_do_ok [OF Cons.prems] by blast
  then show ?case using Cons.IH [of c1] by simp
qed

lemma put_survives:
  assumes "cache_ok c" "0 < maxEntries c" "setLocked c k v = Some c'"
    and "c_now c' (c_reads c') < c_now c (c_reads c) + uint (v_ttl v) * second"
  shows "\<exists>rest. entries c' = stored (c_now c (c_reads c)) k v # rest"
proof -
  define e where "e = stored (c_now c (c_reads c)) k v"
  define rest where "rest = drop_key k (entries c)"
  have wf: "wf_cache c" "within c" "mono (c_now c)" using assms(1) by (simp_all add: cache_ok_def)
  have put: "lru_put (c_now c (c_reads c)) k v (entries c) = e # rest" by (simp add: lru_put_def e_def rest_def)
  have fr: "c_now c' = c_now c"
    and ents: "if int (length (e # rest)) \<le> maxEntries c then entries c' = e # rest
       else \<exists>x. evictable (c_now c (c_reads c)) (c_now c (c_reads c')) (e # rest) x \<and> entries c' = drop_key (ent_key x) (e # rest)"
    using setLocked_refines [OF wf, of k v] assms(3) by (auto simp: put Let_def same_frame_def)
  show ?thesis
  proof (cases "int (length (e # rest)) \<le> maxEntries c")
    case True
    then show ?thesis using ents e_def by simp
  next
    case False
    then obtain x where x: "evictable (c_now c (c_reads c)) (c_now c (c_reads c')) (e # rest) x"
      "entries c' = drop_key (ent_key x) (e # rest)" using ents by auto
    have rest: "rest \<noteq> []" using False assms(2) by auto
    then have "last (e # rest) \<in> set rest" by simp
    moreover have others: "ent_key y \<noteq> k" if "y \<in> set rest" for y using that by (simp add: rest_def set_drop_key)
    moreover have "c_now c (c_reads c') < expires e" using assms(4) fr by (simp add: e_def stored_def expires_def)
    ultimately have "ent_key x \<noteq> k" using x(1) by (fastforce simp: evictable_def e_def)
    then show ?thesis using x(2) by (simp add: drop_key_def e_def stored_def)
  qed
qed

definition sample_key :: "char \<Rightarrow> CacheKey" where
  "sample_key ch = \<lparr>key_name = [ch], key_qtype = TypeA\<rparr>"

definition sample_value :: Value where
  "sample_value = zero_value\<lparr>v_addrs := [Addr4 0x09090909], v_ttl := 60\<rparr>"

definition sample_cache :: Cache where
  "sample_cache = Cache_New 2 (\<lambda>n. int n * 10500000000)"

lemma sample_cache_ok: "cache_ok sample_cache"
  unfolding sample_cache_def by (rule cache_ok_New) (simp_all add: mono_def)

lemma sample_cache_fields: "maxEntries sample_cache = 2" "c_reads sample_cache = 0"
  "c_now sample_cache = (\<lambda>n. int n * 10500000000)" "entries sample_cache = []"
  by (simp_all add: sample_cache_def Cache_New_def entries_def)

section \<open>Properties\<close>

text \<open>
  C22. \<^verbatim>\<open>Get\<close> behaves as a lookup in the list of entries in order of use: a live entry moves to the
  front and is returned with its remaining lifetime, an expired one is dropped, and hits and misses
  are counted accordingly. The map of items and the list stay in step.
\<close>

theorem Get_implements_lru:
  assumes "wf_cache c" "Cache_Get c k = (c', v, ok)"
  shows "wf_cache c' \<and> entries c' = fst (lru_get (c_now c (c_reads c)) k (entries c))
    \<and> (case snd (lru_get (c_now c (c_reads c)) k (entries c)) of
         None \<Rightarrow> \<not> ok \<and> v = zero_value \<and> Misses c' = Misses c + 1 \<and> Hits c' = Hits c
       | Some e \<Rightarrow> ok \<and> v = (ent_value e)\<lparr>v_ttl := ceil_seconds (time_sub (expires e) (c_now c (c_reads c)))\<rparr>
           \<and> Misses c' = Misses c \<and> Hits c' = Hits c + 1)"
  using Cache_Get_refines [OF assms] by blast

theorem Get_implements_lru_witness:
  "Misses (fst (Cache_Get sample_cache (sample_key CHR ''a''))) = 1"
proof -
  obtain c' v ok where g: "Cache_Get sample_cache (sample_key CHR ''a'') = (c', v, ok)" by (metis prod_cases3)
  have "wf_cache sample_cache" using sample_cache_ok by (simp add: cache_ok_def)
  from Get_implements_lru [OF this g] show ?thesis
    using g by (simp add: sample_cache_fields lru_get_def) (simp add: sample_cache_def Cache_New_def)
qed

text \<open>
  C21. \<^verbatim>\<open>Set\<close> puts the entry at the front, in place of an older one for the same key, with an expiry of
  exactly its TTL from now. When that exceeds the capacity exactly one entry goes: one that has
  expired or, when none had, the least recently used. It never panics.
\<close>

theorem Set_implements_lru:
  assumes "wf_cache c" "within c" "mono (c_now c)"
  shows "\<exists>c'. Cache_Set c k v ttl = Some c' \<and> wf_cache c' \<and> within c'
    \<and> (let es = lru_put (c_now c (c_reads c)) k (v\<lparr>v_ttl := ttl\<rparr>) (entries c)
       in if int (length es) \<le> maxEntries c then entries c' = es
          else \<exists>e. evictable (c_now c (c_reads c)) (c_now c (c_reads c')) es e \<and> entries c' = drop_key (ent_key e) es)"
  unfolding Cache_Set_def using setLocked_refines [OF assms] by blast

theorem Set_implements_lru_witness:
  "\<exists>c'. Cache_Set sample_cache (sample_key CHR ''a'') sample_value 30 = Some c'
     \<and> entries c' = [stored 0 (sample_key CHR ''a'') (sample_value\<lparr>v_ttl := 30\<rparr>)]"
proof -
  have "wf_cache sample_cache" "within sample_cache" "mono (c_now sample_cache)"
    using sample_cache_ok by (simp_all add: cache_ok_def)
  from Set_implements_lru [OF this, of "sample_key CHR ''a''" sample_value 30] show ?thesis
    by (auto simp: sample_cache_fields lru_put_def drop_key_def Let_def)
qed

text \<open>
  What was stored is found: in a cache of positive capacity, a \<^verbatim>\<open>Get\<close> before the TTL has run out
  returns the value stored, with the remaining lifetime rounded up to whole seconds.
\<close>

theorem Set_then_Get:
  assumes "cache_ok c" "0 < maxEntries c" "Cache_Set c k v ttl = Some c'"
    and "now = c_now c' (c_reads c')" "deadline = c_now c (c_reads c) + uint ttl * second" "now < deadline"
  shows "\<exists>c'' left. Cache_Get c' k = (c'', v\<lparr>v_ttl := left, v_expires := deadline\<rparr>, True)
    \<and> uint left = (deadline - now + second - 1) div second \<and> left \<le> ttl"
proof -
  define e where "e = stored (c_now c (c_reads c)) k (v\<lparr>v_ttl := ttl\<rparr>)"
  have set: "setLocked c k (v\<lparr>v_ttl := ttl\<rparr>) = Some c'" using assms(3) by (simp add: Cache_Set_def)
  then obtain rest where ents: "entries c' = e # rest"
    using put_survives [OF assms(1,2) set] assms(4-6) by (auto simp: e_def)
  have ok': "cache_ok c'" using cache_put_law [OF assms(1), of k "v\<lparr>v_ttl := ttl\<rparr>"] set by auto
  have e: "ent_key e = k" "expires e = deadline" "ent_value e = v\<lparr>v_ttl := ttl, v_expires := deadline\<rparr>"
    using assms(5) by (simp_all add: e_def stored_def expires_def)
  obtain c'' w ok where g: "Cache_Get c' k = (c'', w, ok)" by (metis prod_cases3)
  have "snd (lru_get now k (entries c')) = Some e" using ents e assms(6) by (simp add: lru_get_def)
  then have w: "ok" "w = (ent_value e)\<lparr>v_ttl := ceil_seconds (time_sub deadline now)\<rparr>"
    using Cache_Get_refines [OF _ g] ok' e(2) assms(4) by (auto simp: cache_ok_def)
  have d: "time_sub deadline now = deadline - now \<and> 0 < deadline - now \<and> deadline - now \<le> second * uint ttl
      \<and> ceil_seconds (time_sub deadline now) \<le> ttl"
    using held_ttl [of c' e] ok' ents e assms(4,6) by (auto simp: cache_ok_def)
  moreover have "deadline - now \<le> second * (2 ^ 32 - 1)"
    using d uint_lt2p [of ttl] by (simp add: go_consts)
  ultimately show ?thesis
    using g w e(3) ceil_seconds_eq [of "deadline - now"] by (intro exI [of _ c''] exI [of _ "ceil_seconds (deadline - now)"]) auto
qed

text \<open>
  C20. No sequence of operations breaks the cache: starting from an empty cache with a capacity that is
  not negative, under a clock that does not run backwards, every operation succeeds, the items map
  and the recency list describe the same entries under distinct keys, and their number never exceeds
  the capacity.
\<close>

theorem cache_operations_safe:
  assumes "0 \<le> n" "mono now"
  shows "\<exists>c. cache_run ops (Cache_New n now) = Some c \<and> wf_cache c
    \<and> distinct (map ent_key (entries c)) \<and> Cache_Len c \<le> n"
proof -
  obtain c where "cache_run ops (Cache_New n now) = Some c" "cache_ok c" "maxEntries c = n"
    using cache_run_ok [OF cache_ok_New [OF assms], of ops] by (auto simp: Cache_New_def)
  then show ?thesis by (auto simp: cache_ok_def entries_distinct Cache_Len_def within_def)
qed

theorem cache_operations_safe_witness:
  "\<exists>c. cache_run [OpSet (sample_key CHR ''a'') sample_value 60, OpSet (sample_key CHR ''b'') sample_value 60,
          OpGet (sample_key CHR ''a''), OpSet (sample_key CHR ''c'') sample_value 60, OpSweep]
        (Cache_New 2 int) = Some c \<and> Cache_Len c \<le> 2"
proof -
  have "mono int" by (simp add: mono_def)
  then show ?thesis using cache_operations_safe [of 2 int] by (metis zero_le_numeral)
qed

text \<open>
  The janitor's sweep drops exactly the entries that have expired and keeps the order of the
  others; a janitor started with an interval that is not positive panics.
\<close>

theorem sweep_drops_expired:
  assumes "wf_cache c"
  shows "entries (sweep c) = filter (\<lambda>e. c_now c (c_reads c) < expires e) (entries c)
    \<and> (RunJanitor c interval [Tick, JanitorDone] = (if 0 < interval then Some (sweep c) else None))"
  using sweep_refines [OF assms] by (simp add: RunJanitor_def)

theorem sweep_drops_expired_witness:
  "entries (sweep sample_cache) = [] \<and> RunJanitor sample_cache 0 [Tick, JanitorDone] = None"
  using sweep_drops_expired [of sample_cache 0] sample_cache_ok by (simp add: cache_ok_def sample_cache_fields)

end
