(* ===== verification/Flight.thy ===== *)
theory Flight
  imports Cache Upstream
begin

text \<open>
  Package \<^verbatim>\<open>internal/cache\<close>, file \<^verbatim>\<open>flight.go\<close>: concurrent lookups of one key share one run of the
  function.

  Each call of \<^verbatim>\<open>Do\<close> is a caller with its own program position. The transitions are the sections that
  run under the mutex, the return of the function, the closing of the channel, and the two cases of a
  waiter's \<^verbatim>\<open>select\<close>; other cache operations may come in between. Flights are addresses, as the waiters
  keep a pointer to theirs. What the function returns is chosen with the transition.
\<close>

section \<open>Callers and flights\<close>

datatype caller =
    Idle
  | Leading CacheKey nat
  | Closing CacheKey nat Value
  | Waiting CacheKey nat
  | Finished CacheKey nat "go_error + Value"

record flight_state =
  fl_cache :: Cache
  fl_value :: "nat \<Rightarrow> Value"
  fl_done :: "nat \<Rightarrow> bool"
  fl_next :: nat
  callers :: "nat \<Rightarrow> caller"

datatype flight_op =
    Enter nat CacheKey
  | FnReturns nat Value bool
  | CloseDone nat
  | Wake nat
  | GiveUp nat go_error
  | Other cache_op

definition flight_init :: "Cache \<Rightarrow> flight_state" where
  "flight_init c = \<lparr>fl_cache = c, fl_value = (\<lambda>_. zero_value), fl_done = (\<lambda>_. False), fl_next = 0,
     callers = (\<lambda>_. Idle)\<rparr>"

fun do_step :: "flight_op \<Rightarrow> flight_state \<Rightarrow> flight_state option" where
  "do_step (Enter i key) s =
     (if callers s i \<noteq> Idle then None
      else case flights (fl_cache s) key of
        Some f \<Rightarrow> Some (s\<lparr>callers := (callers s)(i := Waiting key f)\<rparr>)
      | None \<Rightarrow>
          (let f = fl_next s
           in Some (s\<lparr>fl_next := Suc f, fl_done := (fl_done s)(f := False), fl_value := (fl_value s)(f := zero_value),
                      fl_cache := (fl_cache s)\<lparr>flights := (flights (fl_cache s))(key \<mapsto> f)\<rparr>,
                      callers := (callers s)(i := Leading key f)\<rparr>)))"
| "do_step (FnReturns i v cacheable) s =
     (case callers s i of
        Leading key f \<Rightarrow>
          (let c = (fl_cache s)\<lparr>flights := (flights (fl_cache s))(key := None)\<rparr>
           in case (if cacheable then setLocked c key v else Some c) of
                None \<Rightarrow> None
              | Some c \<Rightarrow> Some (s\<lparr>fl_value := (fl_value s)(f := v), fl_cache := c,
                                  callers := (callers s)(i := Closing key f v)\<rparr>))
      | _ \<Rightarrow> None)"
| "do_step (CloseDone i) s =
     (case callers s i of
        Closing key f v \<Rightarrow> Some (s\<lparr>fl_done := (fl_done s)(f := True), callers := (callers s)(i := Finished key f (Inr v))\<rparr>)
      | _ \<Rightarrow> None)"
| "do_step (Wake i) s =
     (case callers s i of
        Waiting key f \<Rightarrow>
          (if fl_done s f then Some (s\<lparr>callers := (callers s)(i := Finished key f (Inr (fl_value s f)))\<rparr>) else None)
      | _ \<Rightarrow> None)"
| "do_step (GiveUp i err) s =
     (case callers s i of
        Waiting key f \<Rightarrow> Some (s\<lparr>callers := (callers s)(i := Finished key f (Inl err))\<rparr>)
      | _ \<Rightarrow> None)"
| "do_step (Other op) s =
     (case cache_do op (fl_cache s) of None \<Rightarrow> None | Some c \<Rightarrow> Some (s\<lparr>fl_cache := c\<rparr>))"

fun do_run :: "flight_op list \<Rightarrow> flight_state \<Rightarrow> flight_state option" where
  "do_run [] s = Some s"
| "do_run (x # xs) s = (case do_step x s of None \<Rightarrow> None | Some s' \<Rightarrow> do_run xs s')"

inductive do_reach :: "Cache \<Rightarrow> flight_state \<Rightarrow> bool" for c where
  init: "do_reach c (flight_init c)"
| step: "do_reach c s \<Longrightarrow> do_step x s = Some s' \<Longrightarrow> do_reach c s'"

section \<open>Invariant\<close>

text \<open>The owner of a flight is the caller that runs the function or is about to close the channel.\<close>

fun owns :: "caller \<Rightarrow> CacheKey \<Rightarrow> nat \<Rightarrow> bool" where
  "owns (Leading k f) key fl \<longleftrightarrow> k = key \<and> f = fl"
| "owns (Closing k f v) key fl \<longleftrightarrow> k = key \<and> f = fl"
| "owns _ key fl \<longleftrightarrow> False"

fun caller_ok :: "flight_state \<Rightarrow> caller \<Rightarrow> bool" where
  "caller_ok s Idle \<longleftrightarrow> True"
| "caller_ok s (Leading k f) \<longleftrightarrow> f < fl_next s \<and> \<not> fl_done s f \<and> flights (fl_cache s) k = Some f"
| "caller_ok s (Closing k f v) \<longleftrightarrow> f < fl_next s \<and> \<not> fl_done s f \<and> fl_value s f = v"
| "caller_ok s (Waiting k f) \<longleftrightarrow> f < fl_next s \<and> (fl_done s f \<or> (\<exists>i. owns (callers s i) k f))"
| "caller_ok s (Finished k f (Inl e)) \<longleftrightarrow> f < fl_next s"
| "caller_ok s (Finished k f (Inr v)) \<longleftrightarrow> f < fl_next s \<and> fl_done s f \<and> fl_value s f = v"

definition flight_inv :: "flight_state \<Rightarrow> bool" where
  "flight_inv s \<longleftrightarrow>
     (\<forall>i. caller_ok s (callers s i))
     \<and> (\<forall>i j k k' f. owns (callers s i) k f \<longrightarrow> owns (callers s j) k' f \<longrightarrow> i = j)
     \<and> (\<forall>k f. flights (fl_cache s) k = Some f \<longrightarrow> (\<exists>i. callers s i = Leading k f))"

lemma flight_inv_init: "flights c = Map.empty \<Longrightarrow> flight_inv (flight_init c)"
  by (simp add: flight_inv_def flight_init_def)

text \<open>A caller's clause, read field by field, so that a step only has to compare the fields it touches.\<close>

lemma caller_okI:
  assumes "caller_ok s x" "fl_next s \<le> fl_next s'"
    and "\<And>k f. x = Leading k f \<Longrightarrow> \<not> fl_done s' f \<and> flights (fl_cache s') k = Some f"
    and "\<And>k f v. x = Closing k f v \<Longrightarrow> \<not> fl_done s' f \<and> fl_value s' f = v"
    and "\<And>k f. x = Waiting k f \<Longrightarrow> fl_done s' f \<or> (\<exists>i. owns (callers s' i) k f)"
    and "\<And>k f v. x = Finished k f (Inr v) \<Longrightarrow> fl_done s' f \<and> fl_value s' f = v"
  shows "caller_ok s' x"
  using assms
  apply (cases x)
      apply simp
     apply force
    apply force
   apply force
  subgoal for k f r by (cases r) force+
  done

lemma inv_unique: "flight_inv s \<Longrightarrow> owns (callers s i) k f \<Longrightarrow> owns (callers s j) k' f \<Longrightarrow> i = j"
  unfolding flight_inv_def by blast

lemma inv_caller: "flight_inv s \<Longrightarrow> caller_ok s (callers s i)"
  by (simp add: flight_inv_def)

lemma inv_leader: "flight_inv s \<Longrightarrow> flights (fl_cache s) k = Some f \<Longrightarrow> \<exists>i. callers s i = Leading k f"
  by (simp add: flight_inv_def)

text \<open>A step that keeps flights, their state and who owns them, and moves one caller.\<close>

lemma flight_inv_move:
  assumes inv: "flight_inv s" and nx: "fl_next s' = fl_next s" and d: "fl_done s' = fl_done s"
    and v: "fl_value s' = fl_value s" and fl: "flights (fl_cache s') = flights (fl_cache s)"
    and cs: "callers s' = (callers s)(i := y)" and none: "\<And>k f. \<not> owns (callers s i) k f" "\<And>k f. \<not> owns y k f"
    and y: "caller_ok s y"
  shows "flight_inv s'"
proof -
  have own: "owns (callers s' j) k f \<longleftrightarrow> owns (callers s j) k f" for j k f using cs none by simp
  have ok: "caller_ok s' x" if "caller_ok s x" for x
    using that by (rule caller_okI) (use that nx d v fl own in auto)
  have lead: "callers s j = Leading k f \<Longrightarrow> callers s' j = Leading k f" for j k f
    using none(1) [of k f] cs by auto
  show ?thesis
    unfolding flight_inv_def
  proof (intro conjI allI impI)
    show "caller_ok s' (callers s' j)" for j using cs y inv_caller [OF inv, of j] ok by simp
    show "j = l" if "owns (callers s' j) k f" "owns (callers s' l) k' f" for j l k k' f
      using that own inv_unique [OF inv] by blast
    show "\<exists>j. callers s' j = Leading k f" if "flights (fl_cache s') k = Some f" for k f
      using that fl inv_leader [OF inv] lead by metis
  qed
qed

lemma flight_inv_cache:
  assumes "flight_inv s" "flights c = flights (fl_cache s)"
  shows "flight_inv (s\<lparr>fl_cache := c\<rparr>)"
proof -
  have "caller_ok (s\<lparr>fl_cache := c\<rparr>) x" if "caller_ok s x" for x
    using that by (rule caller_okI) (use that assms(2) in auto)
  then show ?thesis using assms by (simp add: flight_inv_def)
qed

lemma flight_inv_lead:
  assumes inv: "flight_inv s" and idle: "callers s i = Idle" and free: "flights (fl_cache s) k = None"
    and s': "do_step (Enter i k) s = Some s'"
  shows "flight_inv s'"
proof -
  define f where "f = fl_next s"
  have eq: "s' = s\<lparr>fl_next := Suc f, fl_done := (fl_done s)(f := False), fl_value := (fl_value s)(f := zero_value),
      fl_cache := (fl_cache s)\<lparr>flights := (flights (fl_cache s))(k \<mapsto> f)\<rparr>, callers := (callers s)(i := Leading k f)\<rparr>"
    using s' idle free by (simp add: f_def Let_def)
  have old: "g < f" if "owns (callers s j) k' g" for j k' g
    using inv_caller [OF inv, of j] that by (cases "callers s j") (auto simp: f_def)
  have own: "owns (callers s' j) k' g \<longleftrightarrow> (if j = i then k' = k \<and> g = f else owns (callers s j) k' g)" for j k' g
    by (auto simp: eq)
  have ok: "caller_ok s' (callers s j)" if "j \<noteq> i" for j
  proof (rule caller_okI [OF inv_caller [OF inv, of j]])
    show "fl_done s' g \<or> (\<exists>l. owns (callers s' l) k' g)" if "callers s j = Waiting k' g" for k' g
    proof -
      have "g < f" "fl_done s g \<or> (\<exists>l. owns (callers s l) k' g)"
        using inv_caller [OF inv, of j] that by (auto simp: f_def)
      moreover have "fl_done s' g = fl_done s g" using \<open>g < f\<close> by (simp add: eq)
      moreover have "owns (callers s' l) k' g" if "owns (callers s l) k' g" for l
        using that own idle by auto
      ultimately show ?thesis by blast
    qed
  qed (use inv_caller [OF inv, of j] free in \<open>auto simp: eq f_def\<close>)
  show ?thesis
    unfolding flight_inv_def
  proof (intro conjI allI impI)
    show "caller_ok s' (callers s' j)" for j using ok [of j] by (cases "j = i") (auto simp: eq)
    show "j = l" if "owns (callers s' j) k1 g" "owns (callers s' l) k2 g" for j l k1 k2 g
      using that own old inv_unique [OF inv] by (metis less_irrefl)
    show "\<exists>j. callers s' j = Leading k' g" if fl: "flights (fl_cache s') k' = Some g" for k' g
    proof (cases "k' = k")
      case True
      then show ?thesis using fl by (auto simp: eq)
    next
      case False
      then have "flights (fl_cache s) k' = Some g" using fl by (simp add: eq)
      then obtain j where "callers s j = Leading k' g" using inv_leader [OF inv] by blast
      moreover from this have "j \<noteq> i" using idle by auto
      ultimately show ?thesis by (auto simp: eq)
    qed
  qed
qed

lemma flight_inv_return:
  assumes inv: "flight_inv s" and lead: "callers s i = Leading k f"
    and fl: "flights c = (flights (fl_cache s))(k := None)"
  shows "flight_inv (s\<lparr>fl_value := (fl_value s)(f := v), fl_cache := c, callers := (callers s)(i := Closing k f v)\<rparr>)"
    (is "flight_inv ?s'")
proof -
  have i: "owns (callers s i) k f" using lead by simp
  have nd: "\<not> fl_done s f" and fk: "flights (fl_cache s) k = Some f" using inv_caller [OF inv, of i] lead by auto
  have own: "owns (callers ?s' j) k' g \<longleftrightarrow> owns (callers s j) k' g" for j k' g using lead by simp
  have other: "g \<noteq> f" if "j \<noteq> i" "owns (callers s j) k' g" for j k' g
    using inv_unique [OF inv i] that by blast
  have ok: "caller_ok ?s' (callers s j)" if j: "j \<noteq> i" for j
  proof (rule caller_okI [OF inv_caller [OF inv, of j]])
    show "\<not> fl_done ?s' g \<and> flights (fl_cache ?s') k' = Some g" if "callers s j = Leading k' g" for k' g
      using inv_caller [OF inv, of j] other [OF j, of k' g] that fk fl by auto
    show "\<not> fl_done ?s' g \<and> fl_value ?s' g = w" if "callers s j = Closing k' g w" for k' g w
      using inv_caller [OF inv, of j] other [OF j, of k' g] that by auto
    show "fl_done ?s' g \<or> (\<exists>l. owns (callers ?s' l) k' g)" if "callers s j = Waiting k' g" for k' g
      using inv_caller [OF inv, of j] that own by auto
    show "fl_done ?s' g \<and> fl_value ?s' g = w" if "callers s j = Finished k' g (Inr w)" for k' g w
      using inv_caller [OF inv, of j] that nd by auto
  qed simp
  show ?thesis
    unfolding flight_inv_def
  proof (intro conjI allI impI)
    show "caller_ok ?s' (callers ?s' j)" for j
      using ok [of j] inv_caller [OF inv, of i] lead by (cases "j = i") auto
    show "j = l" if "owns (callers ?s' j) k1 g" "owns (callers ?s' l) k2 g" for j l k1 k2 g
      using that own inv_unique [OF inv] by blast
    show "\<exists>j. callers ?s' j = Leading k' g" if "flights (fl_cache ?s') k' = Some g" for k' g
    proof -
      have "k' \<noteq> k" "flights (fl_cache s) k' = Some g" using that fl by (auto split: if_splits)
      then obtain j where "callers s j = Leading k' g" using inv_leader [OF inv] by blast
      then show ?thesis using lead \<open>k' \<noteq> k\<close> by (intro exI [of _ j]) auto
    qed
  qed
qed

lemma flight_inv_close:
  assumes inv: "flight_inv s" and cl: "callers s i = Closing k f v"
  shows "flight_inv (s\<lparr>fl_done := (fl_done s)(f := True), callers := (callers s)(i := Finished k f (Inr v))\<rparr>)"
    (is "flight_inv ?s'")
proof -
  have i: "owns (callers s i) k f" using cl by simp
  have own: "owns (callers ?s' j) k' g \<longleftrightarrow> j \<noteq> i \<and> owns (callers s j) k' g" for j k' g by simp
  have other: "g \<noteq> f" if "j \<noteq> i" "owns (callers s j) k' g" for j k' g
    using inv_unique [OF inv i] that by blast
  have ok: "caller_ok ?s' (callers s j)" if j: "j \<noteq> i" for j
  proof (rule caller_okI [OF inv_caller [OF inv, of j]])
    show "\<not> fl_done ?s' g \<and> flights (fl_cache ?s') k' = Some g" if "callers s j = Leading k' g" for k' g
      using inv_caller [OF inv, of j] other [OF j, of k' g] that by auto
    show "\<not> fl_done ?s' g \<and> fl_value ?s' g = w" if "callers s j = Closing k' g w" for k' g w
      using inv_caller [OF inv, of j] other [OF j, of k' g] that by auto
    show "fl_done ?s' g \<or> (\<exists>l. owns (callers ?s' l) k' g)" if "callers s j = Waiting k' g" for k' g
    proof (cases "g = f")
      case False
      then have "\<not> owns (callers s i) k' g" using cl by simp
      then show ?thesis using inv_caller [OF inv, of j] that own False by auto
    qed simp
    show "fl_done ?s' g \<and> fl_value ?s' g = w" if "callers s j = Finished k' g (Inr w)" for k' g w
      using inv_caller [OF inv, of j] that by auto
  qed simp
  show ?thesis
    unfolding flight_inv_def
  proof (intro conjI allI impI)
    show "caller_ok ?s' (callers ?s' j)" for j
      using ok [of j] inv_caller [OF inv, of i] cl by (cases "j = i") auto
    show "j = l" if "owns (callers ?s' j) k1 g" "owns (callers ?s' l) k2 g" for j l k1 k2 g
      using that unfolding own by (metis inv_unique [OF inv])
    show "\<exists>j. callers ?s' j = Leading k' g" if fl: "flights (fl_cache ?s') k' = Some g" for k' g
    proof -
      obtain j where "callers s j = Leading k' g" using inv_leader [OF inv, of k' g] fl by auto
      then show ?thesis using cl by (intro exI [of _ j]) auto
    qed
  qed
qed

text \<open>The cache operations leave the map of flights alone.\<close>

lemma setLocked_flights:
  assumes "cache_ok c" "setLocked c k v = Some c'"
  shows "flights c' = flights c"
  using setLocked_refines [of c k v] assms by (auto simp: cache_ok_def same_frame_def)

lemma cache_do_flights:
  assumes "cache_ok c" "cache_do op c = Some c'"
  shows "flights c' = flights c"
proof (cases op)
  case (OpGet k)
  then show ?thesis
    using assms Cache_Get_refines [of c k] by (cases "Cache_Get c k") (auto simp: cache_ok_def same_frame_def)
next
  case (OpSet k v ttl)
  then show ?thesis using assms setLocked_flights by (simp add: Cache_Set_def)
next
  case OpSweep
  then show ?thesis using assms sweep_refines [of c] by (auto simp: cache_ok_def same_frame_def)
qed (use assms in \<open>auto simp: Flush_def\<close>)

lemma cache_ok_flights [simp]: "cache_ok (c\<lparr>flights := m\<rparr>) = cache_ok c" "held (c\<lparr>flights := m\<rparr>) = held c"
  by (simp_all add: cache_ok_def wf_cache_def within_def timed_def entries_def held_def)

definition do_inv :: "flight_state \<Rightarrow> bool" where
  "do_inv s \<longleftrightarrow> flight_inv s \<and> cache_ok (fl_cache s)"

text \<open>One fact per operation; together they are the induction step.\<close>

lemma do_inv_Enter [inv_intros]:
  assumes "do_inv s" "do_step (Enter i k) s = Some s'"
  shows "do_inv s'"
proof -
  have inv: "flight_inv s" and ok: "cache_ok (fl_cache s)" using assms(1) by (simp_all add: do_inv_def)
  have idle: "callers s i = Idle" using assms(2) by (auto split: if_splits)
  show ?thesis
  proof (cases "flights (fl_cache s) k")
    case None
    then show ?thesis
      using flight_inv_lead [OF inv idle None] assms(2) ok idle by (auto simp: do_inv_def Let_def)
  next
    case (Some f)
    then have s': "s' = s\<lparr>callers := (callers s)(i := Waiting k f)\<rparr>" using assms(2) idle by simp
    obtain j where "callers s j = Leading k f" using inv_leader [OF inv Some] by blast
    then have "caller_ok s (Waiting k f)" using inv_caller [OF inv, of j] by (auto intro: exI [of _ j])
    then have "flight_inv s'"
      by (intro flight_inv_move [OF inv, where i = i and y = "Waiting k f"]) (simp_all add: s' idle del: caller_ok.simps)
    then show ?thesis using ok by (simp add: do_inv_def s')
  qed
qed

lemma do_step_FnReturns:
  assumes "do_step (FnReturns i v b) s = Some s'"
  obtains k f c0 c where "callers s i = Leading k f" "c0 = (fl_cache s)\<lparr>flights := (flights (fl_cache s))(k := None)\<rparr>"
    "if b then setLocked c0 k v = Some c else c = c0"
    "s' = s\<lparr>fl_value := (fl_value s)(f := v), fl_cache := c, callers := (callers s)(i := Closing k f v)\<rparr>"
  using assms by (auto simp: Let_def split: caller.splits option.splits if_splits)

lemma do_inv_FnReturns [inv_intros]:
  assumes "do_inv s" "do_step (FnReturns i v b) s = Some s'"
  shows "do_inv s'"
proof -
  have inv: "flight_inv s" and ok: "cache_ok (fl_cache s)" using assms(1) by (simp_all add: do_inv_def)
  obtain k f c0 c where lead: "callers s i = Leading k f"
    and c0: "c0 = (fl_cache s)\<lparr>flights := (flights (fl_cache s))(k := None)\<rparr>"
    and c: "if b then setLocked c0 k v = Some c else c = c0"
    and s': "s' = s\<lparr>fl_value := (fl_value s)(f := v), fl_cache := c, callers := (callers s)(i := Closing k f v)\<rparr>"
    using do_step_FnReturns [OF assms(2)] .
  have "cache_ok c0" using ok by (simp add: c0)
  then have "flights c = flights c0 \<and> cache_ok c"
    using c setLocked_flights [of c0 k v c] cache_put_law [of c0 k v] by (auto split: if_splits)
  then show ?thesis using flight_inv_return [OF inv lead] by (simp add: do_inv_def s' c0)
qed

lemma do_inv_CloseDone [inv_intros]: "do_inv s \<Longrightarrow> do_step (CloseDone i) s = Some s' \<Longrightarrow> do_inv s'"
  using flight_inv_close [of s] by (auto simp: do_inv_def split: caller.splits)

text \<open>A waiter leaves the flight, with its value or with an error.\<close>

lemma do_inv_leave:
  assumes "do_inv s" "callers s i = Waiting k f" "caller_ok s (Finished k f r)"
  shows "do_inv (s\<lparr>callers := (callers s)(i := Finished k f r)\<rparr>)"
proof -
  have inv: "flight_inv s" using assms(1) by (simp add: do_inv_def)
  have "flight_inv (s\<lparr>callers := (callers s)(i := Finished k f r)\<rparr>)"
    by (rule flight_inv_move [OF inv, where i = i and y = "Finished k f r"])
      (simp_all add: assms(2,3) del: caller_ok.simps)
  then show ?thesis using assms(1) by (simp add: do_inv_def)
qed

lemma do_inv_Wake [inv_intros]: "do_inv s \<Longrightarrow> do_step (Wake i) s = Some s' \<Longrightarrow> do_inv s'"
  using inv_caller [of s i] do_inv_leave [of s i] by (auto simp: do_inv_def split: caller.splits if_splits)

lemma do_inv_GiveUp [inv_intros]: "do_inv s \<Longrightarrow> do_step (GiveUp i e) s = Some s' \<Longrightarrow> do_inv s'"
  using inv_caller [of s i] do_inv_leave [of s i] by (auto simp: do_inv_def split: caller.splits)

lemma do_inv_Other [inv_intros]:
  assumes "do_inv s" "do_step (Other op) s = Some s'"
  shows "do_inv s'"
proof -
  have inv: "flight_inv s" and ok: "cache_ok (fl_cache s)" using assms(1) by (simp_all add: do_inv_def)
  obtain c where c: "cache_do op (fl_cache s) = Some c" "s' = s\<lparr>fl_cache := c\<rparr>"
    using assms(2) by (auto simp del: cache_do.simps split: option.splits)
  then show ?thesis
    using flight_inv_cache [OF inv cache_do_flights [OF ok c(1)]] cache_do_ok [OF ok, of op] by (simp add: do_inv_def)
qed

lemma do_inv_step: "do_inv s \<Longrightarrow> do_step x s = Some s' \<Longrightarrow> do_inv s'"
  by (cases x) (auto simp del: do_step.simps intro: inv_intros)

lemma do_inv_reach: "do_reach c s \<Longrightarrow> cache_ok c \<Longrightarrow> flights c = Map.empty \<Longrightarrow> do_inv s"
proof (induction rule: do_reach.induct)
  case init
  then show ?case by (simp add: do_inv_def flight_inv_init) (simp add: flight_init_def)
next
  case (step s x s')
  then show ?case using do_inv_step by blast
qed

lemma do_run_reach: "do_reach c s \<Longrightarrow> do_run xs s = Some s' \<Longrightarrow> do_reach c s'"
  by (induction xs arbitrary: s) (auto simp del: do_step.simps intro: do_reach.step split: option.splits)

lemma do_run_append: "do_run xs s = Some s' \<Longrightarrow> do_run (xs @ ys) s = do_run ys s'"
  by (induction xs arbitrary: s) (auto simp del: do_step.simps split: option.splits)

text \<open>Once the function has returned for a flight, its value is settled.\<close>

definition settled :: "nat \<Rightarrow> Value \<Rightarrow> flight_state \<Rightarrow> bool" where
  "settled f v s \<longleftrightarrow> f < fl_next s \<and> fl_value s f = v \<and> (\<forall>i k. callers s i \<noteq> Leading k f)"

lemma settled_step:
  assumes "settled f v s" "do_step x s = Some s'"
  shows "settled f v s'"
  using assms by (cases x)
    (auto simp: settled_def Let_def simp del: cache_do.simps split: if_splits option.splits caller.splits)

lemma settled_run: "settled f v s \<Longrightarrow> do_run xs s = Some s' \<Longrightarrow> settled f v s'"
  by (induction xs arbitrary: s) (auto simp del: do_step.simps intro: settled_step split: option.splits)

section \<open>A sample run\<close>

text \<open>Two callers of one key; the cache is flushed while the leader is still running.\<close>

definition sample_flight_run :: "flight_op list" where
  "sample_flight_run =
     [Enter 0 (sample_key CHR ''a''), Enter 1 (sample_key CHR ''a''), Other OpFlush,
      FnReturns 0 sample_value True, CloseDone 0, Wake 1]"

lemma sample_flight_ok: "flights sample_cache = Map.empty"
  by (simp add: sample_cache_def Cache_New_def)

section \<open>Properties\<close>

text \<open>
  C23. Coalescing is exclusive and loses no wakeup. At any moment at most one caller runs the function
  for a key, and its return never panics; a caller that waits can either take the result already or
  there is a leader of its flight that has yet to finish.
\<close>

theorem Do_coalesces:
  assumes "do_reach c s" "cache_ok c" "flights c = Map.empty"
  shows "(\<forall>i j k f g. callers s i = Leading k f \<longrightarrow> callers s j = Leading k g \<longrightarrow> i = j)
    \<and> (\<forall>i k f v b. callers s i = Leading k f \<longrightarrow> do_step (FnReturns i v b) s \<noteq> None)
    \<and> (\<forall>i k f. callers s i = Waiting k f \<longrightarrow>
          do_step (Wake i) s \<noteq> None \<or> (\<exists>j. owns (callers s j) k f))"
proof (intro conjI allI impI)
  have inv: "flight_inv s" and ok: "cache_ok (fl_cache s)" using do_inv_reach [OF assms] by (simp_all add: do_inv_def)
  show "i = j" if "callers s i = Leading k f" "callers s j = Leading k g" for i j k f g
    using inv_caller [OF inv, of i] inv_caller [OF inv, of j] inv_unique [OF inv, of i k f j k] that by simp
  show "do_step (FnReturns i v b) s \<noteq> None" if "callers s i = Leading k f" for i k f v b
    using that ok cache_put_law [of "(fl_cache s)\<lparr>flights := (flights (fl_cache s))(k := None)\<rparr>" k v] by (auto simp: Let_def)
  show "do_step (Wake i) s \<noteq> None \<or> (\<exists>j. owns (callers s j) k f)" if "callers s i = Waiting k f" for i k f
    using inv_caller [OF inv, of i] that by auto
qed

theorem Do_coalesces_witness:
  "\<exists>s. do_run (take 2 sample_flight_run) (flight_init sample_cache) = Some s
     \<and> callers s 1 = Waiting (sample_key CHR ''a'') 0 \<and> (\<exists>j. owns (callers s j) (sample_key CHR ''a'') 0)"
proof -
  have "case do_run (take 2 sample_flight_run) (flight_init sample_cache) of
      None \<Rightarrow> False | Some s \<Rightarrow> callers s 1 = Waiting (sample_key CHR ''a'') 0 \<and> do_step (Wake 1) s = None"
    by (simp add: sample_flight_run_def numeral_2_eq_2 flight_init_def Let_def sample_flight_ok)
  then obtain s where s: "do_run (take 2 sample_flight_run) (flight_init sample_cache) = Some s"
    "callers s 1 = Waiting (sample_key CHR ''a'') 0" "do_step (Wake 1) s = None"
    by (auto split: option.splits)
  then show ?thesis
    using Do_coalesces [OF do_run_reach [OF do_reach.init s(1)] sample_cache_ok sample_flight_ok] by blast
qed

text \<open>
  Everyone on a flight gets the leader's value: once the function has returned \<^verbatim>\<open>v\<close> for a flight,
  every caller that ever finishes on that flight with a value, cacheable or not, finishes with \<^verbatim>\<open>v\<close>.
\<close>

theorem Do_shares_leader_value:
  assumes "do_reach c s" "cache_ok c" "flights c = Map.empty"
    and "callers s i = Leading k f" "do_step (FnReturns i v b) s = Some s1" "do_run xs s1 = Some s2"
    and "callers s2 j = Finished k' f (Inr w)"
  shows "w = v"
proof -
  have inv: "flight_inv s" using do_inv_reach [OF assms(1-3)] by (simp add: do_inv_def)
  have "callers s l \<noteq> Leading k1 f" if "l \<noteq> i" for l k1
    using inv_unique [OF inv, of i k f l k1] assms(4) that by auto
  then have "settled f v s1"
    using assms(4,5) inv_caller [OF inv, of i] by (auto simp: settled_def Let_def split: if_splits option.splits)
  then have "settled f v s2" using settled_run assms(6) by blast
  moreover have "do_inv s2"
    by (rule do_inv_reach [OF _ assms(2,3)]) (rule do_run_reach [OF do_reach.step [OF assms(1,5)] assms(6)])
  ultimately show ?thesis
    using assms(7) inv_caller [of s2 j] by (auto simp: settled_def do_inv_def)
qed

text \<open>
  A flush does not reach a lookup in flight: a leader that started before the flush stores its
  value after it, so an answer computed with the old assets is cached past an asset reload.
\<close>

theorem flush_misses_flight:
  "map_option (\<lambda>s. entries (fl_cache s)) (do_run (take 4 sample_flight_run) (flight_init sample_cache)) =
     Some [stored 0 (sample_key CHR ''a'') sample_value]"
  by code_simp

end
