(* ===== verification/Resolve.thy ===== *)
theory Resolve
  imports Engine Flight
begin

text \<open>
  Package \<^verbatim>\<open>internal/resolve\<close>: the service that puts the cache in front of the engine.

  \<^verbatim>\<open>Lookup\<close> is a call with its own position: it reads the cache, joins or opens a flight, and, as a
  leader, runs the engine. The service state holds the cache with its flights and the position of
  every call; a transition is one critical section of one call, an engine run that returns, or a
  flush or sweep from outside.
\<close>

section \<open>Data\<close>

record Service =
  sv_CacheOn :: bool
  sv_MinTTL :: u32
  sv_MaxTTL :: u32
  sv_NegMinTTL :: u32
  sv_NegMaxTTL :: u32

datatype call =
    NotStarted
  | Asked gostring u16
  | InDo gostring u16
  | Direct gostring u16
  | Answered "go_error + Value"

record service_state =
  ss_flight :: flight_state
  ss_call :: "nat \<Rightarrow> call"

section \<open>Operations\<close>

definition normalizeName :: "gostring \<Rightarrow> gostring" where
  "normalizeName name =
     (let n = to_lower (trim_suffix (trim_space name) ''.'')
      in if n = [] then ''.'' else n)"

definition clamp :: "u32 \<Rightarrow> u32 \<Rightarrow> u32 \<Rightarrow> u32" where
  "clamp v l h = (if v < l then l else if v > h then h else v)"

definition fromEngine :: "Result \<Rightarrow> Value" where
  "fromEngine res = \<lparr>v_rcode = eng_rcode res, v_addrs = eng_addrs res, v_soa = eng_soa res, v_ttl = eng_ttl res,
     v_policy = eng_policy res, v_expires = 0\<rparr>"

text \<open>\<^verbatim>\<open>resolve\<close>, given what \<^verbatim>\<open>Engine.Resolve\<close> returned.\<close>

definition service_resolve :: "Service \<Rightarrow> Result \<Rightarrow> Value \<times> bool" where
  "service_resolve s res =
     (if \<not> Complete res \<or> eng_rcode res = RcodeServerFailure then (fromEngine res, False)
      else if length (eng_addrs res) > 0
      then ((fromEngine res)\<lparr>v_ttl := clamp (eng_ttl res) (sv_MinTTL s) (sv_MaxTTL s)\<rparr>, True)
      else case eng_soa res of
             Some soa \<Rightarrow>
               (let neg = hdr_ttl (soa_hdr soa);
                    neg = (if soa_minttl soa < neg then soa_minttl soa else neg)
                in ((fromEngine res)\<lparr>v_ttl := clamp neg (sv_NegMinTTL s) (sv_NegMaxTTL s)\<rparr>, True))
           | None \<Rightarrow> (fromEngine res, False))"

definition lookup_key :: "gostring \<Rightarrow> u16 \<Rightarrow> CacheKey" where
  "lookup_key qname qtype = \<lparr>key_name = normalizeName qname, key_qtype = qtype\<rparr>"

text \<open>The first part of \<^verbatim>\<open>Lookup\<close>, up to the call of \<^verbatim>\<open>Do\<close>.\<close>

definition Lookup_begin :: "Service \<Rightarrow> Cache \<Rightarrow> gostring \<Rightarrow> u16 \<Rightarrow> Cache \<times> call" where
  "Lookup_begin s c qname qtype =
     (if \<not> sv_CacheOn s then (c, Direct qname qtype)
      else case Cache_Get c (lookup_key qname qtype) of (c, v, ok) \<Rightarrow>
        (if ok then (if v_ttl v \<le> 1 then (c\<lparr>Misses := Misses c + 1\<rparr>, Asked qname qtype)
                     else (c, Answered (Inr v)))
         else (c, Asked qname qtype)))"

datatype service_op =
    LookupOp nat gostring u16
  | EnterOp nat
  | EngineOp nat Result
  | CloseOp nat
  | WakeOp nat
  | GiveUpOp nat go_error
  | FlushOp
  | SweepOp

text \<open>A call inside \<^verbatim>\<open>Do\<close> that has finished there returns from \<^verbatim>\<open>Lookup\<close> with the same outcome.\<close>

definition finish_call :: "nat \<Rightarrow> service_state \<Rightarrow> flight_state \<Rightarrow> service_state" where
  "finish_call i st fs =
     (case callers fs i of
        Finished k f r \<Rightarrow> st\<lparr>ss_flight := fs, ss_call := (ss_call st)(i := Answered r)\<rparr>
      | _ \<Rightarrow> st\<lparr>ss_flight := fs\<rparr>)"

fun svc_step :: "Service \<Rightarrow> service_op \<Rightarrow> service_state \<Rightarrow> service_state option" where
  "svc_step s (LookupOp i qname qtype) st =
     (case ss_call st i of
        NotStarted \<Rightarrow>
          (case Lookup_begin s (fl_cache (ss_flight st)) qname qtype of (c, pos) \<Rightarrow>
             Some (st\<lparr>ss_flight := (ss_flight st)\<lparr>fl_cache := c\<rparr>, ss_call := (ss_call st)(i := pos)\<rparr>))
      | _ \<Rightarrow> None)"
| "svc_step s (EnterOp i) st =
     (case ss_call st i of
        Asked qname qtype \<Rightarrow>
          map_option (\<lambda>fs. st\<lparr>ss_flight := fs, ss_call := (ss_call st)(i := InDo qname qtype)\<rparr>)
            (do_step (Enter i (lookup_key qname qtype)) (ss_flight st))
      | _ \<Rightarrow> None)"
| "svc_step s (EngineOp i res) st =
     (case ss_call st i of
        InDo qname qtype \<Rightarrow>
          (case service_resolve s res of (v, cacheable) \<Rightarrow>
             map_option (\<lambda>fs. st\<lparr>ss_flight := fs\<rparr>) (do_step (FnReturns i v cacheable) (ss_flight st)))
      | Direct qname qtype \<Rightarrow>
          Some (st\<lparr>ss_call := (ss_call st)(i := Answered (Inr (fst (service_resolve s res))))\<rparr>)
      | _ \<Rightarrow> None)"
| "svc_step s (CloseOp i) st = map_option (finish_call i st) (do_step (CloseDone i) (ss_flight st))"
| "svc_step s (WakeOp i) st = map_option (finish_call i st) (do_step (Wake i) (ss_flight st))"
| "svc_step s (GiveUpOp i e) st = map_option (finish_call i st) (do_step (GiveUp i e) (ss_flight st))"
| "svc_step s FlushOp st = map_option (\<lambda>fs. st\<lparr>ss_flight := fs\<rparr>) (do_step (Other OpFlush) (ss_flight st))"
| "svc_step s SweepOp st = map_option (\<lambda>fs. st\<lparr>ss_flight := fs\<rparr>) (do_step (Other OpSweep) (ss_flight st))"

fun svc_run :: "Service \<Rightarrow> service_op list \<Rightarrow> service_state \<Rightarrow> service_state option" where
  "svc_run s [] st = Some st"
| "svc_run s (x # xs) st = (case svc_step s x st of None \<Rightarrow> None | Some st' \<Rightarrow> svc_run s xs st')"

definition service_init :: "Cache \<Rightarrow> service_state" where
  "service_init c = \<lparr>ss_flight = flight_init c, ss_call = (\<lambda>_. NotStarted)\<rparr>"

text \<open>What the engine can return: the result of a reachable state of some \<^verbatim>\<open>Resolve\<close>.\<close>

definition engine_result :: "Result \<Rightarrow> bool" where
  "engine_result res \<longleftrightarrow> (\<exists>f s. fan_reach f s \<and> returned s = Some res)"

fun op_possible :: "service_op \<Rightarrow> bool" where
  "op_possible (EngineOp i res) \<longleftrightarrow> engine_result res"
| "op_possible _ \<longleftrightarrow> True"

inductive svc_reach :: "Service \<Rightarrow> Cache \<Rightarrow> service_state \<Rightarrow> bool" for s c where
  init: "svc_reach s c (service_init c)"
| step: "svc_reach s c st \<Longrightarrow> svc_step s x st = Some st' \<Longrightarrow> op_possible x \<Longrightarrow> svc_reach s c st'"

section \<open>Names\<close>

interpretation rs_norm: name_normalizer normalizeName
proof unfold_locales
  fix s
  show "normalizeName (to_lower s) = normalizeName s"
    by (simp add: normalizeName_def trim_space_lower trim_suffix_dot_lower)
  show "normalizeName (trim_space s) = normalizeName s"
    by (simp add: normalizeName_def)
  show "trimmed s \<Longrightarrow> \<not> suffix ''.'' s \<Longrightarrow> normalizeName (s @ ''.'') = normalizeName s"
    by (simp add: normalizeName_def trim_space_snoc_dot trim_space_id)
qed

lemma normalizeName_alt: "normalizeName q = (if overrides_normalize q = [] then ''.'' else overrides_normalize q)"
  and chase_normalize_alt: "chase_normalize q = overrides_normalize q @ ''.''"
  by (simp_all add: normalizeName_def overrides_normalize_def chase_normalize_def Let_def)

lemma same_key_same_name:
  assumes "normalizeName q = normalizeName q'" "overrides_normalize q \<noteq> ''.''" "overrides_normalize q' \<noteq> ''.''"
  shows "overrides_normalize q = overrides_normalize q'" "chase_normalize q = chase_normalize q'"
  using assms by (auto simp: normalizeName_alt chase_normalize_alt split: if_splits)

lemma Match_normal: "overrides_normalize q = overrides_normalize q' \<Longrightarrow> Match s q = Match s q'"
  by (simp add: Match_def)

lemma finalize_normal:
  assumes "overrides_normalize q = overrides_normalize q'"
  shows "finalize assets q rs rep c = finalize assets q' rs rep c"
proof -
  have "Select q rs isC (Match ov) = Select q' rs isC (Match ov)" for isC ov
    unfolding Select_def Match_normal [OF assms, of ov] ..
  then show ?thesis by (simp add: finalize_def Let_def)
qed

lemma fan_do_normal:
  assumes "overrides_normalize q = overrides_normalize (fan_qname f)"
  shows "fan_do (f\<lparr>fan_qname := q\<rparr>) x s = fan_do f x s"
proof -
  have "chase_normalize q = chase_normalize (fan_qname f)" using assms by (simp add: chase_normalize_alt)
  then have "fan_answer (f\<lparr>fan_qname := q\<rparr>) i = fan_answer f i" for i
    by (simp add: fan_answer_def ask_upstream_def Chase_def)
  then show ?thesis
    by (cases x) (simp_all add: receive_def Let_def finalize_normal [OF assms] earlyStable_eq split: option.splits list.splits)
qed

lemma fan_run_normal:
  assumes "overrides_normalize q = overrides_normalize (fan_qname f)"
  shows "fan_run (f\<lparr>fan_qname := q\<rparr>) cs s = fan_run f cs s"
  by (induction cs arbitrary: s) (simp_all add: fan_do_normal [OF assms] del: fan_do.simps split: option.splits)

section \<open>What is cached\<close>

text \<open>The bounds of the configuration are ordered.\<close>

definition bounds_ok :: "Service \<Rightarrow> bool" where
  "bounds_ok s \<longleftrightarrow> sv_MinTTL s \<le> sv_MaxTTL s \<and> sv_NegMinTTL s \<le> sv_NegMaxTTL s"

text \<open>A value that may stand in the cache: addresses, or a denial with an SOA, within its TTL bounds.\<close>

definition cacheable :: "Service \<Rightarrow> CacheKey \<Rightarrow> Value \<Rightarrow> bool" where
  "cacheable s k v \<longleftrightarrow>
     (if v_addrs v \<noteq> [] then v_rcode v = RcodeSuccess \<and> sv_MinTTL s \<le> v_ttl v \<and> v_ttl v \<le> sv_MaxTTL s
      else v_soa v \<noteq> None \<and> v_rcode v \<in> {RcodeSuccess, RcodeNameError}
        \<and> sv_NegMinTTL s \<le> v_ttl v \<and> v_ttl v \<le> sv_NegMaxTTL s)"

lemma clamp_bounds: "l \<le> h \<Longrightarrow> l \<le> clamp v l h \<and> clamp v l h \<le> h"
  by (auto simp: clamp_def)

lemma clamp_id: "l \<le> v \<Longrightarrow> v \<le> h \<Longrightarrow> clamp v l h = v"
  by (auto simp: clamp_def)

lemma engine_result_shape:
  assumes "engine_result res"
  shows "(eng_addrs res \<noteq> [] \<longrightarrow> eng_rcode res = RcodeSuccess)
    \<and> eng_rcode res \<in> {RcodeSuccess, RcodeNameError, RcodeServerFailure}"
proof -
  obtain f s where fs: "fan_reach f s" "returned s = Some res" using assms by (auto simp: engine_result_def)
  obtain order where o: "results s = map (fan_answer f) order" using received_order [OF fs(1)] by metis
  have "res = finalize (fan_assets f) (fan_qname f) (results s) (reports s) (length (results s) = fan_n f)"
    using fan_inv_reach [OF fs(1)] fs(2) by (simp add: fan_inv_def)
  then show ?thesis
  proof (cases "has_answer (results s)")
    case True
    then show ?thesis using \<open>res = _\<close> by (simp add: finalize_answer Let_def)
  next
    case False
    then show ?thesis using \<open>res = _\<close> finalize_negative [OF False]
      by (auto simp: FinalizeNegative_def split: prod.splits)
  qed
qed

lemma service_resolve_cacheable:
  assumes "bounds_ok s" "engine_result res" "service_resolve s res = (v, True)"
  shows "cacheable s k (v\<lparr>v_expires := 0\<rparr>) \<and> Complete res \<and> eng_rcode res \<noteq> RcodeServerFailure"
  using assms engine_result_shape [OF assms(2)]
  by (auto simp: service_resolve_def cacheable_def bounds_ok_def fromEngine_def clamp_bounds Let_def
      split: if_splits option.splits)

definition svc_inv :: "Service \<Rightarrow> service_state \<Rightarrow> bool" where
  "svc_inv s st \<longleftrightarrow> do_inv (ss_flight st) \<and> lru.holds_only (cacheable s) (fl_cache (ss_flight st))"

lemma holds_only_counters [simp]:
  "lru.holds_only P (c\<lparr>Misses := n\<rparr>) = lru.holds_only P c"
  "lru.holds_only P (c\<lparr>flights := m\<rparr>) = lru.holds_only P c"
proof -
  have "cache_ok (c\<lparr>Misses := n\<rparr>) = cache_ok c" "held (c\<lparr>Misses := n\<rparr>) = held c"
    by (simp_all add: cache_ok_def wf_cache_def within_def timed_def entries_def held_def)
  then show "lru.holds_only P (c\<lparr>Misses := n\<rparr>) = lru.holds_only P c"
    "lru.holds_only P (c\<lparr>flights := m\<rparr>) = lru.holds_only P c"
    by (simp_all add: lru.holds_only_def)
qed

lemma Lookup_begin_safe:
  assumes "lru.holds_only P c" "Lookup_begin s c q t = (c', pos)"
  shows "lru.holds_only P c'" "flights c' = flights c"
proof -
  obtain c1 v ok where g: "Cache_Get c (lookup_key q t) = (c1, v, ok)" by (metis prod_cases3)
  have "lru.holds_only P c1" by (rule lru.get_safe(1) [OF assms(1) g])
  moreover have "flights c1 = flights c"
    using Cache_Get_refines [OF _ g] assms(1) by (simp add: lru.holds_only_def cache_ok_def same_frame_def)
  moreover have "c' = c \<or> c' = c1 \<or> c' = c1\<lparr>Misses := Misses c1 + 1\<rparr>"
    using assms(2) g by (auto simp: Lookup_begin_def split: if_splits)
  ultimately show "lru.holds_only P c'" "flights c' = flights c" using assms(1) by auto
qed

text \<open>A flight step keeps the cache's values good if what it stores is.\<close>

lemma do_step_safe:
  assumes "do_inv fs" "lru.holds_only P (fl_cache fs)" "do_step x fs = Some fs'"
    and "\<And>i k f v. x = FnReturns i v True \<Longrightarrow> callers fs i = Leading k f \<Longrightarrow> P k (v\<lparr>v_expires := 0\<rparr>)"
    and "\<And>k v ttl. x \<noteq> Other (OpSet k v ttl)"
  shows "lru.holds_only P (fl_cache fs')"
proof (cases x)
  case (FnReturns i v b)
  obtain k f c0 c where lead: "callers fs i = Leading k f"
    and c0: "c0 = (fl_cache fs)\<lparr>flights := (flights (fl_cache fs))(k := None)\<rparr>"
    and c: "if b then setLocked c0 k v = Some c else c = c0"
    and fs': "fs' = fs\<lparr>fl_value := (fl_value fs)(f := v), fl_cache := c, callers := (callers fs)(i := Closing k f v)\<rparr>"
    using do_step_FnReturns [OF assms(3) [unfolded FnReturns]] .
  have "lru.holds_only P c0" using assms(2) unfolding c0 by (simp only: holds_only_counters)
  then have "lru.holds_only P c"
    using c lru.put_safe [of P c0 k v] assms(4) [OF _ lead] FnReturns by (auto split: if_splits)
  then show ?thesis by (simp add: fs')
next
  case (Other op)
  then show ?thesis
  proof (cases op)
    case (OpGet k)
    obtain c v ok where g: "Cache_Get (fl_cache fs) k = (c, v, ok)" by (metis prod_cases3)
    then show ?thesis using assms(3) lru.get_safe(1) [OF assms(2) g] Other OpGet by auto
  qed (use assms(3,5) lru.clear_safe [OF assms(2)] lru.age_safe [OF assms(2)] Other in auto)
qed (use assms(2,3) in \<open>auto simp: Let_def split: if_splits option.splits caller.splits\<close>)

lemma finish_call_flight [simp]: "ss_flight (finish_call i st fs) = fs"
  by (simp add: finish_call_def split: caller.splits)

text \<open>Operations that only move a flight: the flight's step is not one that stores a value.\<close>

lemma svc_inv_flight:
  assumes "svc_inv s st" "do_step x (ss_flight st) = Some (ss_flight st')"
    and "\<And>i k v. x = FnReturns i v True \<Longrightarrow> cacheable s k (v\<lparr>v_expires := 0\<rparr>)"
    and "\<And>k v ttl. x \<noteq> Other (OpSet k v ttl)"
  shows "svc_inv s st'"
  using assms do_inv_step [of "ss_flight st" x] do_step_safe [of "ss_flight st" "cacheable s" x]
  by (auto simp: svc_inv_def simp del: do_step.simps)

lemma svc_step_flight:
  assumes "svc_step s x st = Some st'" "\<And>i q t. x \<noteq> LookupOp i q t" "\<And>i res. x \<noteq> EngineOp i res"
  obtains y where "do_step y (ss_flight st) = Some (ss_flight st')" "\<And>i v. y \<noteq> FnReturns i v True"
    "\<And>k v ttl. y \<noteq> Other (OpSet k v ttl)"
  using assms by (cases x) (fastforce simp del: do_step.simps split: call.splits)+

lemma svc_inv_Lookup [inv_intros]:
  assumes "svc_inv s st" "svc_step s (LookupOp i q t) st = Some st'"
  shows "svc_inv s st'"
proof -
  have inv: "flight_inv (ss_flight st)" and hold: "lru.holds_only (cacheable s) (fl_cache (ss_flight st))"
    using assms(1) by (simp_all add: svc_inv_def do_inv_def)
  obtain c pos where b: "Lookup_begin s (fl_cache (ss_flight st)) q t = (c, pos)" by fastforce
  have "lru.holds_only (cacheable s) c" "flights c = flights (fl_cache (ss_flight st))"
    using Lookup_begin_safe [OF hold b] by simp_all
  moreover have "ss_flight st' = (ss_flight st)\<lparr>fl_cache := c\<rparr>"
    using assms(2) b by (auto split: call.splits)
  ultimately show ?thesis
    using flight_inv_cache [OF inv, of c] by (simp add: svc_inv_def do_inv_def lru.holds_only_def)
qed

lemma svc_inv_Engine [inv_intros]:
  assumes "bounds_ok s" "engine_result res" "svc_inv s st" "svc_step s (EngineOp i res) st = Some st'"
  shows "svc_inv s st'"
proof (cases "ss_call st i")
  case (InDo q t)
  obtain v b where r: "service_resolve s res = (v, b)" by fastforce
  have "do_step (FnReturns i v b) (ss_flight st) = Some (ss_flight st')"
    using assms(4) InDo r by (auto simp del: do_step.simps)
  then show ?thesis
    by (rule svc_inv_flight [OF assms(3)]) (use service_resolve_cacheable [OF assms(1), of res v] assms(2) r in auto)
qed (use assms(3,4) in \<open>auto simp: svc_inv_def\<close>)

lemma svc_inv_step:
  assumes "bounds_ok s" "svc_inv s st" "svc_step s x st = Some st'" "op_possible x"
  shows "svc_inv s st'"
proof (cases "(\<exists>i q t. x = LookupOp i q t) \<or> (\<exists>i res. x = EngineOp i res)")
  case True
  then show ?thesis using assms by (auto simp del: svc_step.simps intro: inv_intros)
next
  case False
  then obtain y where "do_step y (ss_flight st) = Some (ss_flight st')" "\<And>i v. y \<noteq> FnReturns i v True"
    "\<And>k v ttl. y \<noteq> Other (OpSet k v ttl)"
    using svc_step_flight [OF assms(3)] by metis
  then show ?thesis using svc_inv_flight [OF assms(2)] by blast
qed

lemma svc_inv_reach:
  assumes "svc_reach s (Cache_New n now) st" "bounds_ok s" "0 \<le> n" "mono now"
  shows "svc_inv s st"
  using assms(1)
proof (induction rule: svc_reach.induct)
  case init
  have "flights (Cache_New n now) = Map.empty" "held (Cache_New n now) = {}"
    by (simp_all add: Cache_New_def held_def entries_def)
  then show ?case
    using cache_ok_New [OF assms(3,4)] flight_inv_init [of "Cache_New n now"]
    by (simp add: svc_inv_def do_inv_def lru.holds_only_def service_init_def) (simp add: flight_init_def)
next
  case (step st x st')
  then show ?case using svc_inv_step [OF assms(2)] by blast
qed

section \<open>A sample run\<close>

definition sample_service :: Service where
  "sample_service = \<lparr>sv_CacheOn = True, sv_MinTTL = 5, sv_MaxTTL = 3600, sv_NegMinTTL = 5, sv_NegMaxTTL = 300\<rparr>"

lemma sample_bounds: "bounds_ok sample_service"
  by (simp add: bounds_ok_def sample_service_def)

text \<open>The sample engine run of theory Engine, continued until every upstream has answered, without evidence for an early return.\<close>

definition sample_fan2 :: fan where
  "sample_fan2 = sample_fan\<lparr>fan_env := (\<lambda>i. sample_env_for [9, 9, 9, 9])\<rparr>"

definition sample_full :: "choice list" where
  "sample_full = [Finish 0 5, Receive, Finish 1 7, Receive, Finish 2 7, Receive]"

definition sample_engine_result :: Result where
  "sample_engine_result = (case fan_run sample_fan2 sample_full (fan_init sample_fan2) of
     Some s \<Rightarrow> (case returned s of Some r \<Rightarrow> r | None \<Rightarrow> finalize (en_assets sample_engine) [] [] [] True)
   | None \<Rightarrow> finalize (en_assets sample_engine) [] [] [] True)"

lemma sample_engine_result_facts:
  "Complete sample_engine_result \<and> eng_addrs sample_engine_result = [Addr4 0x09090909] \<and> eng_ttl sample_engine_result = 300
   \<and> eng_rcode sample_engine_result = 0"
  by code_simp

lemma sample_engine_possible: "engine_result sample_engine_result"
proof -
  have "case fan_run sample_fan2 sample_full (fan_init sample_fan2) of None \<Rightarrow> False | Some s \<Rightarrow> returned s \<noteq> None"
    by code_simp
  then obtain s r where s: "fan_run sample_fan2 sample_full (fan_init sample_fan2) = Some s" "returned s = Some r"
    by (auto split: option.splits)
  then have "sample_engine_result = r" by (simp add: sample_engine_result_def)
  then show ?thesis using s fan_run_reach [OF fan_reach.init s(1)] by (auto simp: engine_result_def)
qed

definition sample_service_run :: "service_op list" where
  "sample_service_run = [LookupOp 0 ''a.'' TypeA, EnterOp 0, EngineOp 0 sample_engine_result, CloseOp 0, LookupOp 1 ''A'' TypeA]"

lemma svc_run_reach:
  "svc_reach s c st \<Longrightarrow> \<forall>x\<in>set xs. op_possible x \<Longrightarrow> svc_run s xs st = Some st' \<Longrightarrow> svc_reach s c st'"
  by (induction xs arbitrary: st) (auto simp del: svc_step.simps intro: svc_reach.step split: option.splits)

lemma sample_service_reach:
  obtains st v where "svc_run sample_service sample_service_run (service_init sample_cache) = Some st"
    "svc_reach sample_service (Cache_New 2 (\<lambda>n. int n * 10500000000)) st"
    "ss_call st 1 = Answered (Inr v)" "v_addrs v = [Addr4 0x09090909]"
proof -
  have "case svc_run sample_service sample_service_run (service_init sample_cache) of None \<Rightarrow> False
      | Some st \<Rightarrow> (case ss_call st 1 of Answered (Inr v) \<Rightarrow> v_addrs v = [Addr4 0x09090909] | _ \<Rightarrow> False)"
    by code_simp
  moreover have "\<forall>x\<in>set sample_service_run. op_possible x"
    by (simp add: sample_service_run_def sample_engine_possible)
  ultimately show thesis
    using that svc_run_reach [OF svc_reach.init, of sample_service_run sample_service sample_cache]
    unfolding sample_cache_def by (auto split: option.splits call.splits sum.splits)
qed

section \<open>Properties\<close>

text \<open>
  C16. Names that share a cache key share their resolution: two spellings of a name that are equal up to
  case, surrounding blanks and the final dot are stored under one key, and for them every schedule of
  the upstreams leads to the same result. Only the names that are dots after normalization are
  excluded.
\<close>

theorem same_key_same_resolution:
  assumes "lookup_key q t = lookup_key (fan_qname f) t" "overrides_normalize q \<noteq> ''.''"
    and "overrides_normalize (fan_qname f) \<noteq> ''.''"
  shows "fan_run (f\<lparr>fan_qname := q\<rparr>) cs (fan_init (f\<lparr>fan_qname := q\<rparr>)) = fan_run f cs (fan_init f)"
proof -
  have q: "overrides_normalize q = overrides_normalize (fan_qname f)"
    using same_key_same_name(1) [OF _ assms(2,3)] assms(1) by (simp add: lookup_key_def)
  have "fan_init (f\<lparr>fan_qname := q\<rparr>) = fan_init f"
    by (simp add: fan_init_def finalize_normal [OF q])
  then show ?thesis by (simp add: fan_run_normal [OF q])
qed

theorem same_key_same_resolution_witness:
  "fan_run (sample_fan\<lparr>fan_qname := '' A''\<rparr>) sample_choices (fan_init (sample_fan\<lparr>fan_qname := '' A''\<rparr>))
     = fan_run sample_fan sample_choices (fan_init sample_fan)"
proof -
  have "fan_qname sample_fan = ''a.''" by (simp add: sample_fan_def fan_start_def)
  moreover have "lookup_key '' A'' TypeA = lookup_key ''a.'' TypeA \<and> overrides_normalize '' A'' \<noteq> ''.''
      \<and> overrides_normalize ''a.'' \<noteq> ''.''"
    by code_simp
  ultimately show ?thesis using same_key_same_resolution [of "'' A''" TypeA sample_fan sample_choices] by simp
qed

text \<open>
  A result is handed to the cache exactly when it is complete, no SERVFAIL, and has addresses or an
  SOA; then its TTL lies within the configured bounds and is the upstream's own where that fits.
  Everything else is served as the engine gave it, its TTL unclamped, and not stored.
\<close>

lemma resolve_decides_caching:
  assumes "bounds_ok s" "service_resolve s res = (v, store)"
  shows "(store \<longleftrightarrow> Complete res \<and> eng_rcode res \<noteq> RcodeServerFailure \<and> (eng_addrs res \<noteq> [] \<or> eng_soa res \<noteq> None))
    \<and> v\<lparr>v_ttl := 0\<rparr> = (fromEngine res)\<lparr>v_ttl := 0\<rparr>
    \<and> (if \<not> store then v = fromEngine res
       else if eng_addrs res \<noteq> []
       then sv_MinTTL s \<le> v_ttl v \<and> v_ttl v \<le> sv_MaxTTL s
         \<and> (sv_MinTTL s \<le> eng_ttl res \<and> eng_ttl res \<le> sv_MaxTTL s \<longrightarrow> v_ttl v = eng_ttl res)
       else sv_NegMinTTL s \<le> v_ttl v \<and> v_ttl v \<le> sv_NegMaxTTL s
         \<and> (\<forall>soa. eng_soa res = Some soa \<longrightarrow>
              v_ttl v = clamp (min (hdr_ttl (soa_hdr soa)) (soa_minttl soa)) (sv_NegMinTTL s) (sv_NegMaxTTL s)))"
  using assms
  by (auto simp: service_resolve_def bounds_ok_def fromEngine_def Let_def clamp_bounds clamp_id min_def not_less
      split: if_splits option.splits)



end
