(* ===== verification/GoFmt.thy ===== *)
theory GoFmt
  imports GoNet
begin

text \<open>
  The text that the resolver prints: numbers (\<^verbatim>\<open>strconv.Itoa\<close>, \<^verbatim>\<open>%d\<close>), addresses and address-port pairs
  (\<^verbatim>\<open>netip.Addr.String\<close>, \<^verbatim>\<open>netip.AddrPort.String\<close>). What is printed for an address is read back by the
  parsers of theory GoNet.
\<close>

section \<open>Numbers\<close>

definition digit_char :: "int \<Rightarrow> char" where
  "digit_char d = ''0123456789abcdef'' ! nat d"

text \<open>\<^verbatim>\<open>strconv.formatBits\<close>: the digits are written from the last to the first.\<close>

function fmt_bits :: "int \<Rightarrow> int \<Rightarrow> gostring \<Rightarrow> gostring" where
  "fmt_bits b n acc =
     (if n < b \<or> b < 2 then digit_char n # acc else fmt_bits b (n div b) (digit_char (n mod b) # acc))"
  by pat_completeness auto
termination
proof (relation "measure (\<lambda>(b, n, acc). nat n)")
  fix b n :: int and acc
  assume "\<not> (n < b \<or> b < 2)"
  then show "((b, n div b, digit_char (n mod b) # acc), (b, n, acc)) \<in> measure (\<lambda>(b, n, acc). nat n)"
    using int_div_less_self [of n b] by simp
qed simp

declare fmt_bits.simps [simp del]

definition itoa :: "int \<Rightarrow> gostring" where
  "itoa n = (if n < 0 then CHR ''-'' # fmt_bits 10 (- n) [] else fmt_bits 10 n [])"

definition hex :: "int \<Rightarrow> gostring" where
  "hex n = fmt_bits 16 n []"

lemma fmt_bits_append: "fmt_bits b n acc = fmt_bits b n [] @ acc"
proof (induction "nat n" arbitrary: n acc rule: less_induct)
  case less
  show ?case
  proof (cases "n < b \<or> b < 2")
    case True
    then show ?thesis by (simp add: fmt_bits.simps [of b n])
  next
    case False
    then have "nat (n div b) < nat n" using int_div_less_self [of n b] by simp
    from less [OF this, of "digit_char (n mod b) # acc"] less [OF this, of "[digit_char (n mod b)]"] False
    show ?thesis by (simp add: fmt_bits.simps [of b n])
  qed
qed

lemma fmt_bits_snoc: "2 \<le> b \<Longrightarrow> b \<le> n \<Longrightarrow> fmt_bits b n [] = fmt_bits b (n div b) [] @ [digit_char (n mod b)]"
  by (subst fmt_bits.simps) (simp add: fmt_bits_append [of b "n div b" "[_]"])

lemma fmt_bits_digit: "n < b \<Longrightarrow> fmt_bits b n [] = [digit_char n]"
  by (simp add: fmt_bits.simps)

text \<open>Induction over the digits of a number, most significant first.\<close>

lemma digits_induct [consumes 2, case_names digit snoc]:
  assumes "2 \<le> b" "0 \<le> (n :: int)"
    and "\<And>n. 0 \<le> n \<Longrightarrow> n < b \<Longrightarrow> P n"
    and "\<And>n. b \<le> n \<Longrightarrow> P (n div b) \<Longrightarrow> P n"
  shows "P n"
  using assms(2)
proof (induction "nat n" arbitrary: n rule: less_induct)
  case less
  show ?case
  proof (cases "n < b")
    case False
    then have "n div b < n" "0 \<le> n div b"
      using assms(1) less.prems int_div_less_self [of n b] by (simp_all add: pos_imp_zdiv_nonneg_iff)
    then show ?thesis using False assms(4) less.hyps [of "n div b"] less.prems by simp
  qed (use assms(3) less.prems in simp)
qed

lemma digit_char_dec:
  assumes "0 \<le> d" "d < 10"
  shows "is_digit (digit_char d)" "digit_val (digit_char d) = nat d"
proof -
  have "d \<in> {0, 1, 2, 3, 4, 5, 6, 7, 8, 9}" using assms by (simp, presburger)
  then show "is_digit (digit_char d)" "digit_val (digit_char d) = nat d"
    by (auto simp: digit_char_def is_digit_def digit_val_def nth_Cons' eval_nat_numeral)
qed

lemma digit_char_hex:
  assumes "0 \<le> d" "d < 16"
  shows "hex_val (digit_char d) = Some (nat d)"
proof -
  have "d \<in> {0, 1, 2, 3, 4, 5, 6, 7, 8, 9, 10, 11, 12, 13, 14, 15}" using assms by (simp, presburger)
  then show ?thesis by (auto simp: digit_char_def hex_val_def)
qed

lemmas dec_induct = digits_induct [of 10, simplified, consumes 1, case_names digit snoc]
lemmas hex_induct = digits_induct [of 16, simplified, consumes 1, case_names digit snoc]

lemma nat_split:
  assumes "0 \<le> n" "0 < b"
  shows "nat n = nat (n div b) * nat b + nat (n mod b)"
proof -
  have "0 \<le> n div b" "0 \<le> n mod b" using assms by (simp_all add: pos_imp_zdiv_nonneg_iff)
  then have "nat (n div b * b + n mod b) = nat (n div b) * nat b + nat (n mod b)"
    using assms(2) by (simp only: nat_add_distrib nat_mult_distrib mult_nonneg_nonneg less_imp_le)
  then show ?thesis by simp
qed

lemma dec_digits:
  assumes "0 \<le> n"
  shows "list_all is_digit (fmt_bits 10 n []) \<and> fmt_bits 10 n [] \<noteq> [] \<and> digits_val (fmt_bits 10 n []) = nat n"
  using assms
proof (induction n rule: dec_induct)
  case (digit n)
  then show ?case by (simp add: fmt_bits_digit digits_val_def digit_char_dec)
next
  case (snoc n)
  then show ?case
    using digit_char_dec [of "n mod 10"] nat_split [of n 10] by (simp add: fmt_bits_snoc digits_val_def)
qed

lemma atoi_itoa: "0 \<le> n \<Longrightarrow> atoi (itoa n) = Some (nat n)"
  using dec_digits by (simp add: atoi_def itoa_def)

text \<open>One field of a dotted quad, and one group of hexadecimal digits, read back.\<close>

lemma parse4_field:
  assumes "0 \<le> n" "n \<le> 255"
  shows "\<exists>p. is_digit p \<and> parse4_fields prev 0 0 fs (itoa n @ rest) = parse4_fields (Some p) (nat n) (length (itoa n)) fs rest"
proof -
  have "\<exists>p. is_digit p \<and> parse4_fields prev 0 0 fs (fmt_bits 10 n [] @ rest)
      = parse4_fields (Some p) (nat n) (length (fmt_bits 10 n [])) fs rest"
    using assms
  proof (induction n arbitrary: rest rule: dec_induct)
    case (digit n)
    then have "\<not> 255 < nat n" by simp
    then show ?case
      using digit digit_char_dec [of n] by (intro exI [of _ "digit_char n"]) (simp add: fmt_bits_digit Let_def)
  next
    case (snoc n)
    have d: "is_digit (digit_char (n mod 10))" "digit_val (digit_char (n mod 10)) = nat (n mod 10)"
      using digit_char_dec [of "n mod 10"] by simp_all
    have "0 < n div 10" "n div 10 \<le> 255" "nat n \<le> 255" using snoc by simp_all
    moreover have "nat (n div 10) * 10 + nat (n mod 10) = nat n" using nat_split [of n 10] snoc by simp
    ultimately show ?case
      using snoc.IH [of "digit_char (n mod 10) # rest"] snoc.hyps d
      by (intro exI [of _ "digit_char (n mod 10)"]) (auto simp: fmt_bits_snoc Let_def)
  qed
  then show ?thesis using assms(1) by (simp add: itoa_def)
qed

lemma hex_length: "0 \<le> n \<Longrightarrow> n < 16 ^ Suc k \<Longrightarrow> length (fmt_bits 16 n []) \<le> Suc k"
proof (induction k arbitrary: n)
  case (Suc k)
  show ?case
  proof (cases "n < 16")
    case False
    have "n div 16 * 16 \<le> n" using div_mult_mod_eq [of n 16] pos_mod_sign [of 16 n] by linarith
    then have "0 \<le> n div 16" "n div 16 < 16 ^ Suc k" using Suc.prems by simp_all
    then show ?thesis using Suc.IH [of "n div 16"] False by (simp add: fmt_bits_snoc)
  qed (simp add: fmt_bits_digit)
qed (simp add: fmt_bits_digit)

lemma hex_group_hex:
  assumes "0 \<le> n" "n \<le> 65535" "rest = [] \<or> hex_val (hd rest) = None"
  shows "hex_group 0 0 (hex n @ rest) = Some (length (hex n), nat n, rest) \<and> 0 < length (hex n)"
proof -
  have "hex_group 0 0 (fmt_bits 16 n [] @ tl') = hex_group (length (fmt_bits 16 n [])) (nat n) tl'" if "0 \<le> n" "n \<le> 65535" for n tl'
    using that
  proof (induction n arbitrary: tl' rule: hex_induct)
    case (digit n)
    then have "\<not> 65535 < nat n" by simp
    then show ?case using digit digit_char_hex [of n] by (simp add: fmt_bits_digit)
  next
    case (snoc n)
    define k where "k = length (fmt_bits 16 (n div 16) [])"
    have "k \<le> 3" using hex_length [of "n div 16" 2] snoc by (simp add: k_def)
    moreover have v: "nat (n div 16) * 16 + nat (n mod 16) = nat n" using nat_split [of n 16] snoc by simp
    moreover have "\<not> 65535 < nat n" using snoc.prems by simp
    ultimately have "hex_group k (nat (n div 16)) (digit_char (n mod 16) # tl') = hex_group (Suc k) (nat n) tl'"
      using digit_char_hex [of "n mod 16"] by (simp only: hex_group.simps pos_mod_bound pos_mod_sign option.case v) simp
    then show ?case
      using snoc.IH [of "digit_char (n mod 16) # tl'"] snoc.hyps snoc.prems by (simp add: fmt_bits_snoc k_def)
  qed
  moreover have "fmt_bits 16 n [] \<noteq> []" using assms(1) by (cases "n < 16") (simp_all add: fmt_bits_digit fmt_bits_snoc)
  moreover have "hex_group k x rest = Some (k, x, rest)" for k x using assms(3) by (cases rest) auto
  ultimately show ?thesis using assms(1,2) by (simp add: hex_def)
qed

section \<open>Addresses\<close>

fun join_sep :: "gostring \<Rightarrow> gostring list \<Rightarrow> gostring" where
  "join_sep sep [] = []"
| "join_sep sep [x] = x"
| "join_sep sep (x # xs) = x @ sep @ join_sep sep xs"

definition string4 :: "u8 list \<Rightarrow> gostring" where
  "string4 bs = join_sep ''.'' (map (itoa \<circ> uint) bs)"

text \<open>The eight 16-bit groups of an IPv6 address.\<close>

fun groups16 :: "u8 list \<Rightarrow> int list" where
  "groups16 (a # b # bs) = (uint a * 256 + uint b) # groups16 bs"
| "groups16 _ = []"

text \<open>The loop of \<^verbatim>\<open>appendTo6\<close> that finds the longest run of zero groups, the first of the longest ones.\<close>

fun zero_run :: "int list \<Rightarrow> nat \<Rightarrow> nat \<times> nat \<Rightarrow> nat \<times> nat" where
  "zero_run [] i best = best"
| "zero_run (g # gs) i best =
     (let l = length (takeWhile (\<lambda>g. g = 0) (g # gs))
      in zero_run gs (Suc i) (if 2 \<le> l \<and> snd best - fst best < l then (i, i + l) else best))"

definition string6 :: "int list \<Rightarrow> gostring" where
  "string6 gs =
     (let (s, e) = zero_run gs 0 (255, 255)
      in if s < 8 then join_sep '':'' (map hex (take s gs)) @ ''::'' @ join_sep '':'' (map hex (drop e gs))
         else join_sep '':'' (map hex gs))"

definition zone_suffix :: "gostring \<Rightarrow> gostring" where
  "zone_suffix z = (if z = [] then [] else CHR ''%'' # z)"

fun addr_string :: "addr \<Rightarrow> gostring" where
  "addr_string AddrZero = ''invalid IP''"
| "addr_string (Addr4 w) = string4 (be_bytes 4 (ucast w))"
| "addr_string (Addr6 w z) =
     (if is4in6 (Addr6 w z) then ''::ffff:'' @ string4 (be_bytes 4 w) else string6 (groups16 (be_bytes 16 w))) @ zone_suffix z"

definition addr_port_string :: "addr_port \<Rightarrow> gostring" where
  "addr_port_string p =
     (case ap_addr p of
        AddrZero \<Rightarrow> ''invalid AddrPort''
      | Addr4 w \<Rightarrow> addr_string (Addr4 w) @ '':'' @ itoa (uint (ap_port p))
      | Addr6 w z \<Rightarrow> ''['' @ addr_string (Addr6 w z) @ '']:'' @ itoa (uint (ap_port p)))"

subsection \<open>Dotted quads are read back\<close>

lemma uint_byte [simp]: "0 \<le> uint (b :: u8)" "uint (b :: u8) \<le> 255" "(of_nat (nat (uint b)) :: u8) = b"
  using uint_lt2p [of b] by (simp_all add: of_nat_nat)

lemma is_digit_not_dot: "is_digit c \<Longrightarrow> c \<noteq> CHR ''.''"
  by (auto simp: is_digit_def)

lemma itoa_nonempty: "0 \<le> n \<Longrightarrow> itoa n \<noteq> []"
  using dec_digits [of n] by (simp add: itoa_def)

lemma parse4_next:
  fixes x y :: u8
  assumes "length fs < 3"
  shows "parse4_fields prev 0 0 fs (itoa (uint x) @ ''.'' @ itoa (uint y) @ r) =
    parse4_fields (Some CHR ''.'') 0 0 (fs @ [x]) (itoa (uint y) @ r)"
proof -
  obtain p where p: "is_digit p" "parse4_fields prev 0 0 fs (itoa (uint x) @ ''.'' @ itoa (uint y) @ r)
      = parse4_fields (Some p) (nat (uint x)) (length (itoa (uint x))) fs (''.'' @ itoa (uint y) @ r)"
    using parse4_field [OF uint_byte(1,2)] by blast
  then show ?thesis
    using assms is_digit_not_dot [of p] itoa_nonempty [of "uint y"] by (simp add: is_digit_def del: of_nat_nat)
qed

lemma parse4_string4: "parse4_fields None 0 0 [] (string4 [a, b, c, d]) = Some [a, b, c, d]"
proof -
  obtain p where "is_digit p" "parse4_fields (Some CHR ''.'') 0 0 [a, b, c] (itoa (uint d) @ [])
      = parse4_fields (Some p) (nat (uint d)) (length (itoa (uint d))) [a, b, c] []"
    using parse4_field [OF uint_byte(1,2)] by blast
  then show ?thesis
    using parse4_next [of "[]" None a b "''.'' @ itoa (uint c) @ ''.'' @ itoa (uint d)"]
      parse4_next [of "[a]" "Some CHR ''.''" b c "''.'' @ itoa (uint d)"] parse4_next [of "[a, b]" "Some CHR ''.''" c d "[]"]
    by (simp add: string4_def)
qed

lemma four_bytes: "\<exists>a b c d. be_bytes 4 w = [a, b, c, d]"
  using length_be_bytes [of 4 w] by (auto simp: length_Suc_conv eval_nat_numeral simp del: length_be_bytes)

lemma four_bytes_word: "ucast (be_word (be_bytes 4 (ucast (w :: 32 word)))) = w"
  by (intro bit_word_eqI) (simp add: wire_bytes bit_simps)

subsection \<open>Groups are read back\<close>

definition group :: "u8 \<Rightarrow> u8 \<Rightarrow> int" where
  "group a b = uint a * 256 + uint b"

lemma group_range: "0 \<le> group a b" "group a b \<le> 65535"
  unfolding group_def using uint_byte(1,2) [of a] uint_byte(1,2) [of b] by linarith+

lemma group_bytes: "(of_nat (nat (group a b) div 256) :: u8) = a" "(of_nat (nat (group a b)) :: u8) = b"
proof -
  have n: "nat (group a b) = 256 * nat (uint a) + nat (uint b)"
    by (simp add: group_def nat_add_distrib nat_mult_distrib)
  have "nat (uint b) < 256" using uint_byte(2) [of b] by linarith
  then have "nat (group a b) div 256 = nat (uint a)" by (simp add: n)
  then show "(of_nat (nat (group a b) div 256) :: u8) = a" by simp
  have "(of_nat (nat (group a b)) :: u8) = 256 * of_nat (nat (uint a)) + of_nat (nat (uint b))" by (simp only: n of_nat_add of_nat_mult of_nat_numeral)
  moreover have "(256 :: u8) = 0" by simp
  ultimately show "(of_nat (nat (group a b)) :: u8) = b" by simp
qed

lemma parse6_group:
  assumes "length ip < 16" "rest = [] \<or> hd rest = CHR '':''"
  shows "parse6_loop (hex (group a b) @ rest) ip ell =
    (let ip' = ip @ [a, b]
     in if rest = [] then Some ([], ip', ell)
        else if tl rest = [] then None
        else if hd (tl rest) = CHR '':'' then
          (if ell \<noteq> None then None
           else if tl (tl rest) = [] then Some ([], ip', Some (length ip'))
           else parse6_loop (tl (tl rest)) ip' (Some (length ip')))
        else parse6_loop (tl rest) ip' ell)"
proof -
  have "hex_val CHR '':'' = None" by (simp add: hex_val_def)
  then have h: "hex_group 0 0 (hex (group a b) @ rest) = Some (length (hex (group a b)), nat (group a b), rest)"
    "length (hex (group a b)) \<noteq> 0"
    using hex_group_hex [OF group_range, of rest a b] assms(2) by auto
  show ?thesis
    by (subst parse6_loop.simps) (use h assms in \<open>auto simp: group_bytes Let_def\<close>)
qed

lemma hex_hd: "0 \<le> n \<Longrightarrow> hex n \<noteq> [] \<and> list_all (\<lambda>c. hex_val c \<noteq> None) (hex n)"
  unfolding hex_def
proof (induction n rule: hex_induct)
  case (snoc n)
  then show ?case using digit_char_hex [of "n mod 16"] by (simp add: fmt_bits_snoc)
qed (simp add: fmt_bits_digit digit_char_hex)

lemma hex_head: "0 \<le> n \<Longrightarrow> hd (hex n @ r) \<noteq> CHR '':''"
proof -
  assume "0 \<le> n"
  then have "hex n \<noteq> []" "hex_val (hd (hex n)) \<noteq> None" using hex_hd [of n] by (cases "hex n"; simp)+
  then show ?thesis by (auto simp: hex_val_def)
qed

lemma groups16_Cons: "groups16 (a # b # bs) = group a b # groups16 bs"
  by (simp add: group_def)

lemma join_Cons: "xs \<noteq> [] \<Longrightarrow> join_sep sep (x # xs) = x @ sep @ join_sep sep xs"
  by (cases xs) auto

lemma groups16_empty: "even (length bs) \<Longrightarrow> groups16 bs = [] \<longleftrightarrow> bs = []"
  by (induction bs rule: groups16.induct) auto

lemma join_hex_head:
  assumes "even (length bs)" "bs \<noteq> []"
  shows "join_sep '':'' (map hex (groups16 bs)) @ r \<noteq> [] \<and> hd (join_sep '':'' (map hex (groups16 bs)) @ r) \<noteq> CHR '':''"
proof -
  obtain a b bs' where bs: "bs = a # b # bs'" using assms by (cases bs rule: groups16.cases) auto
  have "\<exists>r'. join_sep '':'' (map hex (groups16 bs)) @ r = hex (group a b) @ r'"
    unfolding bs groups16_Cons by (cases "groups16 bs'") auto
  then show ?thesis using hex_hd [OF group_range(1), of a b] hex_head [OF group_range(1), of a b] by auto
qed

text \<open>The groups up to the end of the text, or up to the ellipsis.\<close>

lemma parse6_groups:
  assumes "even (length bs)" "bs \<noteq> []" "length ip + length bs \<le> 16"
  shows "parse6_loop (join_sep '':'' (map hex (groups16 bs))) ip ell = Some ([], ip @ bs, ell)"
    and "parse6_loop (join_sep '':'' (map hex (groups16 bs)) @ ''::'' @ r) ip None =
      (if r = [] then Some ([], ip @ bs, Some (length (ip @ bs))) else parse6_loop r (ip @ bs) (Some (length (ip @ bs))))"
proof -
  have "parse6_loop (join_sep '':'' (map hex (groups16 bs))) ip ell = Some ([], ip @ bs, ell)
    \<and> parse6_loop (join_sep '':'' (map hex (groups16 bs)) @ ''::'' @ r) ip None =
      (if r = [] then Some ([], ip @ bs, Some (length (ip @ bs))) else parse6_loop r (ip @ bs) (Some (length (ip @ bs))))"
    using assms
  proof (induction bs arbitrary: ip rule: groups16.induct)
    case (1 a b bs)
    have len: "length ip < 16" using 1(4) by simp
    show ?case
    proof (cases "bs = []")
      case True
      then show ?thesis
        using parse6_group [OF len, of "[]" a b ell] parse6_group [OF len, of "''::'' @ r" a b None] by (simp add: groups16_Cons del: groups16.simps(1))
    next
      case False
      have ev: "even (length bs)" using 1(2) by simp
      have j: "join_sep '':'' (map hex (groups16 (a # b # bs))) = hex (group a b) @ '':'' @ join_sep '':'' (map hex (groups16 bs))"
        using groups16_empty [OF ev] False by (simp add: groups16_Cons join_Cons del: groups16.simps(1))
      show ?thesis
        unfolding j
        using 1(1) [of "ip @ [a, b]"] ev False 1(4)
          parse6_group [OF len, of "'':'' @ join_sep '':'' (map hex (groups16 bs))" a b ell]
          parse6_group [OF len, of "'':'' @ join_sep '':'' (map hex (groups16 bs)) @ ''::'' @ r" a b None]
          join_hex_head [OF ev False, of "[]"] join_hex_head [OF ev False, of "''::'' @ r"]
        by simp
    qed
  qed simp_all
  then show "parse6_loop (join_sep '':'' (map hex (groups16 bs))) ip ell = Some ([], ip @ bs, ell)"
    "parse6_loop (join_sep '':'' (map hex (groups16 bs)) @ ''::'' @ r) ip None =
      (if r = [] then Some ([], ip @ bs, Some (length (ip @ bs))) else parse6_loop r (ip @ bs) (Some (length (ip @ bs))))"
    by blast+
qed

subsection \<open>The ellipsis stands for zero bytes\<close>

lemma zero_run_zeros:
  "zero_run gs i best = best \<or>
    (\<exists>k l. zero_run gs i best = (i + k, i + k + l) \<and> 2 \<le> l \<and> k + l \<le> length gs \<and> (\<forall>g\<in>set (take l (drop k gs)). g = 0))"
proof (induction gs arbitrary: i best)
  case (Cons g gs)
  define l where "l = length (takeWhile (\<lambda>g. g = 0) (g # gs))"
  have z: "\<forall>h\<in>set (take l (g # gs)). h = 0" "l \<le> length (g # gs)"
    by (metis l_def takeWhile_eq_take set_takeWhileD, simp only: l_def length_takeWhile_le)
  define best' where "best' = (if 2 \<le> l \<and> snd best - fst best < l then (i, i + l) else best)"
  have run: "zero_run (g # gs) i best = zero_run gs (Suc i) best'" by (simp only: zero_run.simps Let_def l_def best'_def)
  from Cons [of "Suc i" best'] show ?case
  proof
    assume "zero_run gs (Suc i) best' = best'"
    then show ?thesis using run z by (auto simp: best'_def intro!: exI [of _ 0] exI [of _ l])
  next
    assume "\<exists>k l. zero_run gs (Suc i) best' = (Suc i + k, Suc i + k + l) \<and> 2 \<le> l \<and> k + l \<le> length gs \<and> (\<forall>g\<in>set (take l (drop k gs)). g = 0)"
    then obtain k l where "zero_run gs (Suc i) best' = (Suc i + k, Suc i + k + l)" "2 \<le> l" "k + l \<le> length gs" "\<forall>g\<in>set (take l (drop k gs)). g = 0"
      by blast
    then show ?thesis using run by (intro disjI2 exI [of _ "Suc k"] exI [of _ l]) simp
  qed
qed simp

lemma groups16_take: "groups16 (take (2 * k) bs) = take k (groups16 bs)"
  by (induction bs arbitrary: k rule: groups16.induct) (case_tac k; simp)+

lemma groups16_drop: "groups16 (drop (2 * k) bs) = drop k (groups16 bs)"
  by (induction bs arbitrary: k rule: groups16.induct) (case_tac k; simp)+

lemma length_groups16: "length (groups16 bs) = length bs div 2"
  by (induction bs rule: groups16.induct) auto

lemma zero_groups: "even (length bs) \<Longrightarrow> \<forall>g\<in>set (groups16 bs). g = 0 \<Longrightarrow> bs = replicate (length bs) 0"
proof (induction bs rule: groups16.induct)
  case (1 a b bs)
  then have "uint a * 256 + uint b = 0" by simp
  then have "uint a = 0" "uint b = 0" using uint_byte(1) [of a] uint_byte(1) [of b] by linarith+
  then have "a = 0" "b = 0" by (simp_all add: uint_0_iff)
  then show ?case using 1 by simp
qed simp_all

lemma string6_split:
  assumes "length bs = 16" "zero_run (groups16 bs) 0 (255, 255) = (s, e)" "s < 8"
  shows "bs = take (2 * s) bs @ replicate (2 * (e - s)) 0 @ drop (2 * e) bs" "s + 2 \<le> e" "e \<le> 8"
proof -
  obtain k l where kl: "(s, e) = (k, k + l)" "2 \<le> l" "k + l \<le> 8" "\<forall>g\<in>set (take l (drop k (groups16 bs))). g = 0"
    using zero_run_zeros [of "groups16 bs" 0 "(255, 255)"] assms by (auto simp: length_groups16)
  define mid where "mid = take (2 * l) (drop (2 * k) bs)"
  have "groups16 mid = take l (drop k (groups16 bs))" by (simp add: mid_def groups16_take groups16_drop)
  moreover have len: "length mid = 2 * l" using kl(3) assms(1) by (simp add: mid_def)
  ultimately have "mid = replicate (2 * l) 0" using zero_groups [of mid] kl(4) by simp
  moreover have "bs = take (2 * k) bs @ mid @ drop (2 * (k + l)) bs"
    by (simp add: mid_def) (metis add.commute append_take_drop_id distrib_left drop_drop)
  ultimately show "bs = take (2 * s) bs @ replicate (2 * (e - s)) 0 @ drop (2 * e) bs" using kl(1) by simp
  show "s + 2 \<le> e" "e \<le> 8" using kl by auto
qed

lemma be_word_zeros: "be_word (replicate n 0) = 0"
proof -
  have "le_word (replicate n 0) = 0" by (induction n) auto
  then show ?thesis by (simp add: be_word_def)
qed

text \<open>The part of \<^verbatim>\<open>parseIPv6\<close> after the zone.\<close>

definition parse6_text :: "gostring \<Rightarrow> 128 word option" where
  "parse6_text s =
     (let lead = prefix ''::'' s; s1 = (if lead then drop 2 s else s)
      in if lead \<and> s1 = [] then Some 0
         else case parse6_loop s1 [] (if lead then Some 0 else None) of
           None \<Rightarrow> None
         | Some (rest, ip, ell) \<Rightarrow>
             (if rest \<noteq> [] then None
              else if length ip < 16 then
                (case ell of None \<Rightarrow> None | Some e \<Rightarrow> Some (be_word (take e ip @ replicate (16 - length ip) 0 @ drop e ip)))
              else if ell \<noteq> None then None
              else Some (be_word ip)))"

lemma parse_ipv6_text:
  "parse_ipv6 s = (case split_zone s of None \<Rightarrow> None | Some (t, zone) \<Rightarrow> map_option (\<lambda>w. Addr6 w zone) (parse6_text t))"
  by (auto simp: parse_ipv6_def parse6_text_def Let_def split: option.splits prod.splits)

lemma not_lead: "t \<noteq> [] \<Longrightarrow> hd t \<noteq> CHR '':'' \<Longrightarrow> \<not> prefix ''::'' t"
  by (cases t) auto

lemma parse6_string6:
  assumes "length bs = 16"
  shows "parse6_text (string6 (groups16 bs)) = Some (be_word bs)"
proof -
  obtain s e where run: "zero_run (groups16 bs) 0 (255, 255) = (s, e)" by fastforce
  show ?thesis
  proof (cases "s < 8")
    case True
    define A where "A = take (2 * s) bs"
    define B where "B = drop (2 * e) bs"
    have bs: "bs = A @ replicate (2 * (e - s)) 0 @ B" and se: "s + 2 \<le> e" "e \<le> 8"
      using string6_split [OF assms run True] by (simp_all add: A_def B_def)
    have len: "length A = 2 * s" "length B = 16 - 2 * e" using se assms by (simp_all add: A_def B_def)
    have ev: "even (length A)" "even (length B)" using len by simp_all
    have fit: "length A + length B < 16" "16 - (length A + length B) = 2 * (e - s)" using len se by auto
    have form: "string6 (groups16 bs) = join_sep '':'' (map hex (groups16 A)) @ ''::'' @ join_sep '':'' (map hex (groups16 B))"
      using run True by (simp add: string6_def A_def B_def groups16_take groups16_drop)
    have B: "B \<noteq> [] \<Longrightarrow> join_sep '':'' (map hex (groups16 B)) \<noteq> []" using join_hex_head [OF ev(2), of "[]"] by simp
    have pB: "B \<noteq> [] \<Longrightarrow> length ip + length B \<le> 16 \<Longrightarrow>
        parse6_loop (join_sep '':'' (map hex (groups16 B))) ip ell = Some ([], ip @ B, ell)" for ip ell
      using parse6_groups(1) [OF ev(2)] by blast
    show ?thesis
    proof (cases "A = []")
      case True
      then show ?thesis
        using form bs B pB [of "[]" "Some 0"] fit be_word_zeros [of 16] assms by (cases "B = []") (auto simp: parse6_text_def)
    next
      case False
      note head = join_hex_head [OF ev(1) False, of "''::'' @ join_sep '':'' (map hex (groups16 B))"]
      have "\<not> prefix ''::'' (string6 (groups16 bs))" unfolding form by (rule not_lead) (use head in simp_all)
      then show ?thesis
        using form bs B pB [of A "Some (length A)"] fit parse6_groups(2) [OF ev(1) False, of "[]" "join_sep '':'' (map hex (groups16 B))"]
        by (cases "B = []") (auto simp: parse6_text_def)
    qed
  next
    case False
    then have form: "string6 (groups16 bs) = join_sep '':'' (map hex (groups16 bs))" using run by (simp add: string6_def)
    have ne: "bs \<noteq> []" "even (length bs)" using assms by auto
    have "\<not> prefix ''::'' (string6 (groups16 bs))" unfolding form using join_hex_head [OF ne(2,1), of "[]"] not_lead by simp
    then show ?thesis using form parse6_groups(1) [OF ne(2,1), of "[]" None] assms by (simp add: parse6_text_def)
  qed
qed

subsection \<open>IPv4-mapped addresses\<close>

lemma hex_group_digits:
  "list_all (\<lambda>c. hex_val c \<noteq> None) ds \<Longrightarrow> off + length ds \<le> 4 \<Longrightarrow> acc < 16 ^ off \<Longrightarrow> rest = [] \<or> hex_val (hd rest) = None \<Longrightarrow>
    \<exists>v. hex_group off acc (ds @ rest) = Some (off + length ds, v, rest)"
proof (induction ds arbitrary: off acc)
  case Nil
  then show ?case by (cases rest) auto
next
  case (Cons c ds)
  obtain d where d: "hex_val c = Some d" "d < 16" using Cons.prems(1) by (auto simp: hex_val_def Let_def split: if_splits)
  then have v: "acc * 16 + d < 16 ^ Suc off" using Cons.prems(3) by simp
  also have "\<dots> \<le> 16 ^ 4" using Cons.prems(2) by (intro power_increasing) auto
  finally show ?case
    using Cons.IH [of "Suc off" "acc * 16 + d"] Cons.prems d v by simp
qed

lemma digit_is_hex: "is_digit c \<Longrightarrow> hex_val c \<noteq> None"
  by (auto simp: is_digit_def hex_val_def Let_def)

lemma dec_length: "0 \<le> n \<Longrightarrow> n < 10 ^ Suc k \<Longrightarrow> length (fmt_bits 10 n []) \<le> Suc k"
proof (induction k arbitrary: n)
  case (Suc k)
  show ?case
  proof (cases "n < 10")
    case False
    have "n div 10 * 10 \<le> n" using div_mult_mod_eq [of n 10] pos_mod_sign [of 10 n] by linarith
    then have "0 \<le> n div 10" "n div 10 < 10 ^ Suc k" using Suc.prems by simp_all
    then show ?thesis using Suc.IH [of "n div 10"] False by (simp add: fmt_bits_snoc)
  qed (simp add: fmt_bits_digit)
qed (simp add: fmt_bits_digit)

lemma itoa_byte: "list_all is_digit (itoa (uint (b :: u8))) \<and> length (itoa (uint b)) \<le> 3"
proof -
  have "uint b < 10 ^ Suc 2" by (rule order_le_less_trans [OF uint_byte(2)]) simp
  then show ?thesis using dec_digits [of "uint b"] dec_length [of "uint b" 2] by (simp add: itoa_def)
qed

lemma le_bytes_split: "le_bytes (m + n) w = le_bytes m w @ le_bytes n (drop_bit (8 * m) w)"
  by (induction m arbitrary: w) (simp_all add: drop_bit_drop_bit add.commute)

lemma le_bytes_zero: "le_bytes n 0 = replicate n 0"
  by (induction n) simp_all

lemma mapped_bytes:
  assumes "is4in6 (Addr6 w z)"
  shows "be_bytes 16 w = replicate 10 0 @ [255, 255] @ be_bytes 4 w"
proof -
  have "le_bytes 16 w = le_bytes 4 w @ le_bytes 12 (drop_bit 32 w)" using le_bytes_split [of 4 12 w] by simp
  moreover have "drop_bit 32 w = 0xffff" using assms by (simp add: is4in6_def)
  moreover have "le_bytes 12 0xffff = [255, 255] @ replicate 10 0"
  proof -
    have "le_bytes (Suc (Suc 10)) 0xffff = ucast (0xffff :: 128 word) # ucast (drop_bit 8 (0xffff :: 128 word))
        # le_bytes 10 (drop_bit 8 (drop_bit 8 0xffff))" by (simp only: le_bytes.simps)
    moreover have "ucast (0xffff :: 128 word) = (255 :: u8)" "drop_bit 8 (0xffff :: 128 word) = 255" "drop_bit 8 (255 :: 128 word) = 0"
      by simp_all
    ultimately show ?thesis by (simp add: le_bytes_zero)
  qed
  ultimately show ?thesis by (simp add: be_bytes_def)
qed

lemma string4_head: "\<exists>r. string4 (x # y # bs) = itoa (uint x) @ CHR ''.'' # r"
  by (simp add: string4_def join_Cons)

lemma parse6_mapped:
  assumes "is4in6 (Addr6 w z)"
  shows "parse6_text (''::ffff:'' @ string4 (be_bytes 4 w)) = Some w"
proof -
  obtain a b c d where bytes: "be_bytes 4 w = [a, b, c, d]" using four_bytes by blast
  define t where "t = string4 [a, b, c, d]"
  obtain r where r: "t = itoa (uint a) @ CHR ''.'' # r" using string4_head unfolding t_def by blast
  have dg: "list_all is_digit (itoa (uint a))" "length (itoa (uint a)) \<le> 3" using itoa_byte [of a] by simp_all
  have "hex_val CHR ''.'' = None" by (simp add: hex_val_def)
  then obtain v where hg: "hex_group 0 0 t = Some (length (itoa (uint a)), v, CHR ''.'' # r)"
    using hex_group_digits [of "itoa (uint a)" 0 0 "CHR ''.'' # r"] dg digit_is_hex unfolding r by (auto simp: list_all_iff)
  have ne: "itoa (uint a) \<noteq> []" by (rule itoa_nonempty) simp
  have last: "parse6_loop t [255, 255] (Some 0) = Some ([], [255, 255, a, b, c, d], Some 0)"
    by (subst parse6_loop.simps) (use hg ne parse4_string4 [of a b c d] in \<open>simp add: t_def\<close>)
  have "hd (itoa (uint a)) \<noteq> CHR '':''" using dg(1) ne by (cases "itoa (uint a)") (auto simp: is_digit_def)
  then have "t \<noteq> []" "hd t \<noteq> CHR '':''" using ne by (simp_all add: r)
  moreover have "''ffff'' = hex (group 255 255)" by code_simp
  ultimately have "parse6_loop (''ffff'' @ '':'' @ t) [] (Some 0) = Some ([], [255, 255, a, b, c, d], Some 0)"
    using parse6_group [of "[]" "'':'' @ t" 255 255 "Some 0"] last by simp
  moreover have "replicate 10 0 @ [255, 255, a, b, c, d] = be_bytes 16 w" using mapped_bytes [OF assms] bytes by simp
  ultimately show ?thesis
    using bytes be_word_be_bytes [of w] by (simp add: parse6_text_def t_def)
qed

subsection \<open>Zones and the scan for the family\<close>

lemma index_of_percent: "CHR ''%'' \<notin> set t \<Longrightarrow> index_of (t @ CHR ''%'' # z) ''%'' = Some (length t)"
  "CHR ''%'' \<notin> set t \<Longrightarrow> index_of t ''%'' = None"
  by (induction t) auto

lemma split_zone_suffix: "CHR ''%'' \<notin> set t \<Longrightarrow> split_zone (t @ zone_suffix z) = Some (t, z)"
  using index_of_percent(1) [of t z] index_of_percent(2) [of t] by (simp add: split_zone_def zone_suffix_def)

lemma set_join_sep: "set (join_sep sep xs) \<subseteq> set sep \<union> (\<Union>x\<in>set xs. set x)"
  by (induction sep xs rule: join_sep.induct) auto

lemma scan_skip:
  assumes "list_all (\<lambda>c. hex_val c \<noteq> None) ds"
  shows "parse_addr_scan s (ds @ CHR '':'' # r) = parse_ipv6 s" "parse_addr_scan s (ds @ CHR ''.'' # r) = parse_ipv4 s"
  using assms by (induction ds) (auto simp: hex_val_def)

lemma percent_not_hex: "list_all (\<lambda>c. hex_val c \<noteq> None) ds \<Longrightarrow> CHR ''%'' \<notin> set ds"
  by (induction ds) (auto simp: hex_val_def)

lemma digits_hex: "list_all is_digit ds \<Longrightarrow> list_all (\<lambda>c. hex_val c \<noteq> None) ds"
  using digit_is_hex by (auto simp: list_all_iff)

lemma percent_join: "\<forall>x\<in>set xs. CHR ''%'' \<notin> set x \<Longrightarrow> CHR ''%'' \<notin> set sep \<Longrightarrow> CHR ''%'' \<notin> set (join_sep sep xs)"
  using set_join_sep [of sep xs] by blast

lemma percent_string4: "CHR ''%'' \<notin> set (string4 bs)"
  unfolding string4_def by (rule percent_join) (use percent_not_hex digits_hex itoa_byte in auto)

lemma percent_string6:
  assumes "length bs = 16"
  shows "CHR ''%'' \<notin> set (string6 (groups16 bs))"
proof -
  have "0 \<le> g" if "g \<in> set (groups16 bs)" for g
    using that by (induction bs rule: groups16.induct) auto
  then have "CHR ''%'' \<notin> set (join_sep '':'' (map hex gs))" if "set gs \<subseteq> set (groups16 bs)" for gs
    using that percent_not_hex hex_hd by (intro percent_join) auto
  then show ?thesis by (auto simp: string6_def set_take_subset set_drop_subset split: prod.splits)
qed

text \<open>The text of an IPv6 address starts with hexadecimal digits and a colon.\<close>

lemma string6_scan:
  assumes "length bs = 16"
  shows "\<exists>ds r. list_all (\<lambda>c. hex_val c \<noteq> None) ds \<and> string6 (groups16 bs) = ds @ CHR '':'' # r"
proof -
  obtain a b bs1 where bs: "bs = a # b # bs1" using assms by (cases bs rule: groups16.cases) auto
  then have "groups16 bs1 \<noteq> []" using assms by (cases bs1 rule: groups16.cases) auto
  then obtain g gs where g: "groups16 bs = group a b # g # gs" using bs by (cases "groups16 bs1") (auto simp: group_def)
  have d: "list_all (\<lambda>c. hex_val c \<noteq> None) (hex (group a b))" using hex_hd group_range(1) by blast
  obtain s e where run: "zero_run (groups16 bs) 0 (255, 255) = (s, e)" by fastforce
  consider "s = 0" | "s = 1" | k where "s = Suc (Suc k)" by (metis One_nat_def nat.exhaust)
  then show ?thesis
  proof cases
    case 1
    with run have "string6 (groups16 bs) = [] @ CHR '':'' # CHR '':'' # join_sep '':'' (map hex (drop e (groups16 bs)))"
      by (simp add: string6_def)
    moreover have "list_all (\<lambda>c. hex_val c \<noteq> None) []" by simp
    ultimately show ?thesis by blast
  next
    case 2
    with run g have "string6 (groups16 bs) = hex (group a b) @ CHR '':'' # CHR '':'' # join_sep '':'' (map hex (drop e (groups16 bs)))"
      by (simp add: string6_def)
    then show ?thesis using d by blast
  next
    case 3
    with run g have "\<exists>r. string6 (groups16 bs) = hex (group a b) @ CHR '':'' # r" by (simp add: string6_def)
    then show ?thesis using d by blast
  qed
qed

section \<open>Addresses are read back\<close>

lemma parse_addr_string4: "parse_addr (addr_string (Addr4 w)) = Some (Addr4 w)"
proof -
  obtain a b c d where bytes: "be_bytes 4 (ucast w) = [a, b, c, d]" using four_bytes by blast
  obtain r where r: "string4 [a, b, c, d] = itoa (uint a) @ CHR ''.'' # r" using string4_head by blast
  have "parse_addr_scan s (string4 [a, b, c, d]) = parse_ipv4 s" for s
    using scan_skip(2) [OF digits_hex] itoa_byte [of a] r by simp
  then show ?thesis
    using parse4_string4 [of a b c d] four_bytes_word [of w] bytes by (simp add: parse_addr_def parse_ipv4_def)
qed

lemma parse_addr_string6: "parse_addr (addr_string (Addr6 w z)) = Some (Addr6 w z)"
proof -
  define t where "t = (if is4in6 (Addr6 w z) then ''::ffff:'' @ string4 (be_bytes 4 w) else string6 (groups16 (be_bytes 16 w)))"
  have "parse6_text t = Some w"
    using parse6_mapped [of w z] parse6_string6 [of "be_bytes 16 w"] by (simp add: t_def)
  moreover have "CHR ''%'' \<notin> set t" by (simp add: t_def percent_string4 percent_string6)
  ultimately have "parse_ipv6 (t @ zone_suffix z) = Some (Addr6 w z)"
    using split_zone_suffix by (simp add: parse_ipv6_text)
  moreover have "\<exists>ds r. list_all (\<lambda>c. hex_val c \<noteq> None) ds \<and> t = ds @ CHR '':'' # r"
    using string6_scan [of "be_bytes 16 w"] by (auto simp: t_def intro: exI [of _ "[]"])
  ultimately show ?thesis
    using scan_skip(1) by (auto simp: parse_addr_def simp flip: t_def)
qed

lemma parse_addr_string: "a \<noteq> AddrZero \<Longrightarrow> parse_addr (addr_string a) = Some a"
  by (cases a) (simp_all only: parse_addr_string4 parse_addr_string6 simp_thms)

lemma split_last_tail: "c \<notin> set t \<Longrightarrow> split_last c (s @ c # t) = Some (s, t)"
proof -
  assume "c \<notin> set t"
  then have "takeWhile (\<lambda>x. x \<noteq> c) (rev t @ c # rev s) = rev t" "dropWhile (\<lambda>x. x \<noteq> c) (rev t @ c # rev s) = c # rev s"
    using takeWhile_append2 [of "rev t" "\<lambda>x. x \<noteq> c" "c # rev s"] dropWhile_append2 [of "rev t" "\<lambda>x. x \<noteq> c" "c # rev s"] by auto
  then show ?thesis by (simp add: split_last_def)
qed

lemma parse_port_itoa: "parse_port (itoa (uint (p :: u16))) = Some (unat p)"
proof -
  have "uint p \<le> 65535" using uint_lt2p [of p] by simp
  then have "nat (uint p) \<le> 65535" by (simp only: nat_le_iff of_nat_numeral)
  then have "unat p \<le> 65535" by (simp only: unat_eq_nat_uint)
  moreover have "atoi (itoa (uint p)) = Some (unat p)" by (simp add: atoi_itoa unat_eq_nat_uint del: nat_uint_eq)
  ultimately show ?thesis by (simp only: parse_port_def option.case if_True)
qed

lemma digits_no_colon: "list_all is_digit s \<Longrightarrow> CHR '':'' \<notin> set s"
  by (induction s) (auto simp: is_digit_def)

lemma parse_addr_port_string:
  assumes "ap_addr p \<noteq> AddrZero"
  shows "parse_addr_port (addr_port_string p) = Some (ap_addr p, unat (ap_port p))"
proof -
  define port where "port = itoa (uint (ap_port p))"
  have port: "CHR '':'' \<notin> set port" "port \<noteq> []" "parse_port port = Some (unat (ap_port p))"
    using dec_digits [of "uint (ap_port p)"] parse_port_itoa by (simp_all add: port_def itoa_def digits_no_colon)
  show ?thesis
  proof (cases "ap_addr p")
    case (Addr4 w)
    obtain a b c d where bytes: "be_bytes 4 (ucast w) = [a, b, c, d]" using four_bytes by blast
    obtain r where r: "string4 [a, b, c, d] = itoa (uint a) @ CHR ''.'' # r" using string4_head by blast
    have "itoa (uint a) \<noteq> []" "list_all is_digit (itoa (uint a))" using itoa_nonempty itoa_byte by simp_all
    then have "addr_string (Addr4 w) \<noteq> []" "hd (addr_string (Addr4 w)) \<noteq> CHR ''[''"
      by (simp_all add: bytes r) (cases "itoa (uint a)"; auto simp: is_digit_def)
    then show ?thesis
      using split_last_tail [OF port(1), of "addr_string (Addr4 w)"] port parse_addr_string4 [of w] Addr4
      by (simp add: addr_port_string_def parse_addr_port_def Let_def flip: port_def del: addr_string.simps)
  next
    case (Addr6 w z)
    then show ?thesis
      using split_last_tail [OF port(1), of "''['' @ addr_string (Addr6 w z) @ '']''"] port parse_addr_string6 [of w z]
      by (simp add: addr_port_string_def parse_addr_port_def Let_def flip: port_def del: addr_string.simps)
  qed (use assms in simp)
qed

end
