(* ===== verification/Config.thy ===== *)
theory Config
  imports GoFmt Cache
begin

text \<open>
  Package \<^verbatim>\<open>internal/config\<close>: the configuration, its defaults and its validation, together with
  \<^verbatim>\<open>time.ParseDuration\<close> of the standard library.

  The TOML decoder is not part of the repository; it appears as an argument that turns bytes into the
  record \<^verbatim>\<open>raw\<close> or fails. \<^verbatim>\<open>ParseDuration\<close> computes fractions in floating point; that one computation
  is an argument \<^verbatim>\<open>frac\<close>, a function of the digits after the point, their number and the unit.
\<close>

section \<open>time.ParseDuration\<close>

fun leading_int :: "int \<Rightarrow> gostring \<Rightarrow> (int \<times> gostring) option" where
  "leading_int x [] = Some (x, [])"
| "leading_int x (c # s) =
     (if \<not> is_digit c then Some (x, c # s)
      else if x > 2 ^ 63 div 10 then None
      else let x = x * 10 + int (digit_val c) in if x > 2 ^ 63 then None else leading_int x s)"

text \<open>The digits after the point: value, number of digits used, rest. Digits that would overflow are skipped.\<close>

fun leading_fraction :: "int \<Rightarrow> nat \<Rightarrow> bool \<Rightarrow> gostring \<Rightarrow> int \<times> nat \<times> gostring" where
  "leading_fraction x scale overflow [] = (x, scale, [])"
| "leading_fraction x scale overflow (c # s) =
     (if \<not> is_digit c then (x, scale, c # s)
      else if overflow then leading_fraction x scale True s
      else if x > (2 ^ 63 - 1) div 10 then leading_fraction x scale True s
      else let y = x * 10 + int (digit_val c)
           in if y > 2 ^ 63 then leading_fraction x scale True s
              else leading_fraction y (Suc scale) False s)"

definition unit_ns :: "gostring \<Rightarrow> int option" where [go_chars]:
  "unit_ns u =
     (if u = ''ns'' then Some 1
      else if u = ''us'' \<or> u = [CHR 0xC2, CHR 0xB5, CHR ''s''] \<or> u = [CHR 0xCE, CHR 0xBC, CHR ''s''] then Some 1000
      else if u = ''ms'' then Some 1000000
      else if u = ''s'' then Some 1000000000
      else if u = ''m'' then Some 60000000000
      else if u = ''h'' then Some 3600000000000
      else None)"

definition unit_char :: "char \<Rightarrow> bool" where [go_chars]:
  "unit_char c \<longleftrightarrow> c \<noteq> CHR ''.'' \<and> \<not> is_digit c"

text \<open>One number with its unit: nanoseconds and the rest of the text.\<close>

definition dur_part :: "(int \<Rightarrow> nat \<Rightarrow> int \<Rightarrow> int) \<Rightarrow> gostring \<Rightarrow> (int \<times> gostring) option" where
  "dur_part frac s =
     (if \<not> (hd s = CHR ''.'' \<or> is_digit (hd s)) then None
      else case leading_int 0 s of
        None \<Rightarrow> None
      | Some (v, s1) \<Rightarrow>
          (let pre = (length s1 \<noteq> length s);
               (f, scale, s2) = (if s1 \<noteq> [] \<and> hd s1 = CHR ''.'' then leading_fraction 0 0 False (tl s1) else (0, 0, s1));
               post = (s1 \<noteq> [] \<and> hd s1 = CHR ''.'' \<and> length s2 \<noteq> length (tl s1))
           in if \<not> pre \<and> \<not> post then None
              else let u = takeWhile unit_char s2
                   in if u = [] then None
                      else case unit_ns u of
                        None \<Rightarrow> None
                      | Some unit \<Rightarrow>
                          (if v > 2 ^ 63 div unit then None
                           else let w = v * unit + (if f > 0 then frac f scale unit else 0)
                                in if f > 0 \<and> w > 2 ^ 63 then None else Some (w, dropWhile unit_char s2))))"

lemma leading_int_length: "leading_int x s = Some (v, s') \<Longrightarrow> length s' \<le> length s"
  by (induction x s rule: leading_int.induct) (auto simp: Let_def split: if_splits)

lemma leading_fraction_length: "length (snd (snd (leading_fraction x sc ov s))) \<le> length s"
  by (induction s arbitrary: x sc ov) (simp_all add: Let_def le_SucI)

lemma dur_part_length:
  assumes "dur_part frac s = Some (w, s')"
  shows "length s' < length s"
proof -
  obtain v s1 where 1: "leading_int 0 s = Some (v, s1)" using assms by (auto simp: dur_part_def split: if_splits option.splits)
  define q where "q = (if s1 \<noteq> [] \<and> hd s1 = CHR ''.'' then leading_fraction 0 0 False (tl s1) else (0, 0, s1))"
  obtain f sc s2 where q: "q = (f, sc, s2)" by (metis prod_cases3)
  have "takeWhile unit_char s2 \<noteq> [] \<and> s' = dropWhile unit_char s2"
    using assms 1 q unfolding q_def by (auto simp: dur_part_def Let_def split: if_splits option.splits)
  then have "length s' < length s2"
    using takeWhile_dropWhile_id [of unit_char s2] by (metis add_less_cancel_right add_0 length_append length_greater_0_conv)
  moreover have "length s2 \<le> length s1"
    using q leading_fraction_length [of 0 0 False "tl s1"] by (auto simp: q_def split: if_splits)
  ultimately show ?thesis using leading_int_length [OF 1] by simp
qed

function dur_loop :: "(int \<Rightarrow> nat \<Rightarrow> int \<Rightarrow> int) \<Rightarrow> int \<Rightarrow> gostring \<Rightarrow> int option" where
  "dur_loop frac d s =
     (if s = [] then Some d
      else case dur_part frac s of
        None \<Rightarrow> None
      | Some (w, s') \<Rightarrow>
          (let d = (d + w) mod 2 ^ 64 in if d > 2 ^ 63 then None else dur_loop frac d s'))"
  by pat_completeness auto
termination
  by (relation "measure (\<lambda>(frac, d, s). length s)") (auto dest: dur_part_length)

declare dur_loop.simps [simp del]

definition ParseDuration :: "(int \<Rightarrow> nat \<Rightarrow> int \<Rightarrow> int) \<Rightarrow> gostring \<Rightarrow> int option" where
  "ParseDuration frac s =
     (let neg = (s \<noteq> [] \<and> hd s = CHR ''-'');
          s = (if s \<noteq> [] \<and> (hd s = CHR ''-'' \<or> hd s = CHR ''+'') then tl s else s)
      in if s = ''0'' then Some 0
         else if s = [] then None
         else case dur_loop frac 0 s of
           None \<Rightarrow> None
         | Some d \<Rightarrow> (if neg then Some (- d) else if d > 2 ^ 63 - 1 then None else Some d))"

section \<open>Data\<close>

record rawUpstream =
  ru_addr :: gostring
  ru_port :: int
  ru_role :: gostring

record rawChina =
  PrefixFiles_raw :: "gostring list"
  OverridesFile_raw :: gostring

record rawResolve =
  rr_overall :: gostring
  rr_attempt :: gostring
  rr_hops :: int
  rr_udp :: int
  rr_minttl :: gostring
  rr_maxttl :: gostring
  rr_negmin :: gostring
  rr_negmax :: gostring

record rawCache =
  rc_enabled :: "bool option"
  rc_max :: int
  rc_sweep :: gostring

record rawForward =
  rf_timeout :: gostring

record rawLog =
  rl_level :: gostring
  rl_format :: gostring

record rawMetrics =
  rm_listen :: gostring

record raw =
  raw_bind :: gostring
  raw_port :: int
  raw_udp :: "bool option"
  raw_tcp :: "bool option"
  raw_idle :: gostring
  raw_conc :: int
  raw_upstreams :: "rawUpstream list"
  raw_china :: rawChina
  raw_resolve :: rawResolve
  raw_cache :: rawCache
  raw_forward :: rawForward
  raw_log :: rawLog
  raw_metrics :: rawMetrics

datatype Role = RoleAuto | RoleChina | RoleForeign

record cfg_upstream =
  cu_addr :: addr
  cu_port :: int
  cu_role :: Role

text \<open>\<^verbatim>\<open>Upstream.String\<close>\<close>

definition Upstream_String :: "cfg_upstream \<Rightarrow> gostring" where
  "Upstream_String u = addr_port_string \<lparr>ap_addr = cu_addr u, ap_port = word_of_int (cu_port u)\<rparr>"

record Config =
  Bind :: gostring
  Port :: int
  UDP :: bool
  TCP :: bool
  TCPIdleTimeout :: int
  MaxConcurrency :: int
  Upstreams :: "cfg_upstream list"
  PrefixFiles :: "gostring list"
  OverridesFile :: gostring
  OverallTimeout :: int
  AttemptTimeout :: int
  MaxCNAMEHops :: int
  UDPPayloadSize :: int
  cfg_MinTTL :: int
  MaxTTL :: int
  NegMinTTL :: int
  NegMaxTTL :: int
  CacheEnabled :: bool
  MaxEntries :: int
  SweepInterval :: int
  ForwardTimeout :: int
  LogLevel :: gostring
  LogFormat :: gostring
  MetricsListen :: gostring

text \<open>The errors of \<^verbatim>\<open>build\<close>, with what their messages carry.\<close>

datatype config_error =
    ErrPort int
  | ErrNoTransport
  | ErrDuration gostring gostring
  | ErrConcurrency
  | ErrUpstreamAddr nat gostring
  | ErrUpstreamPort nat int
  | ErrUpstreamRole nat gostring
  | ErrNoUpstream
  | ErrDuplicate addr
  | ErrNoPrefixFiles
  | ErrAttempt int int
  | ErrHops
  | ErrPayload
  | ErrTTLOrder
  | ErrNegTTLOrder
  | ErrMaxEntries
  | ErrLogLevel gostring
  | ErrLogFormat gostring
  | ErrMetricsListen gostring
  | ErrParse gostring

section \<open>Operations\<close>

definition Defaults :: Config where
  "Defaults = \<lparr>Bind = ''127.0.0.1'', Port = 8053, UDP = True, TCP = True, TCPIdleTimeout = 30 * second,
     MaxConcurrency = 512, Upstreams = [], PrefixFiles = [], OverridesFile = [],
     OverallTimeout = 2500000000, AttemptTimeout = 1500000000, MaxCNAMEHops = 10, UDPPayloadSize = 1232,
     cfg_MinTTL = 30 * second, MaxTTL = 3600 * second, NegMinTTL = 60 * second, NegMaxTTL = 600 * second,
     CacheEnabled = True, MaxEntries = 65536, SweepInterval = 30 * second, ForwardTimeout = 2500000000,
     LogLevel = ''info'', LogFormat = ''text'', MetricsListen = []\<rparr>"

text \<open>A duration that may be left out: the default, the parsed value, or the field's error.\<close>

definition opt_duration :: "(int \<Rightarrow> nat \<Rightarrow> int \<Rightarrow> int) \<Rightarrow> gostring \<Rightarrow> gostring \<Rightarrow> int \<Rightarrow> config_error + int" where
  "opt_duration frac field txt dflt =
     (if txt \<noteq> [] then (case ParseDuration frac txt of None \<Rightarrow> Inl (ErrDuration field txt) | Some d \<Rightarrow> Inr d)
      else Inr dflt)"

text \<open>The sections of \<^verbatim>\<open>build\<close>, in its order; each stops at the first error.\<close>

definition build_listen :: "(int \<Rightarrow> nat \<Rightarrow> int \<Rightarrow> int) \<Rightarrow> raw \<Rightarrow> Config \<Rightarrow> config_error + Config" where
  "build_listen frac r c =
     (let c = (if raw_bind r \<noteq> [] then c\<lparr>Bind := raw_bind r\<rparr> else c)
      in if raw_port r \<noteq> 0 \<and> (raw_port r < 1 \<or> raw_port r > 65535) then Inl (ErrPort (raw_port r))
         else let c = (if raw_port r \<noteq> 0 then c\<lparr>Port := raw_port r\<rparr> else c);
                  c = (case raw_udp r of Some b \<Rightarrow> c\<lparr>UDP := b\<rparr> | None \<Rightarrow> c);
                  c = (case raw_tcp r of Some b \<Rightarrow> c\<lparr>TCP := b\<rparr> | None \<Rightarrow> c)
              in if \<not> UDP c \<and> \<not> TCP c then Inl ErrNoTransport
                 else case opt_duration frac ''tcp_idle_timeout'' (raw_idle r) (TCPIdleTimeout c) of
                   Inl e \<Rightarrow> Inl e
                 | Inr d \<Rightarrow>
                     (let c = c\<lparr>TCPIdleTimeout := d\<rparr>
                      in if raw_conc r \<noteq> 0 then
                           (if raw_conc r < 1 then Inl ErrConcurrency else Inr (c\<lparr>MaxConcurrency := raw_conc r\<rparr>))
                         else Inr c))"

fun build_upstreams :: "nat \<Rightarrow> rawUpstream list \<Rightarrow> cfg_upstream list \<Rightarrow> config_error + cfg_upstream list" where
  "build_upstreams i [] out = Inr out"
| "build_upstreams i (u # us) out =
     (case parse_addr (ru_addr u) of
        None \<Rightarrow> Inl (ErrUpstreamAddr i (ru_addr u))
      | Some a \<Rightarrow>
          (if ru_port u \<noteq> 0 \<and> (ru_port u < 1 \<or> ru_port u > 65535) then Inl (ErrUpstreamPort i (ru_port u))
           else let port = (if ru_port u \<noteq> 0 then ru_port u else 53);
                    next_up = (\<lambda>role. build_upstreams (Suc i) us (out @ [\<lparr>cu_addr = a, cu_port = port, cu_role = role\<rparr>]))
                in if ru_role u = [] \<or> ru_role u = ''auto'' then next_up RoleAuto
                   else if ru_role u = ''china'' then next_up RoleChina
                   else if ru_role u = ''foreign'' then next_up RoleForeign
                   else Inl (ErrUpstreamRole i (ru_role u))))"

fun check_duplicates :: "addr set \<Rightarrow> cfg_upstream list \<Rightarrow> addr option" where
  "check_duplicates seen [] = None"
| "check_duplicates seen (u # us) =
     (if cu_addr u \<in> seen then Some (cu_addr u) else check_duplicates (insert (cu_addr u) seen) us)"

definition build_sources :: "raw \<Rightarrow> Config \<Rightarrow> config_error + Config" where
  "build_sources r c =
     (case build_upstreams 0 (raw_upstreams r) [] of
        Inl e \<Rightarrow> Inl e
      | Inr ups \<Rightarrow>
          (if length ups < 1 then Inl ErrNoUpstream
           else case check_duplicates {} ups of
             Some a \<Rightarrow> Inl (ErrDuplicate a)
           | None \<Rightarrow>
               (if length (PrefixFiles_raw (raw_china r)) = 0 then Inl ErrNoPrefixFiles
                else Inr (c\<lparr>Upstreams := ups, PrefixFiles := PrefixFiles_raw (raw_china r),
                            OverridesFile := OverridesFile_raw (raw_china r)\<rparr>))))"

definition build_timeouts :: "(int \<Rightarrow> nat \<Rightarrow> int \<Rightarrow> int) \<Rightarrow> rawResolve \<Rightarrow> Config \<Rightarrow> config_error + Config" where
  "build_timeouts frac r c =
     (case opt_duration frac ''resolve.overall_timeout'' (rr_overall r) (OverallTimeout c) of
        Inl e \<Rightarrow> Inl e
      | Inr ov \<Rightarrow>
          (case opt_duration frac ''resolve.attempt_timeout'' (rr_attempt r) (AttemptTimeout c) of
             Inl e \<Rightarrow> Inl e
           | Inr at \<Rightarrow>
               (if at > ov then Inl (ErrAttempt at ov)
                else if rr_hops r \<noteq> 0 \<and> (rr_hops r < 1 \<or> rr_hops r > 64) then Inl ErrHops
                else if rr_udp r \<noteq> 0 \<and> (rr_udp r < 512 \<or> rr_udp r > 4096) then Inl ErrPayload
                else Inr (c\<lparr>OverallTimeout := ov, AttemptTimeout := at,
                            MaxCNAMEHops := (if rr_hops r \<noteq> 0 then rr_hops r else MaxCNAMEHops c),
                            UDPPayloadSize := (if rr_udp r \<noteq> 0 then rr_udp r else UDPPayloadSize c)\<rparr>))))"

definition build_ttls :: "(int \<Rightarrow> nat \<Rightarrow> int \<Rightarrow> int) \<Rightarrow> rawResolve \<Rightarrow> Config \<Rightarrow> config_error + Config" where
  "build_ttls frac r c =
     (case opt_duration frac ''resolve.min_ttl'' (rr_minttl r) (cfg_MinTTL c) of
        Inl e \<Rightarrow> Inl e
      | Inr mn \<Rightarrow>
          (case opt_duration frac ''resolve.max_ttl'' (rr_maxttl r) (MaxTTL c) of
             Inl e \<Rightarrow> Inl e
           | Inr mx \<Rightarrow>
               (if mn > mx then Inl ErrTTLOrder
                else case opt_duration frac ''resolve.neg_min_ttl'' (rr_negmin r) (NegMinTTL c) of
                  Inl e \<Rightarrow> Inl e
                | Inr nmn \<Rightarrow>
                    (case opt_duration frac ''resolve.neg_max_ttl'' (rr_negmax r) (NegMaxTTL c) of
                       Inl e \<Rightarrow> Inl e
                     | Inr nmx \<Rightarrow>
                         (if nmn > nmx then Inl ErrNegTTLOrder
                          else Inr (c\<lparr>cfg_MinTTL := mn, MaxTTL := mx, NegMinTTL := nmn, NegMaxTTL := nmx\<rparr>))))))"

definition build_rest :: "(int \<Rightarrow> nat \<Rightarrow> int \<Rightarrow> int) \<Rightarrow> raw \<Rightarrow> Config \<Rightarrow> config_error + Config" where
  "build_rest frac r c =
     (let c = (case rc_enabled (raw_cache r) of Some b \<Rightarrow> c\<lparr>CacheEnabled := b\<rparr> | None \<Rightarrow> c)
      in if rc_max (raw_cache r) \<noteq> 0 \<and> rc_max (raw_cache r) < 1 then Inl ErrMaxEntries
         else let c = (if rc_max (raw_cache r) \<noteq> 0 then c\<lparr>MaxEntries := rc_max (raw_cache r)\<rparr> else c)
              in case opt_duration frac ''cache.sweep_interval'' (rc_sweep (raw_cache r)) (SweepInterval c) of
                Inl e \<Rightarrow> Inl e
              | Inr sw \<Rightarrow>
                  (case opt_duration frac ''forward.timeout'' (rf_timeout (raw_forward r)) (ForwardTimeout c) of
                     Inl e \<Rightarrow> Inl e
                   | Inr fw \<Rightarrow>
                       (let c = c\<lparr>SweepInterval := sw, ForwardTimeout := fw\<rparr>
                        in if rl_level (raw_log r) \<notin> {[], ''debug'', ''info'', ''warn'', ''error''}
                           then Inl (ErrLogLevel (rl_level (raw_log r)))
                           else if rl_format (raw_log r) \<notin> {[], ''text'', ''json''}
                           then Inl (ErrLogFormat (rl_format (raw_log r)))
                           else let c = (if rl_level (raw_log r) \<noteq> [] then c\<lparr>LogLevel := rl_level (raw_log r)\<rparr> else c);
                                    c = (if rl_format (raw_log r) \<noteq> [] then c\<lparr>LogFormat := rl_format (raw_log r)\<rparr> else c)
                                in if rm_listen (raw_metrics r) \<noteq> [] then
                                     (case parse_addr_port (rm_listen (raw_metrics r)) of
                                        None \<Rightarrow> Inl (ErrMetricsListen (rm_listen (raw_metrics r)))
                                      | Some _ \<Rightarrow> Inr (c\<lparr>MetricsListen := rm_listen (raw_metrics r)\<rparr>))
                                   else Inr c)))"

definition build :: "(int \<Rightarrow> nat \<Rightarrow> int \<Rightarrow> int) \<Rightarrow> raw \<Rightarrow> config_error + Config" where
  "build frac r =
     (case build_listen frac r Defaults of
        Inl e \<Rightarrow> Inl e
      | Inr c \<Rightarrow>
          (case build_sources r c of
             Inl e \<Rightarrow> Inl e
           | Inr c \<Rightarrow>
               (case build_timeouts frac (raw_resolve r) c of
                  Inl e \<Rightarrow> Inl e
                | Inr c \<Rightarrow>
                    (case build_ttls frac (raw_resolve r) c of
                       Inl e \<Rightarrow> Inl e
                     | Inr c \<Rightarrow> build_rest frac r c))))"

text \<open>\<^verbatim>\<open>Load\<close> and \<^verbatim>\<open>FromBytes\<close>: the decoder and the file system are arguments.\<close>

definition FromBytes :: "(gostring \<Rightarrow> raw option) \<Rightarrow> (int \<Rightarrow> nat \<Rightarrow> int \<Rightarrow> int) \<Rightarrow> gostring \<Rightarrow> config_error + Config" where
  "FromBytes decode frac data = (case decode data of None \<Rightarrow> Inl (ErrParse []) | Some r \<Rightarrow> build frac r)"

definition Config_Load :: "(gostring \<Rightarrow> raw option) \<Rightarrow> (int \<Rightarrow> nat \<Rightarrow> int \<Rightarrow> int)
    \<Rightarrow> (gostring \<rightharpoonup> gostring) \<Rightarrow> gostring \<Rightarrow> config_error + Config" where
  "Config_Load decode frac files path =
     (case files path of
        None \<Rightarrow> Inl (ErrParse path)
      | Some data \<Rightarrow> (case decode data of None \<Rightarrow> Inl (ErrParse path) | Some r \<Rightarrow> build frac r))"

section \<open>Validation\<close>

text \<open>What a configuration accepted by \<^verbatim>\<open>build\<close> satisfies, section by section.\<close>

definition valid_listen :: "Config \<Rightarrow> bool" where
  "valid_listen c \<longleftrightarrow> 1 \<le> Port c \<and> Port c \<le> 65535 \<and> (UDP c \<or> TCP c) \<and> 1 \<le> MaxConcurrency c"

definition valid_sources :: "Config \<Rightarrow> bool" where
  "valid_sources c \<longleftrightarrow> Upstreams c \<noteq> [] \<and> distinct (map cu_addr (Upstreams c))
     \<and> (\<forall>u\<in>set (Upstreams c). cu_addr u \<noteq> AddrZero \<and> 1 \<le> cu_port u \<and> cu_port u \<le> 65535) \<and> PrefixFiles c \<noteq> []"

definition valid_resolve :: "Config \<Rightarrow> bool" where
  "valid_resolve c \<longleftrightarrow> AttemptTimeout c \<le> OverallTimeout c \<and> 1 \<le> MaxCNAMEHops c \<and> MaxCNAMEHops c \<le> 64
     \<and> 512 \<le> UDPPayloadSize c \<and> UDPPayloadSize c \<le> 4096"

definition valid_ttls :: "Config \<Rightarrow> bool" where
  "valid_ttls c \<longleftrightarrow> cfg_MinTTL c \<le> MaxTTL c \<and> NegMinTTL c \<le> NegMaxTTL c"

definition valid_rest :: "Config \<Rightarrow> bool" where
  "valid_rest c \<longleftrightarrow> 1 \<le> MaxEntries c \<and> LogLevel c \<in> {''debug'', ''info'', ''warn'', ''error''}
     \<and> LogFormat c \<in> {''text'', ''json''} \<and> (MetricsListen c = [] \<or> parse_addr_port (MetricsListen c) \<noteq> None)"

definition valid_config :: "Config \<Rightarrow> bool" where
  "valid_config c \<longleftrightarrow> valid_listen c \<and> valid_sources c \<and> valid_resolve c \<and> valid_ttls c \<and> valid_rest c"

lemma Defaults_valid: "valid_listen Defaults" "valid_resolve Defaults" "valid_ttls Defaults" "valid_rest Defaults"
  by (simp_all add: valid_listen_def valid_resolve_def valid_ttls_def valid_rest_def Defaults_def go_consts)

lemma check_duplicates_None:
  "check_duplicates seen us = None \<longleftrightarrow> distinct (map cu_addr us) \<and> cu_addr ` set us \<inter> seen = {}"
  by (induction seen us rule: check_duplicates.induct) auto

text \<open>What makes an upstream entry acceptable, and what it becomes.\<close>

definition raw_upstream_ok :: "rawUpstream \<Rightarrow> bool" where
  "raw_upstream_ok u \<longleftrightarrow> parse_addr (ru_addr u) \<noteq> None \<and> (ru_port u = 0 \<or> (1 \<le> ru_port u \<and> ru_port u \<le> 65535))
     \<and> ru_role u \<in> {[], ''auto'', ''china'', ''foreign''}"

definition upstream_of :: "rawUpstream \<Rightarrow> cfg_upstream" where
  "upstream_of u = \<lparr>cu_addr = the (parse_addr (ru_addr u)), cu_port = (if ru_port u \<noteq> 0 then ru_port u else 53),
     cu_role = (if ru_role u = ''china'' then RoleChina else if ru_role u = ''foreign'' then RoleForeign else RoleAuto)\<rparr>"

lemma build_upstreams_iff:
  "build_upstreams i us out = Inr ups \<longleftrightarrow> (\<forall>u\<in>set us. raw_upstream_ok u) \<and> ups = out @ map upstream_of us"
  by (induction us arbitrary: i out)
    (auto simp: raw_upstream_ok_def upstream_of_def Let_def split: option.splits)

text \<open>A duration field is acceptable when absent or well-formed; its value in the configuration.\<close>

definition dur_ok :: "(int \<Rightarrow> nat \<Rightarrow> int \<Rightarrow> int) \<Rightarrow> gostring \<Rightarrow> bool" where
  "dur_ok frac txt \<longleftrightarrow> txt = [] \<or> ParseDuration frac txt \<noteq> None"

definition dur_or :: "(int \<Rightarrow> nat \<Rightarrow> int \<Rightarrow> int) \<Rightarrow> gostring \<Rightarrow> int \<Rightarrow> int" where
  "dur_or frac txt dflt = (if txt = [] then dflt else the (ParseDuration frac txt))"

lemma opt_duration_eq:
  "opt_duration frac field txt dflt = (if dur_ok frac txt then Inr (dur_or frac txt dflt) else Inl (ErrDuration field txt))"
  by (auto simp: opt_duration_def dur_ok_def dur_or_def split: option.splits)

definition accept_listen :: "(int \<Rightarrow> nat \<Rightarrow> int \<Rightarrow> int) \<Rightarrow> raw \<Rightarrow> bool" where
  "accept_listen frac r \<longleftrightarrow> (raw_port r = 0 \<or> (1 \<le> raw_port r \<and> raw_port r \<le> 65535))
     \<and> (raw_udp r \<noteq> Some False \<or> raw_tcp r \<noteq> Some False) \<and> dur_ok frac (raw_idle r) \<and> 0 \<le> raw_conc r"

definition accept_sources :: "raw \<Rightarrow> bool" where
  "accept_sources r \<longleftrightarrow> raw_upstreams r \<noteq> [] \<and> (\<forall>u\<in>set (raw_upstreams r). raw_upstream_ok u)
     \<and> distinct (map (parse_addr \<circ> ru_addr) (raw_upstreams r)) \<and> PrefixFiles_raw (raw_china r) \<noteq> []"

definition accept_timeouts :: "(int \<Rightarrow> nat \<Rightarrow> int \<Rightarrow> int) \<Rightarrow> rawResolve \<Rightarrow> bool" where
  "accept_timeouts frac r \<longleftrightarrow> dur_ok frac (rr_overall r) \<and> dur_ok frac (rr_attempt r)
     \<and> dur_or frac (rr_attempt r) 1500000000 \<le> dur_or frac (rr_overall r) 2500000000
     \<and> (rr_hops r = 0 \<or> (1 \<le> rr_hops r \<and> rr_hops r \<le> 64)) \<and> (rr_udp r = 0 \<or> (512 \<le> rr_udp r \<and> rr_udp r \<le> 4096))"

definition accept_ttls :: "(int \<Rightarrow> nat \<Rightarrow> int \<Rightarrow> int) \<Rightarrow> rawResolve \<Rightarrow> bool" where
  "accept_ttls frac r \<longleftrightarrow> dur_ok frac (rr_minttl r) \<and> dur_ok frac (rr_maxttl r)
     \<and> dur_ok frac (rr_negmin r) \<and> dur_ok frac (rr_negmax r)
     \<and> dur_or frac (rr_minttl r) (30 * second) \<le> dur_or frac (rr_maxttl r) (3600 * second)
     \<and> dur_or frac (rr_negmin r) (60 * second) \<le> dur_or frac (rr_negmax r) (600 * second)"

definition accept_rest :: "(int \<Rightarrow> nat \<Rightarrow> int \<Rightarrow> int) \<Rightarrow> raw \<Rightarrow> bool" where
  "accept_rest frac r \<longleftrightarrow> 0 \<le> rc_max (raw_cache r) \<and> dur_ok frac (rc_sweep (raw_cache r)) \<and> dur_ok frac (rf_timeout (raw_forward r))
     \<and> rl_level (raw_log r) \<in> {[], ''debug'', ''info'', ''warn'', ''error''} \<and> rl_format (raw_log r) \<in> {[], ''text'', ''json''}
     \<and> (rm_listen (raw_metrics r) = [] \<or> parse_addr_port (rm_listen (raw_metrics r)) \<noteq> None)"

text \<open>The outcome of each section: what it accepts, and then the fields it sets.\<close>

lemma build_listen_accept:
  assumes "accept_listen frac r" "UDP c" "TCP c"
  shows "build_listen frac r c = Inr (c\<lparr>
      Bind := (if raw_bind r \<noteq> [] then raw_bind r else Bind c), Port := (if raw_port r \<noteq> 0 then raw_port r else Port c),
      UDP := (raw_udp r \<noteq> Some False), TCP := (raw_tcp r \<noteq> Some False),
      TCPIdleTimeout := dur_or frac (raw_idle r) (TCPIdleTimeout c),
      MaxConcurrency := (if raw_conc r \<noteq> 0 then raw_conc r else MaxConcurrency c)\<rparr>)"
proof -
  have a: "\<not> (raw_port r \<noteq> 0 \<and> (raw_port r < 1 \<or> raw_port r > 65535))" "dur_ok frac (raw_idle r)"
    "raw_udp r \<noteq> Some False \<or> raw_tcp r \<noteq> Some False" "raw_conc r \<noteq> 0 \<Longrightarrow> \<not> raw_conc r < 1"
    using assms(1) by (auto simp: accept_listen_def)
  show ?thesis
    using a assms(2,3) unfolding build_listen_def opt_duration_eq Let_def
    by (cases "raw_udp r"; cases "raw_tcp r"; cases "raw_conc r = 0"; cases "raw_port r = 0"; cases "raw_bind r = []") simp_all
qed

lemma build_listen_reject:
  assumes "build_listen frac r c = Inr c'" "UDP c" "TCP c"
  shows "accept_listen frac r"
proof -
  have "raw_port r = 0 \<or> (1 \<le> raw_port r \<and> raw_port r \<le> 65535)"
    using assms(1) by (auto simp: build_listen_def Let_def split: if_splits)
  moreover have "dur_ok frac (raw_idle r)"
    using assms(1) by (auto simp: build_listen_def Let_def opt_duration_eq split: if_splits)
  moreover have "0 \<le> raw_conc r"
    using assms(1) by (auto simp: build_listen_def Let_def opt_duration_eq split: if_splits)
  moreover have "raw_udp r \<noteq> Some False \<or> raw_tcp r \<noteq> Some False"
    using assms by (auto simp: build_listen_def Let_def split: if_splits)
  ultimately show ?thesis by (simp add: accept_listen_def)
qed

lemma distinct_upstreams:
  assumes "\<forall>u\<in>set us. raw_upstream_ok u"
  shows "distinct (map cu_addr (map upstream_of us)) \<longleftrightarrow> distinct (map (parse_addr \<circ> ru_addr) us)"
proof -
  have "map (parse_addr \<circ> ru_addr) us = map Some (map cu_addr (map upstream_of us))"
    using assms by (auto simp: raw_upstream_ok_def upstream_of_def)
  then show ?thesis by (metis distinct_map inj_Some inj_on_subset subset_UNIV)
qed

lemma build_sources_accept:
  "build_sources r c = Inr c' \<longleftrightarrow> accept_sources r \<and> c' = c\<lparr>Upstreams := map upstream_of (raw_upstreams r),
     PrefixFiles := PrefixFiles_raw (raw_china r), OverridesFile := OverridesFile_raw (raw_china r)\<rparr>"
proof (cases "build_upstreams 0 (raw_upstreams r) []")
  case (Inl e)
  then have "\<not> (\<forall>u\<in>set (raw_upstreams r). raw_upstream_ok u)"
    using build_upstreams_iff [of 0 "raw_upstreams r" "[]"] by auto
  then show ?thesis using Inl by (auto simp: build_sources_def accept_sources_def)
next
  case (Inr ups)
  then have u: "\<forall>u\<in>set (raw_upstreams r). raw_upstream_ok u" "ups = map upstream_of (raw_upstreams r)"
    using build_upstreams_iff [of 0 "raw_upstreams r" "[]"] by auto
  have "check_duplicates {} ups = None \<longleftrightarrow> distinct (map (parse_addr \<circ> ru_addr) (raw_upstreams r))"
    using distinct_upstreams [OF u(1)] u(2) by (simp add: check_duplicates_None)
  then show ?thesis
    using Inr u by (auto simp: build_sources_def accept_sources_def not_less_eq_eq split: option.splits)
qed

lemma build_timeouts_accept:
  assumes "AttemptTimeout c = 1500000000" "OverallTimeout c = 2500000000"
  shows "build_timeouts frac r c = Inr c' \<longleftrightarrow> accept_timeouts frac r \<and> c' = c\<lparr>
     OverallTimeout := dur_or frac (rr_overall r) 2500000000, AttemptTimeout := dur_or frac (rr_attempt r) 1500000000,
     MaxCNAMEHops := (if rr_hops r \<noteq> 0 then rr_hops r else MaxCNAMEHops c),
     UDPPayloadSize := (if rr_udp r \<noteq> 0 then rr_udp r else UDPPayloadSize c)\<rparr>"
  using assms by (auto simp: build_timeouts_def accept_timeouts_def opt_duration_eq)

lemma build_ttls_accept:
  assumes "cfg_MinTTL c = 30 * second" "MaxTTL c = 3600 * second" "NegMinTTL c = 60 * second" "NegMaxTTL c = 600 * second"
  shows "build_ttls frac r c = Inr c' \<longleftrightarrow> accept_ttls frac r \<and> c' = c\<lparr>
     cfg_MinTTL := dur_or frac (rr_minttl r) (30 * second), MaxTTL := dur_or frac (rr_maxttl r) (3600 * second),
     NegMinTTL := dur_or frac (rr_negmin r) (60 * second), NegMaxTTL := dur_or frac (rr_negmax r) (600 * second)\<rparr>"
  using assms by (auto simp: build_ttls_def accept_ttls_def opt_duration_eq)

lemma build_rest_accept:
  "(\<exists>c'. build_rest frac r c = Inr c') \<longleftrightarrow> accept_rest frac r"
proof
  assume "accept_rest frac r"
  then have a: "\<not> (rc_max (raw_cache r) \<noteq> 0 \<and> rc_max (raw_cache r) < 1)" "dur_ok frac (rc_sweep (raw_cache r))"
    "dur_ok frac (rf_timeout (raw_forward r))" "rl_level (raw_log r) \<in> {[], ''debug'', ''info'', ''warn'', ''error''}"
    "rl_format (raw_log r) \<in> {[], ''text'', ''json''}" "rm_listen (raw_metrics r) = [] \<or> parse_addr_port (rm_listen (raw_metrics r)) \<noteq> None"
    by (auto simp: accept_rest_def)
  then show "\<exists>c'. build_rest frac r c = Inr c'"
    unfolding build_rest_def opt_duration_eq Let_def by (auto simp del: insert_iff)
next
  assume "\<exists>c'. build_rest frac r c = Inr c'"
  then obtain c' where b: "build_rest frac r c = Inr c'" by blast
  have "0 \<le> rc_max (raw_cache r)" "dur_ok frac (rc_sweep (raw_cache r))" "dur_ok frac (rf_timeout (raw_forward r))"
    using b by (auto simp: build_rest_def Let_def opt_duration_eq split: if_splits)
  moreover have "rl_level (raw_log r) \<in> {[], ''debug'', ''info'', ''warn'', ''error''}" "rl_format (raw_log r) \<in> {[], ''text'', ''json''}"
    "rm_listen (raw_metrics r) = [] \<or> parse_addr_port (rm_listen (raw_metrics r)) \<noteq> None"
    using b by (auto simp: build_rest_def Let_def opt_duration_eq simp del: insert_iff split: if_splits option.splits)
  ultimately show "accept_rest frac r" by (simp add: accept_rest_def)
qed

lemma build_rest_frame:
  assumes "build_rest frac r c = Inr c'"
  shows "valid_listen c' = valid_listen c" "valid_sources c' = valid_sources c" "valid_resolve c' = valid_resolve c"
    "valid_ttls c' = valid_ttls c" "SweepInterval c' = dur_or frac (rc_sweep (raw_cache r)) (SweepInterval c)"
    "MaxEntries c' = (if rc_max (raw_cache r) \<noteq> 0 then rc_max (raw_cache r) else MaxEntries c)"
    "LogLevel c' = (if rl_level (raw_log r) \<noteq> [] then rl_level (raw_log r) else LogLevel c)"
    "LogFormat c' = (if rl_format (raw_log r) \<noteq> [] then rl_format (raw_log r) else LogFormat c)"
    "MetricsListen c' = (if rm_listen (raw_metrics r) \<noteq> [] then rm_listen (raw_metrics r) else MetricsListen c)"
    "Upstreams c' = Upstreams c"
proof -
  define c1 where "c1 = (case rc_enabled (raw_cache r) of Some b \<Rightarrow> c\<lparr>CacheEnabled := b\<rparr> | None \<Rightarrow> c)"
  define c2 where "c2 = c1\<lparr>MaxEntries := (if rc_max (raw_cache r) \<noteq> 0 then rc_max (raw_cache r) else MaxEntries c),
    SweepInterval := dur_or frac (rc_sweep (raw_cache r)) (SweepInterval c),
    ForwardTimeout := dur_or frac (rf_timeout (raw_forward r)) (ForwardTimeout c),
    LogLevel := (if rl_level (raw_log r) \<noteq> [] then rl_level (raw_log r) else LogLevel c),
    LogFormat := (if rl_format (raw_log r) \<noteq> [] then rl_format (raw_log r) else LogFormat c),
    MetricsListen := (if rm_listen (raw_metrics r) \<noteq> [] then rm_listen (raw_metrics r) else MetricsListen c)\<rparr>"
  have "c' = c2"
    using assms unfolding build_rest_def c2_def c1_def Let_def opt_duration_eq
    by (cases "rc_enabled (raw_cache r)"; cases "rc_max (raw_cache r) = 0"; cases "rl_level (raw_log r) = []";
        cases "rl_format (raw_log r) = []"; cases "rm_listen (raw_metrics r) = []") (simp_all split: if_splits option.splits)
  moreover have "c1 = c \<or> (\<exists>b. c1 = c\<lparr>CacheEnabled := b\<rparr>)" by (auto simp: c1_def split: option.splits)
  ultimately have eq: "c' = c2" "c1 = c \<or> (\<exists>b. c1 = c\<lparr>CacheEnabled := b\<rparr>)" by blast+
  show "valid_listen c' = valid_listen c" using eq by (auto simp: c2_def valid_listen_def)
  show "valid_sources c' = valid_sources c" using eq by (auto simp: c2_def valid_sources_def)
  show "valid_resolve c' = valid_resolve c" using eq by (auto simp: c2_def valid_resolve_def)
  show "valid_ttls c' = valid_ttls c" using eq by (auto simp: c2_def valid_ttls_def)
  show "SweepInterval c' = dur_or frac (rc_sweep (raw_cache r)) (SweepInterval c)"
    "MaxEntries c' = (if rc_max (raw_cache r) \<noteq> 0 then rc_max (raw_cache r) else MaxEntries c)"
    "LogLevel c' = (if rl_level (raw_log r) \<noteq> [] then rl_level (raw_log r) else LogLevel c)"
    "LogFormat c' = (if rl_format (raw_log r) \<noteq> [] then rl_format (raw_log r) else LogFormat c)"
    "MetricsListen c' = (if rm_listen (raw_metrics r) \<noteq> [] then rm_listen (raw_metrics r) else MetricsListen c)"
    unfolding eq(1) c2_def by simp_all
  show "Upstreams c' = Upstreams c" using eq by (auto simp: c2_def)
qed

text \<open>The sections together: what the first four build from acceptable input.\<close>

definition accepted_listen :: "(int \<Rightarrow> nat \<Rightarrow> int \<Rightarrow> int) \<Rightarrow> raw \<Rightarrow> Config" where
  "accepted_listen frac r = Defaults\<lparr>
     Bind := (if raw_bind r \<noteq> [] then raw_bind r else Bind Defaults),
     Port := (if raw_port r \<noteq> 0 then raw_port r else Port Defaults),
     UDP := (raw_udp r \<noteq> Some False), TCP := (raw_tcp r \<noteq> Some False),
     TCPIdleTimeout := dur_or frac (raw_idle r) (TCPIdleTimeout Defaults),
     MaxConcurrency := (if raw_conc r \<noteq> 0 then raw_conc r else MaxConcurrency Defaults)\<rparr>"

definition accepted_sources :: "(int \<Rightarrow> nat \<Rightarrow> int \<Rightarrow> int) \<Rightarrow> raw \<Rightarrow> Config" where
  "accepted_sources frac r = (accepted_listen frac r)\<lparr>Upstreams := map upstream_of (raw_upstreams r),
     PrefixFiles := PrefixFiles_raw (raw_china r), OverridesFile := OverridesFile_raw (raw_china r)\<rparr>"

definition accepted_timeouts :: "(int \<Rightarrow> nat \<Rightarrow> int \<Rightarrow> int) \<Rightarrow> raw \<Rightarrow> Config" where
  "accepted_timeouts frac r = (let rr = raw_resolve r in (accepted_sources frac r)\<lparr>
     OverallTimeout := dur_or frac (rr_overall rr) 2500000000, AttemptTimeout := dur_or frac (rr_attempt rr) 1500000000,
     MaxCNAMEHops := (if rr_hops rr \<noteq> 0 then rr_hops rr else MaxCNAMEHops Defaults),
     UDPPayloadSize := (if rr_udp rr \<noteq> 0 then rr_udp rr else UDPPayloadSize Defaults)\<rparr>)"

definition accepted :: "(int \<Rightarrow> nat \<Rightarrow> int \<Rightarrow> int) \<Rightarrow> raw \<Rightarrow> Config" where
  "accepted frac r = (let rr = raw_resolve r in (accepted_timeouts frac r)\<lparr>
     cfg_MinTTL := dur_or frac (rr_minttl rr) (30 * second), MaxTTL := dur_or frac (rr_maxttl rr) (3600 * second),
     NegMinTTL := dur_or frac (rr_negmin rr) (60 * second), NegMaxTTL := dur_or frac (rr_negmax rr) (600 * second)\<rparr>)"

lemmas accepted_defs = accepted_def accepted_timeouts_def accepted_sources_def accepted_listen_def Defaults_def Let_def

lemma listen_section: "build_listen frac r Defaults = Inr c \<longleftrightarrow> accept_listen frac r \<and> c = accepted_listen frac r"
proof -
  have d: "UDP Defaults" "TCP Defaults" by (simp_all add: Defaults_def)
  show ?thesis
    using build_listen_accept [OF _ d, of frac r] build_listen_reject [OF _ d, of frac r c]
    by (auto simp: accepted_listen_def)
qed

lemma sources_section:
  "build_sources r (accepted_listen frac r) = Inr c \<longleftrightarrow> accept_sources r \<and> c = accepted_sources frac r"
  by (simp add: build_sources_accept accepted_sources_def)

lemma timeouts_section:
  "build_timeouts frac (raw_resolve r) (accepted_sources frac r) = Inr c \<longleftrightarrow>
     accept_timeouts frac (raw_resolve r) \<and> c = accepted_timeouts frac r"
  by (subst build_timeouts_accept) (simp_all add: accepted_defs)

lemma ttls_section:
  "build_ttls frac (raw_resolve r) (accepted_timeouts frac r) = Inr c \<longleftrightarrow>
     accept_ttls frac (raw_resolve r) \<and> c = accepted frac r"
  by (subst build_ttls_accept) (simp_all add: accepted_defs)

lemma build_sections:
  "build frac r = Inr c \<longleftrightarrow> accept_listen frac r \<and> accept_sources r \<and> accept_timeouts frac (raw_resolve r)
     \<and> accept_ttls frac (raw_resolve r) \<and> build_rest frac r (accepted frac r) = Inr c"
proof -
  have "build frac r = Inr c \<longleftrightarrow> (\<exists>c1 c2 c3 c4. build_listen frac r Defaults = Inr c1 \<and> build_sources r c1 = Inr c2
     \<and> build_timeouts frac (raw_resolve r) c2 = Inr c3 \<and> build_ttls frac (raw_resolve r) c3 = Inr c4
     \<and> build_rest frac r c4 = Inr c)"
    unfolding build_def by (auto split: sum.splits)
  then show ?thesis
    by (simp add: listen_section sources_section timeouts_section ttls_section conj_ac cong: conj_cong)
qed

lemma upstream_of_valid:
  "raw_upstream_ok u \<Longrightarrow> cu_addr (upstream_of u) \<noteq> AddrZero \<and> 1 \<le> cu_port (upstream_of u) \<and> cu_port (upstream_of u) \<le> 65535"
  using parse_addr_valid [of "ru_addr u"] by (auto simp: raw_upstream_ok_def upstream_of_def)

lemma accepted_valid:
  "accept_listen frac r \<Longrightarrow> valid_listen (accepted frac r)"
  "accept_sources r \<Longrightarrow> valid_sources (accepted frac r)"
  "accept_timeouts frac (raw_resolve r) \<Longrightarrow> valid_resolve (accepted frac r)"
  "accept_ttls frac (raw_resolve r) \<Longrightarrow> valid_ttls (accepted frac r)"
proof -
  show "accept_listen frac r \<Longrightarrow> valid_listen (accepted frac r)"
    by (auto simp: valid_listen_def accept_listen_def accepted_defs)
  show "accept_sources r \<Longrightarrow> valid_sources (accepted frac r)"
    using distinct_upstreams [of "raw_upstreams r"] upstream_of_valid
    by (auto simp: valid_sources_def accept_sources_def accepted_defs)
  show "accept_timeouts frac (raw_resolve r) \<Longrightarrow> valid_resolve (accepted frac r)"
    by (auto simp: valid_resolve_def accept_timeouts_def accepted_defs)
  show "accept_ttls frac (raw_resolve r) \<Longrightarrow> valid_ttls (accepted frac r)"
    by (simp add: valid_ttls_def accept_ttls_def accepted_defs)
qed

lemma build_stage_facts:
  assumes "build frac r = Inr c"
  shows "valid_config c" "SweepInterval c = dur_or frac (rc_sweep (raw_cache r)) (30 * second)"
    "Upstreams c = map upstream_of (raw_upstreams r)"
proof -
  have b: "build_rest frac r (accepted frac r) = Inr c" using assms by (simp add: build_sections)
  note fr = build_rest_frame [OF b]
  have "accept_rest frac r" using b build_rest_accept by blast
  then have "valid_rest c"
    using fr(6-9) by (auto simp: valid_rest_def accept_rest_def accepted_defs)
  then show "valid_config c"
    using assms fr(1-4) accepted_valid [where frac = frac and r = r] by (simp add: valid_config_def build_sections)
  show "SweepInterval c = dur_or frac (rc_sweep (raw_cache r)) (30 * second)"
    "Upstreams c = map upstream_of (raw_upstreams r)"
    using fr(5,10) by (simp_all add: accepted_defs)
qed

section \<open>Durations\<close>

lemma dur_loop_bound: "0 \<le> d \<Longrightarrow> d \<le> 2 ^ 63 \<Longrightarrow> dur_loop frac d s = Some n \<Longrightarrow> 0 \<le> n \<and> n \<le> 2 ^ 63"
proof (induction frac d s rule: dur_loop.induct)
  case (1 frac d s)
  show ?case
  proof (cases "s = []")
    case True
    then show ?thesis using 1(2-4) by (simp add: dur_loop.simps [of frac d "[]"])
  next
    case False
    obtain w s' where p: "dur_part frac s = Some (w, s')"
      using 1(4) False by (auto simp: dur_loop.simps [of frac d s] split: option.splits)
    define d' where "d' = (d + w) mod 2 ^ 64"
    have d': "d' \<le> 2 ^ 63" "dur_loop frac d' s' = Some n"
      using 1(4) False p by (auto simp: dur_loop.simps [of frac d s] Let_def d'_def split: if_splits)
    then show ?thesis
      using 1(1) [OF False p refl d'_def] by (auto simp: d'_def)
  qed
qed

lemma ParseDuration_range:
  assumes "ParseDuration frac s = Some d"
  shows "- (2 ^ 63) \<le> d \<and> d < 2 ^ 63"
proof -
  have "d = 0 \<or> (\<exists>t n. dur_loop frac 0 t = Some n \<and> (d = - n \<or> d = n \<and> \<not> n > 2 ^ 63 - 1))"
    using assms by (auto simp: ParseDuration_def Let_def split: if_splits option.splits)
  then show ?thesis using dur_loop_bound [of 0 frac] by fastforce
qed

text \<open>The number a digit string denotes.\<close>

definition dec_val :: "int \<Rightarrow> gostring \<Rightarrow> int" where
  "dec_val x ds = foldl (\<lambda>a c. a * 10 + int (digit_val c)) x ds"

lemma dec_val_simps [simp]: "dec_val x [] = x" "dec_val x (c # ds) = dec_val (x * 10 + int (digit_val c)) ds"
  by (simp_all add: dec_val_def)

lemma dec_val_mono: "0 \<le> x \<Longrightarrow> x \<le> dec_val x ds"
proof (induction ds arbitrary: x)
  case (Cons c ds)
  have "x \<le> x * 10 + int (digit_val c)" using Cons.prems by simp
  also have "\<dots> \<le> dec_val (x * 10 + int (digit_val c)) ds" using Cons by simp
  finally show ?case by simp
qed simp

lemma leading_int_digits:
  assumes "list_all is_digit ds" "0 \<le> x" "dec_val x ds \<le> 2 ^ 63" "u = [] \<or> \<not> is_digit (hd u)"
  shows "leading_int x (ds @ u) = Some (dec_val x ds, u)"
  using assms
proof (induction ds arbitrary: x)
  case Nil
  then show ?case by (cases u) auto
next
  case (Cons c ds)
  have "x * 10 + int (digit_val c) \<le> 2 ^ 63"
    using dec_val_mono [of "x * 10 + int (digit_val c)" ds] Cons.prems(2,3) by simp
  then show ?case using Cons by (auto simp: Let_def)
qed

lemma unit_ns_chars: "unit_ns u = Some k \<Longrightarrow> u \<noteq> [] \<and> 0 < k \<and> takeWhile unit_char u = u \<and> dropWhile unit_char u = []
    \<and> \<not> is_digit (hd u) \<and> hd u \<noteq> CHR ''.''"
  by (auto simp: go_chars Let_def split: if_splits)

lemma ParseDuration_digits:
  assumes "ds \<noteq> []" "list_all is_digit ds" "unit_ns u = Some k" "dec_val 0 ds * k < 2 ^ 63"
  shows "ParseDuration frac (ds @ u) = Some (dec_val 0 ds * k)"
proof -
  note u = unit_ns_chars [OF assms(3)]
  have nn: "0 \<le> dec_val 0 ds" using dec_val_mono [of 0 ds] by simp
  have v: "dec_val 0 ds \<le> 2 ^ 63 div k"
    using assms(4) u by (metis less_imp_le nonzero_mult_div_cancel_right order_less_irrefl zdiv_mono1)
  have "dec_val 0 ds * 1 \<le> dec_val 0 ds * k" using u nn by (intro mult_left_mono) auto
  then have "dec_val 0 ds \<le> 2 ^ 63" using assms(4) by linarith
  then have li: "leading_int 0 (ds @ u) = Some (dec_val 0 ds, u)"
    using leading_int_digits [of ds 0 u] assms(2) u by simp
  obtain c ds' where ds: "ds = c # ds'" "is_digit c" using assms(1,2) by (cases ds) auto
  have "dur_part frac (ds @ u) = Some (dec_val 0 ds * k, [])"
  proof -
    have f: "takeWhile unit_char u = u" "dropWhile unit_char u = []" "u \<noteq> []" "hd u \<noteq> CHR ''.''" using u by blast+
    have "is_digit (hd (ds @ u))" "length u \<noteq> length (ds @ u)" using ds by auto
    then show ?thesis using v unfolding dur_part_def li by (simp add: f assms(3) Let_def not_less)
  qed
  moreover have "(dec_val 0 ds * k) mod 2 ^ 64 = dec_val 0 ds * k" using assms(4) nn u by simp
  ultimately have "dur_loop frac 0 (ds @ u) = Some (dec_val 0 ds * k)"
    using assms(4) ds by (subst dur_loop.simps) (simp add: dur_loop.simps [of frac _ "[]"] Let_def)
  moreover have "c \<noteq> CHR ''-''" "c \<noteq> CHR ''+''" using ds(2) by (auto simp: go_chars Let_def)
  ultimately show ?thesis using assms(4) ds u by (simp add: ParseDuration_def Let_def)
qed

section \<open>Properties\<close>

definition no_frac :: "int \<Rightarrow> nat \<Rightarrow> int \<Rightarrow> int" where
  "no_frac f scale unit = f * unit div 10 ^ scale"

definition sample_raw :: "gostring \<Rightarrow> raw" where
  "sample_raw sweep_txt = \<lparr>raw_bind = [], raw_port = 0, raw_udp = None, raw_tcp = None, raw_idle = [], raw_conc = 0,
     raw_upstreams = [\<lparr>ru_addr = ''114.114.114.114'', ru_port = 0, ru_role = ''china''\<rparr>,
                      \<lparr>ru_addr = ''8.8.8.8'', ru_port = 5353, ru_role = []\<rparr>],
     raw_china = \<lparr>PrefixFiles_raw = [''cn.txt''], OverridesFile_raw = []\<rparr>,
     raw_resolve = \<lparr>rr_overall = ''3s'', rr_attempt = ''1s500ms'', rr_hops = 0, rr_udp = 0, rr_minttl = [], rr_maxttl = [],
                    rr_negmin = [], rr_negmax = []\<rparr>,
     raw_cache = \<lparr>rc_enabled = None, rc_max = 0, rc_sweep = sweep_txt\<rparr>, raw_forward = \<lparr>rf_timeout = []\<rparr>,
     raw_log = \<lparr>rl_level = [], rl_format = ''json''\<rparr>, raw_metrics = \<lparr>rm_listen = []\<rparr>\<rparr>"

text \<open>
  A configuration that loads is valid: ports and limits lie in their ranges, a transport is enabled,
  there is at least one upstream and no address twice, an attempt fits the overall timeout, the TTL
  bounds are ordered, and every upstream is the one its entry describes.
\<close>

theorem build_yields_valid_config:
  assumes "build frac r = Inr c"
  shows "valid_config c \<and> Upstreams c = map upstream_of (raw_upstreams r)"
  using build_stage_facts(1,3) [OF assms] by simp

text \<open>
  C32. Loading succeeds exactly for the inputs the documentation allows: every field is absent or in its
  range, durations are well-formed, addresses parse and differ, and the ordering constraints hold
  after defaults. Nothing else is rejected and nothing else is accepted.
\<close>

theorem build_accepts_iff:
  "(\<exists>c. build frac r = Inr c) \<longleftrightarrow>
     accept_listen frac r \<and> accept_sources r \<and> accept_timeouts frac (raw_resolve r)
     \<and> accept_ttls frac (raw_resolve r) \<and> accept_rest frac r"
  using build_rest_accept [of frac r "accepted frac r"] by (auto simp: build_sections)

text \<open>
  A duration literal is read exactly: decimal digits followed by a unit denote that many units, and
  whatever is read fits a 64-bit duration.
\<close>

theorem ParseDuration_literal:
  assumes "ds \<noteq> []" "list_all is_digit ds" "unit_ns u = Some k" "dec_val 0 ds * k < 2 ^ 63"
  shows "ParseDuration frac (ds @ u) = Some (dec_val 0 ds * k)
    \<and> (\<forall>s d. ParseDuration frac s = Some d \<longrightarrow> - (2 ^ 63) \<le> d \<and> d < 2 ^ 63)"
  using ParseDuration_digits [OF assms] ParseDuration_range by blast

theorem ParseDuration_literal_witness: "ParseDuration no_frac (''90'' @ ''s'') = Some 90000000000"
proof -
  have "list_all is_digit ''90'' \<and> unit_ns ''s'' = Some 1000000000 \<and> dec_val 0 ''90'' = 90" by code_simp
  then show ?thesis using ParseDuration_literal [of "''90''" "''s''" 1000000000 no_frac] by simp
qed

end
