(* ===== verification/Server.thy ===== *)
theory Server
  imports Metrics Resolve Config
begin

text \<open>
  Package \<^verbatim>\<open>internal/server\<close>: dispatch and synthesis of replies (\<^verbatim>\<open>handler.go\<close>), relaying
  (\<^verbatim>\<open>forward.go\<close>) and the transports with their bounded intake (\<^verbatim>\<open>server.go\<close>).

  The metrics are threaded through the operations. The outcome of \<^verbatim>\<open>Service.Lookup\<close> is an argument
  of the dispatcher: theory Resolve says what it can be. The message library is the argument \<^verbatim>\<open>lib\<close>.
\<close>

section \<open>handler.go\<close>

definition maxUDPPayload :: u16 where [go_consts]: "maxUDPPayload = 1232"

definition rcodeReply :: "dns_lib \<Rightarrow> msg \<Rightarrow> int \<Rightarrow> msg" where
  "rcodeReply lib req rcode = (set_reply lib new_msg req)\<lparr>m_rcode := rcode\<rparr>"

definition answer_rr :: "question \<Rightarrow> u32 \<Rightarrow> addr \<Rightarrow> rr" where
  "answer_rr q ttl a =
     (let hdr = \<lparr>hdr_name = q_name q, hdr_rrtype = q_type q, hdr_class = ClassINET, hdr_ttl = ttl\<rparr>
      in if q_type q = TypeA then RR_A hdr (as_slice a) else RR_AAAA hdr (as_slice a))"

fun append_answers :: "question \<Rightarrow> u32 \<Rightarrow> addr list \<Rightarrow> rr list \<Rightarrow> rr list" where
  "append_answers q ttl [] out = out"
| "append_answers q ttl (a # as) out = append_answers q ttl as (out @ [answer_rr q ttl a])"

definition buildPositive :: "dns_lib \<Rightarrow> msg \<Rightarrow> question \<Rightarrow> addr list \<Rightarrow> u32 \<Rightarrow> msg" where
  "buildPositive lib req q addrs ttl =
     (let resp = (set_reply lib new_msg req)\<lparr>m_ra := True, m_compress := True\<rparr>
      in resp\<lparr>m_answer := append_answers q ttl addrs (m_answer resp)\<rparr>)"

definition buildNegative :: "dns_lib \<Rightarrow> msg \<Rightarrow> int \<Rightarrow> soa_rr option \<Rightarrow> u32 \<Rightarrow> msg" where
  "buildNegative lib req rcode soa ttl =
     (let resp = (set_reply lib new_msg req)\<lparr>m_ra := True, m_rcode := rcode\<rparr>
      in case soa of
           None \<Rightarrow> resp
         | Some s \<Rightarrow> resp\<lparr>m_ns := m_ns resp @ [RR_SOA (s\<lparr>soa_hdr := (soa_hdr s)\<lparr>hdr_ttl := ttl\<rparr>\<rparr>)]\<rparr>)"

definition edns_size :: "int \<Rightarrow> int" where
  "edns_size sz =
     (let sz = (if sz > uint maxUDPPayload then uint maxUDPPayload else sz)
      in if sz < MinMsgSize then MinMsgSize else sz)"

definition applyEDNS :: "dns_lib \<Rightarrow> msg \<Rightarrow> msg \<Rightarrow> msg" where
  "applyEDNS lib req resp =
     (case is_edns0 lib req of
        None \<Rightarrow> resp
      | Some opt \<Rightarrow>
          (if is_edns0 lib resp \<noteq> None then resp
           else set_edns0 lib resp (word_of_int (edns_size (uint (opt_udp_size lib opt)))) False))"

definition synthesize :: "dns_lib \<Rightarrow> Metrics \<Rightarrow> msg \<Rightarrow> question \<Rightarrow> Value \<Rightarrow> msg \<times> Metrics" where
  "synthesize lib m req q v =
     (if length (v_addrs v) > 0 then
        (let m = RecordPolicy m (v_policy v)
         in (applyEDNS lib req (buildPositive lib req q (v_addrs v) (v_ttl v)),
             m\<lparr>AnswersNOERROR := AnswersNOERROR m + 1\<rparr>))
      else if v_rcode v = RcodeNameError then
        (applyEDNS lib req (buildNegative lib req RcodeNameError (v_soa v) (v_ttl v)),
         m\<lparr>AnswersNXDomain := AnswersNXDomain m + 1\<rparr>)
      else if v_rcode v = RcodeSuccess then
        (applyEDNS lib req (buildNegative lib req RcodeSuccess (v_soa v) (v_ttl v)),
         m\<lparr>AnswersNODATA := AnswersNODATA m + 1\<rparr>)
      else
        (applyEDNS lib req (rcodeReply lib req RcodeServerFailure),
         m\<lparr>AnswersSERVFAIL := AnswersSERVFAIL m + 1\<rparr>))"

section \<open>forward.go\<close>

text \<open>
  The loop over the upstreams. \<^verbatim>\<open>ids\<close> gives the values of \<^verbatim>\<open>dns.Id()\<close>. The client an exchange leaves
  behind differs only in its timeout, which every exchange sets before use, so it is dropped.
\<close>

fun forward_loop :: "query_env \<Rightarrow> (nat \<Rightarrow> u16) \<Rightarrow> int \<Rightarrow> msg \<Rightarrow> nat \<Rightarrow> nat \<Rightarrow> Upstream list \<Rightarrow> Metrics
    \<Rightarrow> msg option \<times> Metrics" where
  "forward_loop env ids timeout req t i [] m = (None, m)"
| "forward_loop env ids timeout req t i (u # us) m =
     (if ctx_err env t \<noteq> None then (None, m)
      else let budget = (case ctx_until env (Suc t) of
                           Some rem \<Rightarrow> (if rem < timeout then rem else timeout)
                         | None \<Rightarrow> timeout)
           in if budget \<le> 0 then (None, m)
              else case Exchange env (t + 2) (up_client u) (up_addr u) (req\<lparr>m_id := ids i\<rparr>) budget of (cl, t', r) \<Rightarrow>
                (case r of
                   Inl err \<Rightarrow> forward_loop env ids timeout req t' (Suc i) us (RecordUpstreamFailure m (int i) (Category err))
                 | Inr resp \<Rightarrow> (Some (resp\<lparr>m_id := m_id req\<rparr>), RecordUpstreamResult m (int i) ''forwarded'')))"

definition forward :: "dns_lib \<Rightarrow> query_env \<Rightarrow> (nat \<Rightarrow> u16) \<Rightarrow> Config \<Rightarrow> Upstream list \<Rightarrow> Metrics \<Rightarrow> msg \<Rightarrow> msg \<times> Metrics" where
  "forward lib env ids cfg ups m req =
     (case forward_loop env ids (ForwardTimeout cfg) req 0 0 ups m of (r, m) \<Rightarrow>
        (case r of
           Some resp \<Rightarrow> (resp, m)
         | None \<Rightarrow> (rcodeReply lib req RcodeServerFailure, m\<lparr>AnswersSERVFAIL := AnswersSERVFAIL m + 1\<rparr>)))"

definition handleRequest :: "dns_lib \<Rightarrow> query_env \<Rightarrow> (nat \<Rightarrow> u16) \<Rightarrow> (gostring \<Rightarrow> u16 \<Rightarrow> go_error + Value)
    \<Rightarrow> Config \<Rightarrow> Upstream list \<Rightarrow> Metrics \<Rightarrow> msg \<Rightarrow> msg \<times> Metrics" where
  "handleRequest lib env ids lookup cfg ups m req =
     (case m_question req of
        [] \<Rightarrow> (rcodeReply lib req RcodeFormatError, m\<lparr>FormErr := FormErr m + 1\<rparr>)
      | q # qs \<Rightarrow>
          (if (case is_edns0 lib req of Some opt \<Rightarrow> opt_version lib opt \<noteq> 0 | None \<Rightarrow> False)
           then (set_edns0 lib (rcodeReply lib req RcodeBadVers) maxUDPPayload False, m)
           else if length (m_question req) \<noteq> 1 \<or> q_class q \<noteq> ClassINET \<or> m_opcode req \<noteq> OpcodeQuery
             \<or> (q_type q \<noteq> TypeA \<and> q_type q \<noteq> TypeAAAA)
           then forward lib env ids cfg ups (m\<lparr>Forwarded := Forwarded m + 1\<rparr>) req
           else case lookup (q_name q) (q_type q) of
                  Inl err \<Rightarrow> (rcodeReply lib req RcodeServerFailure, m\<lparr>AnswersSERVFAIL := AnswersSERVFAIL m + 1\<rparr>)
                | Inr v \<Rightarrow> synthesize lib (m\<lparr>Resolved := Resolved m + 1\<rparr>) req q v))"

section \<open>server.go: one request\<close>

definition truncateForUDP :: "dns_lib \<Rightarrow> msg \<Rightarrow> msg \<Rightarrow> u16 \<Rightarrow> msg" where
  "truncateForUDP lib req resp maxPayload =
     (let sz = (case is_edns0 lib req of
                    None \<Rightarrow> 512
                  | Some opt \<Rightarrow>
                      (let s = opt_udp_size lib opt
                       in if s \<ge> 512 \<and> s \<le> maxPayload then s else if s > maxPayload then maxPayload else 512))
      in msg_truncate lib resp (uint sz))"

text \<open>\<^verbatim>\<open>handleDatagram\<close>: the bytes sent back, if any. \<^verbatim>\<open>Inflight\<close> goes up and down around the request.\<close>

definition handleDatagram :: "dns_lib \<Rightarrow> (Metrics \<Rightarrow> msg \<Rightarrow> msg \<times> Metrics) \<Rightarrow> Metrics \<Rightarrow> msg \<Rightarrow> u8 list option \<times> Metrics" where
  "handleDatagram lib handle m req =
     (let m = m\<lparr>Inflight := Inflight m + 1\<rparr>
      in case handle m req of (resp, m) \<Rightarrow>
        (msg_pack lib (truncateForUDP lib req resp maxUDPPayload), m\<lparr>Inflight := Inflight m - 1\<rparr>))"

text \<open>Big-endian 16-bit lengths, as \<^verbatim>\<open>binary.BigEndian\<close> reads and writes them.\<close>

definition get_u16 :: "u8 \<Rightarrow> u8 \<Rightarrow> u16" where
  "get_u16 a b = ucast a * 256 + ucast b"

definition put_u16 :: "u16 \<Rightarrow> u8 list" where
  "put_u16 w = [ucast (drop_bit 8 w), ucast w]"

definition tcp_frame :: "u8 list \<Rightarrow> u8 list" where
  "tcp_frame wire = put_u16 (of_nat (length wire)) @ wire"

text \<open>
  \<^verbatim>\<open>handleTCPConn\<close>: the input is what the client sends before it closes or the idle deadline passes. The
  operations on the connection that can fail are an environment indexed by the number of the query.
\<close>

record conn_env =
  set_read_ok :: "nat \<Rightarrow> bool"
  set_write_ok :: "nat \<Rightarrow> bool"
  write_ok :: "nat \<Rightarrow> bool"

function handleTCPConn :: "dns_lib \<Rightarrow> conn_env \<Rightarrow> (nat \<Rightarrow> Metrics \<Rightarrow> msg \<Rightarrow> msg \<times> Metrics) \<Rightarrow> nat \<Rightarrow> Metrics \<Rightarrow> u8 list
    \<Rightarrow> u8 list list \<Rightarrow> u8 list list \<times> Metrics" where
  "handleTCPConn lib ce handle k m input out =
     (if \<not> set_read_ok ce k then (out, m)
      else case input of
        a # b # rest \<Rightarrow>
          (let n = unat (get_u16 a b)
           in if length rest < n then (out, m)
              else case msg_unpack lib (take n rest) of
                None \<Rightarrow> (out, m)
              | Some req \<Rightarrow>
                  (case handle k (m\<lparr>Inflight := Inflight m + 1\<rparr>) req of (resp, m) \<Rightarrow>
                     (let m = m\<lparr>Inflight := Inflight m - 1\<rparr>
                      in case msg_pack lib resp of
                           None \<Rightarrow> (out, m)
                         | Some wire \<Rightarrow>
                             (if \<not> set_write_ok ce k \<or> \<not> write_ok ce k then (out, m)
                              else handleTCPConn lib ce handle (Suc k) m (drop n rest) (out @ [tcp_frame wire])))))
      | _ \<Rightarrow> (out, m))"
  by pat_completeness auto
termination
  by (relation "measure (\<lambda>(lib, ce, handle, k, m, input, out). length input)") auto

declare handleTCPConn.simps [simp del]

section \<open>server.go: intake and shutdown\<close>

text \<open>
  The intake loops, the handlers and the drain as a state machine. \<^verbatim>\<open>sem\<close> is the number of tokens in the
  semaphore channel, \<^verbatim>\<open>wg\<close> the count of the wait group, \<^verbatim>\<open>handlers\<close> the number of goroutines that
  hold a token and \<^verbatim>\<open>exiting\<close> of those that have given it back but are still in the wait group. \<^verbatim>\<open>udp_at\<close> and
  \<^verbatim>\<open>tcp_at\<close> say where the two loops are, so that the other goroutines can move between any two of their steps.
\<close>

definition tcpAdmitTimeout :: int where [go_consts]: "tcpAdmitTimeout = 100 * 1000000"

text \<open>
  The points of \<^verbatim>\<open>serveUDP\<close>: at the top, inside a read, with a datagram (parsed or not parseable), with a parsed request
  before the semaphore, with a slot, after the loop.
\<close>

datatype udp_point = UdpTop | UdpInRead | UdpHas "msg option" | UdpAsks msg | UdpHolds msg | UdpEnded

text \<open>
  The points of \<^verbatim>\<open>serveTCP\<close>: at the top, inside an accept, with a connection that waits for a slot, with a slot, after the
  loop.
\<close>

datatype tcp_point = TcpTop | TcpInAccept | TcpAsks | TcpHolds | TcpEnded

datatype drain = Serving | Draining | Drained | DrainTimeout

record intake =
  sem :: nat
  wg :: nat
  handlers :: nat
  exiting :: nat
  udp_at :: udp_point
  tcp_at :: tcp_point
  stop :: bool
  drain_state :: drain
  in_m :: Metrics

definition udp_loop :: "intake \<Rightarrow> bool" where
  "udp_loop s \<longleftrightarrow> udp_at s \<noteq> UdpEnded"

definition tcp_loop :: "intake \<Rightarrow> bool" where
  "tcp_loop s \<longleftrightarrow> tcp_at s \<noteq> TcpEnded"

datatype udp_op = UdpRead | UdpReadError | UdpGet "msg option" | UdpParse | UdpAdmit | UdpSpawn

datatype tcp_op = TcpAccept | TcpAcceptError | TcpGet | TcpAdmit | TcpGiveUp int | TcpSpawn

datatype intake_op =
    UdpOp udp_op
  | TcpOp tcp_op
  | HandlerDone
  | HandlerExit
  | Stop
  | AwaitLoops
  | DrainDone
  | DrainTimesOut

text \<open>\<^verbatim>\<open>wg.Add(1)\<close> and the start of the goroutine; the loop holds the slot already.\<close>

definition start_handler :: "intake \<Rightarrow> intake" where
  "start_handler s = s\<lparr>wg := wg s + 1, handlers := handlers s + 1\<rparr>"

definition drop_query :: "intake \<Rightarrow> intake" where
  "drop_query s = s\<lparr>in_m := (in_m s)\<lparr>DroppedOverload := DroppedOverload (in_m s) + 1\<rparr>\<rparr>"

text \<open>
  A read that fails, at once or after blocking, ends the loop when the context is done and is retried otherwise. A
  request that finds no slot free is dropped.
\<close>

fun serveUDP :: "Config \<Rightarrow> udp_op \<Rightarrow> intake \<Rightarrow> intake option" where
  "serveUDP cfg UdpRead s = (if udp_at s = UdpTop then Some (s\<lparr>udp_at := UdpInRead\<rparr>) else None)"
| "serveUDP cfg UdpReadError s =
     (if udp_at s = UdpTop \<or> udp_at s = UdpInRead then Some (s\<lparr>udp_at := (if stop s then UdpEnded else UdpTop)\<rparr>) else None)"
| "serveUDP cfg (UdpGet r) s =
     (if udp_at s = UdpInRead
      then Some (s\<lparr>udp_at := UdpHas r, in_m := (in_m s)\<lparr>QueriesUDP := QueriesUDP (in_m s) + 1\<rparr>\<rparr>) else None)"
| "serveUDP cfg UdpParse s =
     (case udp_at s of
        UdpHas None \<Rightarrow> Some (s\<lparr>udp_at := UdpTop, in_m := (in_m s)\<lparr>ParseError := ParseError (in_m s) + 1\<rparr>\<rparr>)
      | UdpHas (Some req) \<Rightarrow> Some (s\<lparr>udp_at := UdpAsks req\<rparr>)
      | _ \<Rightarrow> None)"
| "serveUDP cfg UdpAdmit s =
     (case udp_at s of
        UdpAsks req \<Rightarrow>
          (if int (sem s) < MaxConcurrency cfg then Some (s\<lparr>udp_at := UdpHolds req, sem := sem s + 1\<rparr>)
           else Some (drop_query (s\<lparr>udp_at := UdpTop\<rparr>)))
      | _ \<Rightarrow> None)"
| "serveUDP cfg UdpSpawn s =
     (case udp_at s of UdpHolds req \<Rightarrow> Some (start_handler (s\<lparr>udp_at := UdpTop\<rparr>)) | _ \<Rightarrow> None)"

text \<open>
  A connection waits until a slot is free or \<^verbatim>\<open>tcpAdmitTimeout\<close> has passed; then it is closed.
\<close>

fun serveTCP :: "Config \<Rightarrow> tcp_op \<Rightarrow> intake \<Rightarrow> intake option" where
  "serveTCP cfg TcpAccept s = (if tcp_at s = TcpTop then Some (s\<lparr>tcp_at := TcpInAccept\<rparr>) else None)"
| "serveTCP cfg TcpAcceptError s =
     (if tcp_at s = TcpTop \<or> tcp_at s = TcpInAccept then Some (s\<lparr>tcp_at := (if stop s then TcpEnded else TcpTop)\<rparr>) else None)"
| "serveTCP cfg TcpGet s =
     (if tcp_at s = TcpInAccept
      then Some (s\<lparr>tcp_at := TcpAsks, in_m := (in_m s)\<lparr>QueriesTCP := QueriesTCP (in_m s) + 1\<rparr>\<rparr>) else None)"
| "serveTCP cfg TcpAdmit s =
     (if tcp_at s = TcpAsks \<and> int (sem s) < MaxConcurrency cfg then Some (s\<lparr>tcp_at := TcpHolds, sem := sem s + 1\<rparr>) else None)"
| "serveTCP cfg (TcpGiveUp waited) s =
     (if tcp_at s = TcpAsks \<and> tcpAdmitTimeout \<le> waited then Some (drop_query (s\<lparr>tcp_at := TcpTop\<rparr>)) else None)"
| "serveTCP cfg TcpSpawn s = (if tcp_at s = TcpHolds then Some (start_handler (s\<lparr>tcp_at := TcpTop\<rparr>)) else None)"

text \<open>
  All goroutines together: the loops, the handlers, whose deferred calls give the slot back before they leave the wait
  group, and \<^verbatim>\<open>ListenAndServe\<close> from the end of the context to the end of the drain.
\<close>

fun intake_step :: "Config \<Rightarrow> intake_op \<Rightarrow> intake \<Rightarrow> intake option" where
  "intake_step cfg (UdpOp x) s = serveUDP cfg x s"
| "intake_step cfg (TcpOp x) s = serveTCP cfg x s"
| "intake_step cfg HandlerDone s =
     (if handlers s = 0 then None else Some (s\<lparr>handlers := handlers s - 1, sem := sem s - 1, exiting := exiting s + 1\<rparr>))"
| "intake_step cfg HandlerExit s =
     (if exiting s = 0 then None else Some (s\<lparr>exiting := exiting s - 1, wg := wg s - 1\<rparr>))"
| "intake_step cfg Stop s = (if stop s then None else Some (s\<lparr>stop := True\<rparr>))"
| "intake_step cfg AwaitLoops s =
     (if stop s \<and> \<not> udp_loop s \<and> \<not> tcp_loop s \<and> drain_state s = Serving then Some (s\<lparr>drain_state := Draining\<rparr>) else None)"
| "intake_step cfg DrainDone s =
     (if drain_state s = Draining \<and> wg s = 0 then Some (s\<lparr>drain_state := Drained\<rparr>) else None)"
| "intake_step cfg DrainTimesOut s =
     (if drain_state s = Draining then Some (s\<lparr>drain_state := DrainTimeout\<rparr>) else None)"

definition intake_init :: "Config \<Rightarrow> Metrics \<Rightarrow> intake" where
  "intake_init cfg m = \<lparr>sem = 0, wg = 0, handlers = 0, exiting = 0, udp_at = (if UDP cfg then UdpTop else UdpEnded),
     tcp_at = (if TCP cfg then TcpTop else TcpEnded), stop = False, drain_state = Serving, in_m = m\<rparr>"

fun intake_run :: "Config \<Rightarrow> intake_op list \<Rightarrow> intake \<Rightarrow> intake option" where
  "intake_run cfg [] s = Some s"
| "intake_run cfg (x # xs) s = (case intake_step cfg x s of None \<Rightarrow> None | Some s' \<Rightarrow> intake_run cfg xs s')"

inductive intake_reach :: "Config \<Rightarrow> Metrics \<Rightarrow> intake \<Rightarrow> bool" for cfg m where
  init: "intake_reach cfg m (intake_init cfg m)"
| step: "intake_reach cfg m s \<Longrightarrow> intake_step cfg x s = Some s' \<Longrightarrow> intake_reach cfg m s'"

section \<open>Replies\<close>

lemma append_answers_eq: "append_answers q ttl as out = out @ map (answer_rr q ttl) as"
  by (induction as arbitrary: out) auto

text \<open>A reply that \<^verbatim>\<open>applyEDNS\<close> may extend: it has no additional records yet.\<close>

lemma reply_facts:
  assumes "reply_law lib"
  shows "m_id (set_reply lib new_msg req) = m_id req" "m_question (set_reply lib new_msg req) = take 1 (m_question req)"
    "m_answer (set_reply lib new_msg req) = []" "m_ns (set_reply lib new_msg req) = []"
    "m_extra (set_reply lib new_msg req) = []" "m_rcode (set_reply lib new_msg req) = RcodeSuccess"
  using assms by (simp_all add: reply_law_def Let_def)

lemma edns_frame:
  assumes "edns_law lib" "m_extra r = []"
  shows "\<exists>x. set_edns0 lib r sz do = r\<lparr>m_extra := x\<rparr>"
proof -
  have "is_edns0 lib r = None" using assms by (simp add: edns_law_def)
  then have "\<exists>h. set_edns0 lib r sz do = r\<lparr>m_extra := m_extra r @ [RR_OPT h]\<rparr>"
    using assms(1) unfolding edns_law_def by blast
  then show ?thesis by blast
qed

lemma applyEDNS_frame:
  assumes "edns_law lib" "m_extra r = []"
  shows "\<exists>x. applyEDNS lib req r = r\<lparr>m_extra := x\<rparr>"
proof -
  have "applyEDNS lib req r = r \<or> (\<exists>sz. applyEDNS lib req r = set_edns0 lib r sz False)"
    by (auto simp: applyEDNS_def split: option.splits)
  then show ?thesis
  proof
    assume "applyEDNS lib req r = r"
    then show ?thesis by (intro exI [of _ "m_extra r"]) simp
  next
    assume "\<exists>sz. applyEDNS lib req r = set_edns0 lib r sz False"
    then show ?thesis using edns_frame [OF assms] by metis
  qed
qed

text \<open>What \<^verbatim>\<open>synthesize\<close> says to the client, apart from the OPT record.\<close>

lemma synthesize_reply:
  assumes "reply_law lib" "edns_law lib"
  shows "let resp = fst (synthesize lib m req q v)
     in m_id resp = m_id req \<and> m_question resp = take 1 (m_question req)
      \<and> m_rcode resp = (if v_addrs v \<noteq> [] then RcodeSuccess
           else if v_rcode v \<in> {RcodeSuccess, RcodeNameError} then v_rcode v else RcodeServerFailure)
      \<and> m_answer resp = map (answer_rr q (v_ttl v)) (v_addrs v)
      \<and> m_ns resp = (case v_soa v of
           Some soa \<Rightarrow> (if v_addrs v = [] \<and> v_rcode v \<in> {RcodeSuccess, RcodeNameError}
                        then [RR_SOA (soa\<lparr>soa_hdr := (soa_hdr soa)\<lparr>hdr_ttl := v_ttl v\<rparr>\<rparr>)] else [])
         | None \<Rightarrow> [])"
proof -
  define r0 where "r0 =
     (if v_addrs v \<noteq> [] then buildPositive lib req q (v_addrs v) (v_ttl v)
      else if v_rcode v = RcodeNameError then buildNegative lib req RcodeNameError (v_soa v) (v_ttl v)
      else if v_rcode v = RcodeSuccess then buildNegative lib req RcodeSuccess (v_soa v) (v_ttl v)
      else rcodeReply lib req RcodeServerFailure)"
  note law = reply_facts [OF assms(1), of req]
  have "m_extra r0 = []"
    by (auto simp: r0_def buildPositive_def buildNegative_def rcodeReply_def law Let_def split: option.splits)
  then obtain x where "applyEDNS lib req r0 = r0\<lparr>m_extra := x\<rparr>" using applyEDNS_frame [OF assms(2)] by blast
  moreover have "fst (synthesize lib m req q v) = applyEDNS lib req r0"
    by (simp add: synthesize_def r0_def Let_def)
  ultimately show ?thesis
    by (auto simp: r0_def buildPositive_def buildNegative_def rcodeReply_def append_answers_eq law Let_def
        split: option.splits)
qed

text \<open>Reading an answer record back gives the address.\<close>

lemma rrAddr_answer:
  assumes "(q_type q = TypeA \<and> is4 a) \<or> (q_type q = TypeAAAA \<and> is6 a \<and> addr_zone a = [])"
  shows "rrAddr (answer_rr q ttl a) = (a, True)" "hdr_rrtype (rr_hdr (answer_rr q ttl a)) = q_type q"
    "hdr_ttl (rr_hdr (answer_rr q ttl a)) = ttl"
proof -
  have four: "ucast (be_word (be_bytes 4 (ucast w))) = w" for w :: "32 word"
  proof -
    have "be_word (be_bytes 4 (ucast w)) = take_bit 32 (ucast w :: 128 word)"
      by (simp add: wire_bytes)
    then show ?thesis by (intro bit_word_eqI) (simp add: bit_simps)
  qed
  have ne: "TypeAAAA \<noteq> TypeA" by (simp add: go_consts)
  consider (v4) w where "q_type q = TypeA" "a = Addr4 w" | (v6) w where "q_type q = TypeAAAA" "a = Addr6 w []"
    using assms by (cases a) auto
  then show "rrAddr (answer_rr q ttl a) = (a, True)"
  proof cases
    case v4
    then show ?thesis by (simp add: answer_rr_def Let_def addr_from_slice_def four unmap_def is4in6_def)
  next
    case v6
    then show ?thesis by (simp add: answer_rr_def Let_def addr_from_slice_def addr_from16_def ne)
  qed
  show "hdr_rrtype (rr_hdr (answer_rr q ttl a)) = q_type q" "hdr_ttl (rr_hdr (answer_rr q ttl a)) = ttl"
    by (simp_all add: answer_rr_def Let_def)
qed

lemma fold_ttl_same: "fold ttl_step (replicate n ttl) m = (if n = 0 then m else if m = 0 \<or> ttl < m then ttl else m)"
  by (induction n arbitrary: m) (auto simp: ttl_step_def)

section \<open>Forwarding\<close>

text \<open>The time an attempt may take at an observation, and whether one is made at all.\<close>

definition attempt_time :: "query_env \<Rightarrow> int \<Rightarrow> nat \<Rightarrow> int" where
  "attempt_time env timeout t = (case ctx_until env (Suc t) of Some left \<Rightarrow> min left timeout | None \<Rightarrow> timeout)"

definition may_try :: "query_env \<Rightarrow> int \<Rightarrow> nat \<Rightarrow> bool" where
  "may_try env timeout t \<longleftrightarrow> ctx_err env t = None \<and> 0 < attempt_time env timeout t"

text \<open>What the attempt at upstream \<open>k\<close> gives when it is made at observation \<open>t\<close>.\<close>

definition attempt_at :: "query_env \<Rightarrow> (nat \<Rightarrow> u16) \<Rightarrow> int \<Rightarrow> Upstream list \<Rightarrow> msg \<Rightarrow> nat \<Rightarrow> nat \<Rightarrow> nat \<times> (go_error + msg)" where
  "attempt_at env ids timeout ups req k t =
     snd (Exchange env (t + 2) (up_client (ups ! k)) (up_addr (ups ! k)) (req\<lparr>m_id := ids k\<rparr>) (attempt_time env timeout t))"

text \<open>The first \<open>k\<close> upstreams have been asked in order and have failed, which took until observation \<open>t\<close>.\<close>

inductive all_failed :: "query_env \<Rightarrow> (nat \<Rightarrow> u16) \<Rightarrow> int \<Rightarrow> Upstream list \<Rightarrow> msg \<Rightarrow> nat \<Rightarrow> nat \<Rightarrow> bool" for env ids timeout ups req where
  none: "all_failed env ids timeout ups req 0 0"
| more: "all_failed env ids timeout ups req k t \<Longrightarrow> k < length ups \<Longrightarrow> may_try env timeout t \<Longrightarrow>
    attempt_at env ids timeout ups req k t = (t', Inl err) \<Longrightarrow> all_failed env ids timeout ups req (Suc k) t'"

lemma forward_loop_outcome:
  assumes "all_failed env ids timeout ups req i t" "us = drop i ups" "i \<le> length ups"
    and "forward_loop env ids timeout req t i us m = (r, m')"
  shows "\<exists>k t. all_failed env ids timeout ups req k t \<and> k \<le> length ups \<and>
    (case r of
       Some resp \<Rightarrow> k < length ups \<and> may_try env timeout t \<and> (\<exists>t' x. attempt_at env ids timeout ups req k t = (t', Inr x) \<and> resp = x\<lparr>m_id := m_id req\<rparr>)
     | None \<Rightarrow> k = length ups \<or> \<not> may_try env timeout t)"
  using assms
proof (induction us arbitrary: t i m)
  case Nil
  then have "r = None" "i = length ups" by simp_all
  then show ?case using Nil.prems(1) by (intro exI [of _ i] exI [of _ t]) simp
next
  case (Cons u us)
  have i: "i < length ups" "ups ! i = u" "us = drop (Suc i) ups"
    using Cons.prems(2) by (metis drop_eq_Nil2 linorder_not_less list.distinct(1), metis nth_via_drop, metis drop_Suc list.sel(3) tl_drop)
  have b: "(case ctx_until env (Suc t) of Some rem \<Rightarrow> (if rem < timeout then rem else timeout) | None \<Rightarrow> timeout) = attempt_time env timeout t"
    by (auto simp: attempt_time_def split: option.splits)
  note run = Cons.prems(4) [unfolded forward_loop.simps Let_def b]
  show ?case
  proof (cases "may_try env timeout t")
    case False
    then have "r = None" using run by (auto simp: may_try_def split: if_splits)
    then show ?thesis using Cons.prems(1,3) False by (intro exI [of _ i] exI [of _ t]) simp
  next
    case True
    then have may: "(ctx_err env t \<noteq> None) = False" "(attempt_time env timeout t \<le> 0) = False" by (auto simp: may_try_def)
    obtain cl t' res where ex: "Exchange env (t + 2) (up_client u) (up_addr u) (req\<lparr>m_id := ids i\<rparr>) (attempt_time env timeout t) = (cl, t', res)"
      by (metis prod_cases3)
    then have at: "attempt_at env ids timeout ups req i t = (t', res)" by (simp add: attempt_at_def i(2))
    show ?thesis
    proof (cases res)
      case (Inr x)
      then have "r = Some (x\<lparr>m_id := m_id req\<rparr>)" using run by (simp only: may ex if_False prod.case sum.case) simp
      then show ?thesis using Cons.prems(1) i(1) True at Inr by (intro exI [of _ i] exI [of _ t]) simp
    next
      case (Inl err)
      then have "forward_loop env ids timeout req t' (Suc i) us (RecordUpstreamFailure m (int i) (Category err)) = (r, m')"
        using run by (simp only: may ex if_False prod.case sum.case)
      then show ?thesis
        using Cons.IH [OF all_failed.more [OF Cons.prems(1) i(1) True] i(3)] at Inl i(1) by simp
    qed
  qed
qed

lemma forward_outcome:
  assumes "forward lib env ids cfg ups m req = (resp, m')"
  obtains k t where "all_failed env ids (ForwardTimeout cfg) ups req k t" "k \<le> length ups"
    "(k < length ups \<and> may_try env (ForwardTimeout cfg) t
        \<and> (\<exists>t' r. attempt_at env ids (ForwardTimeout cfg) ups req k t = (t', Inr r) \<and> resp = r\<lparr>m_id := m_id req\<rparr>))
     \<or> ((k = length ups \<or> \<not> may_try env (ForwardTimeout cfg) t) \<and> resp = rcodeReply lib req RcodeServerFailure)"
proof -
  obtain r m1 where f: "forward_loop env ids (ForwardTimeout cfg) req 0 0 ups m = (r, m1)" by fastforce
  then have "resp = (case r of Some x \<Rightarrow> x | None \<Rightarrow> rcodeReply lib req RcodeServerFailure)"
    using assms by (auto simp: forward_def split: option.splits)
  then show thesis
    using forward_loop_outcome [OF all_failed.none _ _ f] that by (cases r) auto
qed

lemma forward_id:
  assumes "reply_law lib"
  shows "m_id (fst (forward lib env ids cfg ups m req)) = m_id req"
proof -
  obtain resp m' where f: "forward lib env ids cfg ups m req = (resp, m')" by fastforce
  show ?thesis
    by (rule forward_outcome [OF f]) (use f reply_facts [OF assms] in \<open>auto simp: rcodeReply_def\<close>)
qed

text \<open>The ways a request can be answered.\<close>

lemma handleRequest_cases:
  assumes "handleRequest lib env ids lookup cfg ups m req = (resp, m')"
  obtains (rcode) c where "resp = rcodeReply lib req c"
  | (badvers) "resp = set_edns0 lib (rcodeReply lib req RcodeBadVers) maxUDPPayload False"
  | (relayed) m1 where "resp = fst (forward lib env ids cfg ups m1 req)"
  | (resolved) m1 q v where "resp = fst (synthesize lib m1 req q v)"
  using assms unfolding handleRequest_def by (auto split: list.splits if_splits sum.splits) (metis fst_conv)+

text \<open>A question for addresses, in a message that asks nothing else.\<close>

definition address_question :: "dns_lib \<Rightarrow> msg \<Rightarrow> question \<Rightarrow> bool" where
  "address_question lib req q \<longleftrightarrow> m_question req = [q] \<and> q_class q = ClassINET \<and> m_opcode req = OpcodeQuery
     \<and> q_type q \<in> {TypeA, TypeAAAA} \<and> (\<forall>opt. is_edns0 lib req = Some opt \<longrightarrow> opt_version lib opt = 0)"

lemma handleRequest_lookup:
  assumes "address_question lib req q" "handleRequest lib env ids lookup cfg ups m req = (resp, m')"
  shows "resp = (case lookup (q_name q) (q_type q) of
      Inl err \<Rightarrow> rcodeReply lib req RcodeServerFailure
    | Inr v \<Rightarrow> fst (synthesize lib (m\<lparr>Resolved := Resolved m + 1\<rparr>) req q v))"
  using assms by (auto simp: address_question_def handleRequest_def split: option.splits sum.splits)

lemma handleRequest_id:
  assumes "reply_law lib" "edns_law lib" "handleRequest lib env ids lookup cfg ups m req = (resp, m')"
  shows "m_id resp = m_id req"
  using assms(3)
proof (cases rule: handleRequest_cases)
  case (rcode c)
  then show ?thesis using reply_facts [OF assms(1)] by (simp add: rcodeReply_def)
next
  case badvers
  have "m_extra (rcodeReply lib req RcodeBadVers) = []" "m_id (rcodeReply lib req RcodeBadVers) = m_id req"
    using reply_facts [OF assms(1)] by (simp_all add: rcodeReply_def)
  then show ?thesis using badvers edns_frame [OF assms(2)] by (metis msg.select_convs(1) msg.surjective msg.update_convs(15))
next
  case (relayed m1)
  then show ?thesis using forward_id [OF assms(1)] by simp
next
  case (resolved m1 q v)
  then show ?thesis using synthesize_reply [OF assms(1,2), of m1 req q v] by (simp add: Let_def)
qed

section \<open>Datagrams\<close>

text \<open>\<^verbatim>\<open>Truncate\<close> makes a message fit the size asked for, for sizes of at least 512 bytes.\<close>

definition truncate_law :: "dns_lib \<Rightarrow> bool" where
  "truncate_law lib \<longleftrightarrow>
     (\<forall>r n w. 512 \<le> n \<longrightarrow> msg_pack lib (msg_truncate lib r n) = Some w \<longrightarrow> int (length w) \<le> n)"

text \<open>What a client can take: 512 bytes, or what it advertises up to the server's own limit.\<close>

definition client_limit :: "dns_lib \<Rightarrow> msg \<Rightarrow> int" where
  "client_limit lib req = (case is_edns0 lib req of
     None \<Rightarrow> 512
   | Some opt \<Rightarrow> max 512 (min (uint (opt_udp_size lib opt)) 1232))"

lemma truncateForUDP_size:
  "truncateForUDP lib req resp maxUDPPayload = msg_truncate lib resp (client_limit lib req)"
proof (cases "is_edns0 lib req")
  case None
  then show ?thesis by (simp add: truncateForUDP_def client_limit_def)
next
  case (Some opt)
  define sz where "sz = opt_udp_size lib opt"
  have "uint (if sz \<ge> 512 \<and> sz \<le> 1232 then sz else if sz > 1232 then 1232 else 512) = max 512 (min (uint sz) 1232)"
    by (simp add: word_le_def word_less_def max_def min_def)
  then show ?thesis
    by (simp only: truncateForUDP_def client_limit_def maxUDPPayload_def Let_def Some option.case sz_def)
qed

section \<open>TCP framing\<close>

lemma get_put_u16: "get_u16 (ucast (drop_bit 8 w)) (ucast w) = w"
proof -
  have "(ucast (ucast (drop_bit 8 w) :: u8) :: u16) = drop_bit 8 w"
    by (rule bit_word_eqI) (auto simp: bit_simps dest: bit_imp_le_length)
  moreover have "(ucast (ucast w :: u8) :: u16) = take_bit 8 w"
    by (rule bit_word_eqI) (auto simp: bit_simps)
  moreover have "push_bit 8 (drop_bit 8 w) + take_bit 8 w = w" by (rule bits_ident)
  ultimately show ?thesis by (simp add: get_u16_def push_bit_eq_mult)
qed

lemma tcp_frame_read:
  assumes "length w < 65536"
  shows "\<exists>a b. tcp_frame w @ rest = a # b # w @ rest \<and> unat (get_u16 a b) = length w"
proof -
  have "unat (of_nat (length w) :: u16) = length w" using assms by (simp add: unat_of_nat take_bit_nat_eq_self)
  then show ?thesis by (auto simp: tcp_frame_def put_u16_def get_put_u16)
qed

text \<open>A connection on which nothing fails and a handler that answers every query.\<close>

definition answers_all :: "dns_lib \<Rightarrow> (nat \<Rightarrow> Metrics \<Rightarrow> msg \<Rightarrow> msg \<times> Metrics) \<Rightarrow> (msg \<Rightarrow> msg) \<Rightarrow> bool" where
  "answers_all lib handle respond \<longleftrightarrow>
     (\<forall>k m req. fst (handle k m req) = respond req \<and> Inflight (snd (handle k m req)) = Inflight m)
     \<and> (\<forall>req. msg_pack lib (respond req) \<noteq> None)"

definition conn_ok :: "conn_env \<Rightarrow> bool" where
  "conn_ok ce \<longleftrightarrow> (\<forall>k. set_read_ok ce k \<and> set_write_ok ce k \<and> write_ok ce k)"

definition reply_frame :: "dns_lib \<Rightarrow> (msg \<Rightarrow> msg) \<Rightarrow> u8 list \<Rightarrow> u8 list" where
  "reply_frame lib respond w = tcp_frame (the (msg_pack lib (respond (the (msg_unpack lib w)))))"

lemma tcp_serves_frames:
  assumes "conn_ok ce" "answers_all lib handle respond"
    and "\<forall>w\<in>set ws. length w < 65536 \<and> msg_unpack lib w \<noteq> None"
  shows "\<exists>m'. handleTCPConn lib ce handle k m (concat (map tcp_frame ws)) out = (out @ map (reply_frame lib respond) ws, m')
    \<and> Inflight m' = Inflight m"
  using assms(3)
proof (induction ws arbitrary: k m out)
  case Nil
  then show ?case using assms(1) by (subst handleTCPConn.simps) (simp add: conn_ok_def)
next
  case (Cons w ws)
  define rest where "rest = concat (map tcp_frame ws)"
  obtain a b where ab: "tcp_frame w @ rest = a # b # w @ rest" "unat (get_u16 a b) = length w"
    using tcp_frame_read [of w rest] Cons.prems by auto
  obtain req where req: "msg_unpack lib w = Some req" using Cons.prems by auto
  obtain m1 where m1: "handle k (m\<lparr>Inflight := Inflight m + 1\<rparr>) req = (respond req, m1)" "Inflight m1 = Inflight m + 1"
    using assms(2) unfolding answers_all_def by (metis Metrics.select_convs(13) Metrics.surjective Metrics.update_convs(13) prod.collapse)
  obtain wire where wire: "msg_pack lib (respond req) = Some wire" using assms(2) unfolding answers_all_def by blast
  define m2 where "m2 = m1\<lparr>Inflight := Inflight m1 - 1\<rparr>"
  have "handleTCPConn lib ce handle k m (tcp_frame w @ rest) out =
      handleTCPConn lib ce handle (Suc k) m2 rest (out @ [tcp_frame wire])"
    using assms(1) by (subst handleTCPConn.simps) (simp add: ab req m1 wire conn_ok_def m2_def Let_def)
  moreover have "tcp_frame wire = reply_frame lib respond w" by (simp add: reply_frame_def req wire)
  moreover have "Inflight m2 = Inflight m" by (simp add: m2_def m1)
  ultimately show ?case
    using Cons.IH [of "Suc k" m2 "out @ [tcp_frame wire]"] Cons.prems by (auto simp: rest_def)
qed

section \<open>Intake\<close>

text \<open>The slots that the loops hold for a handler they have not started yet.\<close>

definition held_slots :: "intake \<Rightarrow> nat" where
  "held_slots s = (case udp_at s of UdpHolds req \<Rightarrow> 1 | _ \<Rightarrow> 0) + (if tcp_at s = TcpHolds then 1 else 0)"

definition intake_inv :: "Config \<Rightarrow> intake \<Rightarrow> bool" where
  "intake_inv cfg s \<longleftrightarrow> sem s = handlers s + held_slots s \<and> wg s = handlers s + exiting s
     \<and> int (sem s) \<le> max 0 (MaxConcurrency cfg)
     \<and> (drain_state s \<noteq> Serving \<longrightarrow> stop s \<and> \<not> udp_loop s \<and> \<not> tcp_loop s)
     \<and> (drain_state s = Drained \<longrightarrow> wg s = 0)"

lemmas intake_defs = held_slots_def start_handler_def drop_query_def udp_loop_def tcp_loop_def

lemma held_slots_cases:
  "udp_at s = UdpHolds req \<Longrightarrow> held_slots s = Suc (if tcp_at s = TcpHolds then 1 else 0)"
  "(\<And>req. udp_at s \<noteq> UdpHolds req) \<Longrightarrow> held_slots s = (if tcp_at s = TcpHolds then 1 else 0)"
  by (auto simp: held_slots_def split: udp_point.splits)

lemma serveUDP_effect:
  assumes "serveUDP cfg x s = Some s'"
  shows "udp_loop s \<and> wg s' + handlers s = wg s + handlers s'
    \<and> exiting s' = exiting s \<and> stop s' = stop s \<and> drain_state s' = drain_state s \<and> tcp_at s' = tcp_at s
    \<and> sem s' + handlers s + held_slots s = sem s + handlers s' + held_slots s' \<and> (sem s' = sem s \<or> sem s' = sem s + 1 \<and> int (sem s) < MaxConcurrency cfg)"
  using assms by (cases x; cases "udp_at s") (auto simp: held_slots_cases start_handler_def drop_query_def udp_loop_def split: if_splits option.splits)

lemma serveTCP_effect:
  assumes "serveTCP cfg x s = Some s'"
  shows "tcp_loop s \<and> wg s' + handlers s = wg s + handlers s'
    \<and> exiting s' = exiting s \<and> stop s' = stop s \<and> drain_state s' = drain_state s \<and> udp_at s' = udp_at s
    \<and> sem s' + handlers s + held_slots s = sem s + handlers s' + held_slots s' \<and> (sem s' = sem s \<or> sem s' = sem s + 1 \<and> int (sem s) < MaxConcurrency cfg)"
  using assms by (cases x) (auto simp: held_slots_def start_handler_def drop_query_def tcp_loop_def split: if_splits)

lemma loop_inv:
  assumes "intake_inv cfg s" "udp_loop s \<or> tcp_loop s"
    and "wg s' + handlers s = wg s + handlers s'" "exiting s' = exiting s" "stop s' = stop s" "drain_state s' = drain_state s"
    and "sem s' + handlers s + held_slots s = sem s + handlers s' + held_slots s'" "sem s' = sem s \<or> sem s' = sem s + 1 \<and> int (sem s) < MaxConcurrency cfg"
  shows "intake_inv cfg s'"
proof -
  have "drain_state s = Serving" using assms(1,2) by (auto simp: intake_inv_def)
  moreover have "sem s' = handlers s' + held_slots s'" "wg s' = handlers s' + exiting s'" using assms by (auto simp: intake_inv_def)
  moreover have "int (sem s') \<le> max 0 (MaxConcurrency cfg)" using assms(1,8) by (auto simp: intake_inv_def)
  ultimately show ?thesis using assms(6) by (simp add: intake_inv_def)
qed

lemma intake_inv_step:
  assumes "intake_inv cfg s" "intake_step cfg x s = Some s'"
  shows "intake_inv cfg s'"
proof (cases x)
  case (UdpOp y)
  then show ?thesis using assms serveUDP_effect [of cfg y s s'] by (intro loop_inv [OF assms(1)]) auto
next
  case (TcpOp y)
  then show ?thesis using assms serveTCP_effect [of cfg y s s'] by (intro loop_inv [OF assms(1)]) auto
qed (use assms in \<open>auto simp: intake_inv_def held_slots_def udp_loop_def tcp_loop_def split: if_splits\<close>)

lemma intake_inv_reach: "intake_reach cfg m s \<Longrightarrow> intake_inv cfg s"
proof (induction rule: intake_reach.induct)
  case init
  show ?case by (simp add: intake_inv_def intake_init_def intake_defs)
next
  case (step s x s')
  then show ?case using intake_inv_step by blast
qed

text \<open>A loop that has ended takes no step.\<close>

lemma ended_loops:
  "\<not> udp_loop s \<Longrightarrow> serveUDP cfg x s = None" "\<not> tcp_loop s \<Longrightarrow> serveTCP cfg y s = None"
  using serveUDP_effect serveTCP_effect by (meson option.exhaust)+

lemma intake_no_new_handler:
  assumes "intake_inv cfg s" "drain_state s \<noteq> Serving" "intake_step cfg x s = Some s'"
  shows "handlers s' \<le> handlers s \<and> drain_state s' \<noteq> Serving"
proof -
  have "\<not> udp_loop s" "\<not> tcp_loop s" using assms(1,2) by (simp_all add: intake_inv_def)
  then show ?thesis using assms(2,3) ended_loops [of s cfg] by (cases x) (auto split: if_splits)
qed

lemma intake_run_reach: "intake_reach cfg m s \<Longrightarrow> intake_run cfg xs s = Some s' \<Longrightarrow> intake_reach cfg m s'"
  by (induction xs arbitrary: s) (auto split: option.splits intro: intake_reach.step simp del: intake_step.simps)

section \<open>Properties\<close>

text \<open>A sample exchange: a question for addresses, a lookup that finds two.\<close>

definition sample_question :: question where
  "sample_question = \<lparr>q_name = ''a.'', q_type = TypeA, q_class = ClassINET\<rparr>"

definition sample_request :: msg where
  "sample_request = new_msg\<lparr>m_id := 77, m_rd := True, m_question := [sample_question]\<rparr>"

definition sample_found :: Value where
  "sample_found = zero_value\<lparr>v_addrs := [Addr4 0x01020304, Addr4 0x09090909], v_ttl := 60\<rparr>"

definition sample_handle :: "Metrics \<Rightarrow> msg \<Rightarrow> msg \<times> Metrics" where
  "sample_handle = handleRequest ref_lib sample_env (\<lambda>_. 0) (\<lambda>_ _. Inr sample_found) Defaults []"

text \<open>
  C24. Every request gets a reply with its identifier. A message without a question is a format error;
  a question for addresses gets exactly the addresses found, in order, with the TTL found, or the
  denial with its SOA at that TTL, or SERVFAIL when the lookup fails.
\<close>

theorem handleRequest_replies:
  assumes "reply_law lib" "edns_law lib"
    and "handleRequest lib env ids lookup cfg ups m req = (resp, m')"
  shows "m_id resp = m_id req
    \<and> (m_question req = [] \<longrightarrow> m_rcode resp = RcodeFormatError)
    \<and> (\<forall>q. address_question lib req q \<longrightarrow>
         m_question resp = [q] \<and>
         (case lookup (q_name q) (q_type q) of
            Inl err \<Rightarrow> m_rcode resp = RcodeServerFailure \<and> m_answer resp = []
          | Inr v \<Rightarrow> m_answer resp = map (answer_rr q (v_ttl v)) (v_addrs v)
              \<and> m_rcode resp = (if v_addrs v \<noteq> [] then RcodeSuccess
                  else if v_rcode v \<in> {RcodeSuccess, RcodeNameError} then v_rcode v else RcodeServerFailure)
              \<and> m_ns resp = (case v_soa v of
                  Some soa \<Rightarrow> (if v_addrs v = [] \<and> v_rcode v \<in> {RcodeSuccess, RcodeNameError}
                    then [RR_SOA (soa\<lparr>soa_hdr := (soa_hdr soa)\<lparr>hdr_ttl := v_ttl v\<rparr>\<rparr>)] else [])
                | None \<Rightarrow> [])))"
proof -
  note law = reply_facts [OF assms(1), of req]
  have id: "m_id resp = m_id req" by (rule handleRequest_id [OF assms])
  have formerr: "m_rcode resp = RcodeFormatError" if "m_question req = []"
    using assms(3) that by (auto simp: handleRequest_def rcodeReply_def)
  have addr_q: "m_question resp = [q] \<and>
         (case lookup (q_name q) (q_type q) of
            Inl err \<Rightarrow> m_rcode resp = RcodeServerFailure \<and> m_answer resp = []
          | Inr v \<Rightarrow> m_answer resp = map (answer_rr q (v_ttl v)) (v_addrs v)
              \<and> m_rcode resp = (if v_addrs v \<noteq> [] then RcodeSuccess
                  else if v_rcode v \<in> {RcodeSuccess, RcodeNameError} then v_rcode v else RcodeServerFailure)
              \<and> m_ns resp = (case v_soa v of
                  Some soa \<Rightarrow> (if v_addrs v = [] \<and> v_rcode v \<in> {RcodeSuccess, RcodeNameError}
                    then [RR_SOA (soa\<lparr>soa_hdr := (soa_hdr soa)\<lparr>hdr_ttl := v_ttl v\<rparr>\<rparr>)] else [])
                | None \<Rightarrow> []))"
    if q: "address_question lib req q" for q
    using handleRequest_lookup [OF q assms(3)] q law synthesize_reply [OF assms(1,2), of "m\<lparr>Resolved := Resolved m + 1\<rparr>" req q]
    by (auto simp: rcodeReply_def Let_def address_question_def split: sum.splits)
  show ?thesis using id formerr addr_q by blast
qed

theorem handleRequest_replies_witness:
  "m_answer (fst (sample_handle (Metrics_New []) sample_request)) =
     [answer_rr sample_question 60 (Addr4 0x01020304), answer_rr sample_question 60 (Addr4 0x09090909)]
   \<and> m_id (fst (sample_handle (Metrics_New []) sample_request)) = 77"
proof -
  obtain resp m' where h: "handleRequest ref_lib sample_env (\<lambda>_. 0) (\<lambda>_ _. Inr sample_found) Defaults [] (Metrics_New []) sample_request
      = (resp, m')" by fastforce
  have "is_edns0 ref_lib sample_request = None" by (simp add: ref_lib_def sample_request_def new_msg_def)
  then show ?thesis
    using handleRequest_replies [OF ref_lib_laws(1,2) h] h
    by (simp add: address_question_def sample_handle_def sample_request_def sample_question_def sample_found_def new_msg_def OpcodeQuery_def)
qed

text \<open>
  C25. The client reads back what was resolved: the reply to an address question, read with the
  resolver's own record extraction, gives the addresses and the TTL of the value served.
\<close>

theorem answer_roundtrip:
  assumes "reply_law lib" "edns_law lib" "v_addrs v \<noteq> []"
    and "\<forall>a\<in>set (v_addrs v). (q_type q = TypeA \<and> is4 a) \<or> (q_type q = TypeAAAA \<and> is6 a \<and> addr_zone a = [])"
  shows "answer_addrs (q_type q) (m_answer (fst (synthesize lib m req q v))) [] 0 = (v_addrs v, v_ttl v)"
proof -
  define rs where "rs = map (answer_rr q (v_ttl v)) (v_addrs v)"
  have ans: "m_answer (fst (synthesize lib m req q v)) = rs"
    using synthesize_reply [OF assms(1,2), of m req q v] by (simp add: Let_def rs_def)
  note rr = rrAddr_answer [OF assms(4) [rule_format], of _ "v_ttl v"]
  have us: "filter (usable (q_type q)) rs = rs"
    using rr by (auto simp: rs_def usable_def filter_id_conv)
  have "map (fst \<circ> rrAddr) rs = v_addrs v"
    using rr(1) by (simp add: rs_def comp_def map_idI)
  moreover have "usable_ttls (q_type q) rs = replicate (length (v_addrs v)) (v_ttl v)"
    using rr(3) unfolding usable_ttls_def us by (auto simp: rs_def comp_def map_replicate_const [symmetric])
  moreover from this have "snd (answer_addrs (q_type q) rs [] 0) = v_ttl v"
    unfolding answer_addrs_snd using assms(3) by (simp only: fold_ttl_same) simp
  ultimately show ?thesis
    using answer_addrs_fst [of "q_type q" rs "[]" 0] unfolding ans us by (simp add: prod_eq_iff)
qed

theorem answer_roundtrip_witness:
  "answer_addrs TypeA (m_answer (fst (synthesize ref_lib (Metrics_New []) sample_request sample_question sample_found))) [] 0
     = ([Addr4 0x01020304, Addr4 0x09090909], 60)"
  using answer_roundtrip [OF ref_lib_laws(1,2), of sample_found sample_question "Metrics_New []" sample_request]
  by (simp add: sample_found_def sample_question_def)

text \<open>
  C27. A UDP reply never exceeds what the client can take: 512 bytes without EDNS, otherwise the
  advertised size but at least 512 and at most 1232 bytes; and the number of requests in flight
  is what it was before.
\<close>

theorem datagram_fits_client:
  assumes "truncate_law lib" "handleDatagram lib handle m req = (Some wire, m')"
    and "\<forall>m r. Inflight (snd (handle m r)) = Inflight m"
  shows "int (length wire) \<le> client_limit lib req \<and> client_limit lib req \<le> 1232 \<and> Inflight m' = Inflight m"
proof -
  obtain resp m1 where h: "handle (m\<lparr>Inflight := Inflight m + 1\<rparr>) req = (resp, m1)" by fastforce
  then have d: "msg_pack lib (msg_truncate lib resp (client_limit lib req)) = Some wire" "m' = m1\<lparr>Inflight := Inflight m1 - 1\<rparr>"
    using assms(2) by (simp_all add: handleDatagram_def truncateForUDP_size Let_def)
  have "512 \<le> client_limit lib req \<and> client_limit lib req \<le> 1232" by (simp add: client_limit_def split: option.splits)
  moreover have "Inflight m1 = Inflight m + 1"
    using assms(3) [rule_format, of "m\<lparr>Inflight := Inflight m + 1\<rparr>" req] h by simp
  ultimately show ?thesis using assms(1) d unfolding truncate_law_def by simp
qed

theorem datagram_fits_client_witness:
  "\<exists>wire m'. handleDatagram ref_lib (\<lambda>m r. (rcodeReply ref_lib r RcodeServerFailure, m)) (Metrics_New []) sample_request = (Some wire, m')
     \<and> int (length wire) \<le> 512"
proof -
  have "truncate_law ref_lib" by (auto simp: truncate_law_def ref_lib_def)
  moreover have "\<exists>wire m'. handleDatagram ref_lib (\<lambda>m r. (rcodeReply ref_lib r RcodeServerFailure, m)) (Metrics_New []) sample_request
      = (Some wire, m')"
    by (simp add: handleDatagram_def ref_lib_def Let_def)
  moreover have "client_limit ref_lib sample_request = 512"
    by (simp add: client_limit_def ref_lib_def sample_request_def new_msg_def)
  ultimately show ?thesis using datagram_fits_client [of ref_lib] by fastforce
qed

text \<open>
  C26. Length-prefixed framing is inverted on input and applied on output: a connection that sends any
  number of framed queries gets the framed replies, one per query and in order.
\<close>

theorem tcp_frames_roundtrip:
  assumes "conn_ok ce" "answers_all lib handle respond"
    and "\<forall>w\<in>set ws. length w < 65536 \<and> msg_unpack lib w \<noteq> None"
  shows "fst (handleTCPConn lib ce handle 0 m (concat (map tcp_frame ws)) []) = map (reply_frame lib respond) ws
    \<and> Inflight (snd (handleTCPConn lib ce handle 0 m (concat (map tcp_frame ws)) [])) = Inflight m"
  using tcp_serves_frames [OF assms, of 0 m "[]"] by auto

theorem tcp_frames_roundtrip_witness:
  "length (fst (handleTCPConn ref_lib \<lparr>set_read_ok = \<lambda>_. True, set_write_ok = \<lambda>_. True, write_ok = \<lambda>_. True\<rparr>
      (\<lambda>k m r. (r, m)) 0 (Metrics_New []) [0, 2, 5, 6, 0, 2, 7, 8] [])) = 2"
proof -
  define ws :: "u8 list list" where "ws = [[5, 6], [7, 8]]"
  have "answers_all ref_lib (\<lambda>k m r. (r, m)) id" by (simp add: answers_all_def ref_lib_def)
  moreover have "\<forall>w\<in>set ws. length w < 65536 \<and> msg_unpack ref_lib w \<noteq> None" by (simp add: ws_def ref_lib_def)
  moreover have "concat (map tcp_frame ws) = [0, 2, 5, 6, 0, 2, 7, 8]" unfolding ws_def by code_simp
  moreover have "length ws = 2" by (simp add: ws_def)
  ultimately show ?thesis
    using tcp_frames_roundtrip [of "\<lparr>set_read_ok = \<lambda>_. True, set_write_ok = \<lambda>_. True, write_ok = \<lambda>_. True\<rparr>"
        ref_lib "\<lambda>k m r. (r, m)" id ws "Metrics_New []"] by (simp add: conn_ok_def)
qed

text \<open>
  C31. Relaying asks the upstreams in order, each with the rest of the query's time but at most the forward timeout. The client gets, under
  its own identifier and otherwise verbatim, the reply of the first upstream whose exchange succeeds, after all those before
  it have been asked and have failed. It gets SERVFAIL, with its identifier and no records, exactly when every upstream has been asked
  and has failed, or when after a number of failures the context has ended or no time is left.
\<close>

theorem forward_relays:
  assumes "reply_law lib" "forward lib env ids cfg ups m req = (resp, m')"
  defines "timeout \<equiv> ForwardTimeout cfg"
  shows "\<exists>k t. all_failed env ids timeout ups req k t \<and> k \<le> length ups \<and>
    (if k < length ups \<and> may_try env timeout t \<and> (\<exists>t' r. attempt_at env ids timeout ups req k t = (t', Inr r))
     then \<exists>t' r. attempt_at env ids timeout ups req k t = (t', Inr r) \<and> resp = r\<lparr>m_id := m_id req\<rparr>
     else (k = length ups \<or> \<not> may_try env timeout t)
       \<and> m_rcode resp = RcodeServerFailure \<and> m_id resp = m_id req \<and> m_answer resp = [] \<and> m_ns resp = [])"
proof -
  obtain k t where k: "all_failed env ids timeout ups req k t" "k \<le> length ups"
    "(k < length ups \<and> may_try env timeout t \<and> (\<exists>t' r. attempt_at env ids timeout ups req k t = (t', Inr r) \<and> resp = r\<lparr>m_id := m_id req\<rparr>))
     \<or> ((k = length ups \<or> \<not> may_try env timeout t) \<and> resp = rcodeReply lib req RcodeServerFailure)"
    unfolding timeout_def by (rule forward_outcome [OF assms(2)])
  show ?thesis
    by (intro exI [of _ k] exI [of _ t]) (use k reply_facts [OF assms(1)] in \<open>auto simp: rcodeReply_def\<close>)
qed

text \<open>A sample network: the first upstream cannot be reached, the second one answers.\<close>

definition sample_relay_env :: query_env where
  "sample_relay_env = \<lparr>ctx_err = (\<lambda>_. None), ctx_until = (\<lambda>_. None),
     net_exchange = (\<lambda>_ cl a q. if ap_addr a = Addr4 0x72727272 then Inl NetTimeout else Inr (new_msg\<lparr>m_id := m_id q, m_ra := True\<rparr>))\<rparr>"

definition sample_relays :: "Upstream list" where
  "sample_relays = map (\<lambda>a. \<lparr>up_addr = \<lparr>ap_addr = Addr4 a, ap_port = 53\<rparr>, InChina = False, up_client = NewClient 1232\<rparr>)
     [0x72727272, 0x08080808, 0x72727272]"

lemma sample_relay_attempts:
  "attempt_at sample_relay_env (\<lambda>_. 5) (ForwardTimeout Defaults) sample_relays sample_request 0 0 = (4, Inl ErrTimeout)"
  "attempt_at sample_relay_env (\<lambda>_. 5) (ForwardTimeout Defaults) sample_relays sample_request 1 4 = (8, Inr (new_msg\<lparr>m_id := 5, m_ra := True\<rparr>))"
  "may_try sample_relay_env (ForwardTimeout Defaults) t" "length sample_relays = 3"
  by (simp_all add: attempt_at_def attempt_time_def may_try_def sample_relay_env_def sample_relays_def Exchange_def exchangeNet_def NewClient_def
      new_msg_def Defaults_def go_consts Let_def)

theorem forward_relays_witness:
  "m_id (fst (forward ref_lib sample_relay_env (\<lambda>_. 5) Defaults sample_relays (Metrics_New []) sample_request)) = 77
   \<and> m_ra (fst (forward ref_lib sample_relay_env (\<lambda>_. 5) Defaults sample_relays (Metrics_New []) sample_request))"
proof -
  obtain resp m' where f: "forward ref_lib sample_relay_env (\<lambda>_. 5) Defaults sample_relays (Metrics_New []) sample_request = (resp, m')"
    by fastforce
  let ?failed = "all_failed sample_relay_env (\<lambda>_. 5) (ForwardTimeout Defaults) sample_relays sample_request"
  have first: "k = 0 \<and> t = 0 \<or> k = 1 \<and> t = 4" if "?failed k t" for k t
    using that by (induction rule: all_failed.induct) (use sample_relay_attempts(1,2) in auto)
  from forward_relays [OF ref_lib_laws(1) f] obtain k t where k: "?failed k t"
    "if k < length sample_relays \<and> may_try sample_relay_env (ForwardTimeout Defaults) t
        \<and> (\<exists>t' r. attempt_at sample_relay_env (\<lambda>_. 5) (ForwardTimeout Defaults) sample_relays sample_request k t = (t', Inr r))
     then \<exists>t' r. attempt_at sample_relay_env (\<lambda>_. 5) (ForwardTimeout Defaults) sample_relays sample_request k t = (t', Inr r)
       \<and> resp = r\<lparr>m_id := m_id sample_request\<rparr>
     else k = length sample_relays \<or> \<not> may_try sample_relay_env (ForwardTimeout Defaults) t"
    by (metis (mono_tags, lifting))
  have "resp = new_msg\<lparr>m_id := m_id sample_request, m_ra := True\<rparr>"
    using first [OF k(1)] k(2) sample_relay_attempts by (auto split: if_splits)
  then show ?thesis using f by (simp add: sample_request_def)
qed

text \<open>
  C28. Intake is bounded and shutdown is orderly: in every reachable state, wherever the loops are between reading and
  starting, the slots taken number at most \<^verbatim>\<open>max_concurrency\<close>, and they are those of the handlers and of at most one handler per loop about to be
  started; once the drain has begun both intake loops have ended, the slots are exactly the handlers' and no new handler
  starts; a completed drain means none is left.
\<close>

theorem intake_bounded_drain:
  assumes "intake_reach cfg m s"
  shows "sem s = handlers s + held_slots s \<and> held_slots s \<le> 2 \<and> wg s = handlers s + exiting s \<and> int (sem s) \<le> max 0 (MaxConcurrency cfg)
    \<and> (drain_state s \<noteq> Serving \<longrightarrow> \<not> udp_loop s \<and> \<not> tcp_loop s \<and> sem s = handlers s
        \<and> (\<forall>x s'. intake_step cfg x s = Some s' \<longrightarrow> handlers s' \<le> handlers s))
    \<and> (drain_state s = Drained \<longrightarrow> handlers s = 0 \<and> exiting s = 0 \<and> sem s = 0)"
proof -
  have inv: "intake_inv cfg s" by (rule intake_inv_reach [OF assms])
  have "held_slots s \<le> 2" by (simp add: held_slots_def split: udp_point.splits)
  moreover have "held_slots s = 0" if "\<not> udp_loop s" "\<not> tcp_loop s" using that by (simp add: intake_defs)
  ultimately show ?thesis using inv intake_no_new_handler [OF inv] by (auto simp: intake_inv_def simp del: intake_step.simps)
qed

theorem intake_bounded_drain_witness:
  "\<exists>s. intake_reach Defaults (Metrics_New []) s \<and> handlers s = 1 \<and> sem s = 2"
proof -
  have "case intake_run Defaults [UdpOp UdpRead, TcpOp TcpAccept, UdpOp (UdpGet (Some sample_request)), TcpOp TcpGet, UdpOp UdpParse,
      UdpOp UdpAdmit, TcpOp TcpAdmit, UdpOp UdpSpawn] (intake_init Defaults (Metrics_New [])) of
      None \<Rightarrow> False | Some s \<Rightarrow> handlers s = 1 \<and> held_slots s = 1"
    by (simp add: intake_init_def Defaults_def intake_defs)
  then obtain s where s: "intake_run Defaults [UdpOp UdpRead, TcpOp TcpAccept, UdpOp (UdpGet (Some sample_request)), TcpOp TcpGet, UdpOp UdpParse,
      UdpOp UdpAdmit, TcpOp TcpAdmit, UdpOp UdpSpawn] (intake_init Defaults (Metrics_New [])) = Some s" "handlers s = 1" "held_slots s = 1"
    by (auto simp del: intake_run.simps split: option.splits)
  have "intake_reach Defaults (Metrics_New []) s" by (rule intake_run_reach [OF intake_reach.init s(1)])
  then show ?thesis using intake_bounded_drain [of Defaults "Metrics_New []" s] s(2,3) by auto
qed

end
