(* ===== verification/GoQuote.thy ===== *)
theory GoQuote
  imports GoFmt
begin

text \<open>
  \<^verbatim>\<open>strconv.Quote\<close> (the verb \<^verbatim>\<open>%q\<close>) with the reader of such literals, and \<^verbatim>\<open>time.Duration.String\<close>. Quoting
  treats ASCII bytes one at a time; what it prints for a run of bytes outside ASCII depends on the Unicode
  tables and is the argument \<^verbatim>\<open>high\<close>.
\<close>

section \<open>Quoting\<close>

definition ascii :: "gostring \<Rightarrow> bool" where
  "ascii s \<longleftrightarrow> list_all (\<lambda>c. of_char c < (128 :: nat)) s"

definition escape_table :: "(char \<times> char) list" where
  "escape_table = [(CHR 0x07, CHR ''a''), (CHR 0x08, CHR ''b''), (CHR 0x0C, CHR ''f''), (CHR 0x0A, CHR ''n''),
     (CHR 0x0D, CHR ''r''), (CHR 0x09, CHR ''t''), (CHR 0x0B, CHR ''v'')]"

text \<open>\<^verbatim>\<open>appendEscapedRune\<close> on an ASCII byte.\<close>

definition escape_char :: "char \<Rightarrow> gostring" where
  "escape_char c =
     (let n = of_char c :: nat
      in if c = CHR 0x22 \<or> c = CHR 0x5C then [CHR 0x5C, c]
         else if 32 \<le> n \<and> n < 127 then [c]
         else case map_of escape_table c of
                Some e \<Rightarrow> [CHR 0x5C, e]
              | None \<Rightarrow> [CHR 0x5C, CHR ''x'', digit_char (int n div 16), digit_char (int n mod 16)])"

function quote_body :: "(gostring \<Rightarrow> gostring) \<Rightarrow> gostring \<Rightarrow> gostring" where
  "quote_body high [] = []"
| "quote_body high (c # cs) =
     (if of_char c < (128 :: nat) then escape_char c @ quote_body high cs
      else high (c # takeWhile (\<lambda>d. 128 \<le> (of_char d :: nat)) cs) @ quote_body high (dropWhile (\<lambda>d. 128 \<le> (of_char d :: nat)) cs))"
  by pat_completeness auto
termination
  by (relation "measure (\<lambda>(high, s). length s)") (auto simp: le_imp_less_Suc length_dropWhile_le)

definition go_quote :: "(gostring \<Rightarrow> gostring) \<Rightarrow> gostring \<Rightarrow> gostring" where
  "go_quote high s = [CHR 0x22] @ quote_body high s @ [CHR 0x22]"

section \<open>Reading a literal\<close>

text \<open>One character of a literal and what follows it.\<close>

fun unescape :: "gostring \<Rightarrow> (char \<times> gostring) option" where
  "unescape [] = None"
| "unescape (c # s) =
     (if c \<noteq> CHR 0x5C then Some (c, s)
      else case s of
        [] \<Rightarrow> None
      | e # r \<Rightarrow>
          (if e = CHR 0x22 \<or> e = CHR 0x5C then Some (e, r)
           else if e = CHR ''x'' then
             (case r of
                h # l # r' \<Rightarrow>
                  (case (hex_val h, hex_val l) of (Some a, Some b) \<Rightarrow> Some (char_of (16 * a + b), r') | _ \<Rightarrow> None)
              | _ \<Rightarrow> None)
           else case map_of (map prod.swap escape_table) e of Some d \<Rightarrow> Some (d, r) | None \<Rightarrow> None))"

lemma unescape_shorter: "unescape s = Some (c, r) \<Longrightarrow> length r < length s"
  by (cases s) (auto split: if_splits list.splits option.splits)

text \<open>The characters up to the closing quote.\<close>

function unquote_body :: "gostring \<Rightarrow> (gostring \<times> gostring) option" where
  "unquote_body s =
     (if s \<noteq> [] \<and> hd s = CHR 0x22 then Some ([], tl s)
      else case unescape s of
        None \<Rightarrow> None
      | Some (c, r) \<Rightarrow> map_option (\<lambda>(t, r'). (c # t, r')) (unquote_body r))"
  by pat_completeness auto
termination
  by (relation "measure length") (auto dest: unescape_shorter)

declare unquote_body.simps [simp del]

definition go_unquote :: "gostring \<Rightarrow> (gostring \<times> gostring) option" where
  "go_unquote s = (if s \<noteq> [] \<and> hd s = CHR 0x22 then unquote_body (tl s) else None)"

lemma escape_table_inverse: "map_of escape_table c = Some e \<Longrightarrow> map_of (map prod.swap escape_table) e = Some c \<and> e \<noteq> CHR ''x''
    \<and> e \<noteq> CHR 0x22 \<and> e \<noteq> CHR 0x5C"
  by (auto simp: escape_table_def split: if_splits)

lemma unescape_escape:
  assumes "of_char c < (128 :: nat)"
  shows "unescape (escape_char c @ r) = Some (c, r)"
proof -
  define n where "n = (of_char c :: nat)"
  have n: "n < 128" "char_of n = c" using assms by (simp_all add: n_def)
  have "nat (int n div 16) = n div 16" "nat (int n mod 16) = n mod 16" by (simp_all add: nat_div_distrib nat_mod_distrib)
  then have "hex_val (digit_char (int n div 16)) = Some (n div 16)" "hex_val (digit_char (int n mod 16)) = Some (n mod 16)"
    using digit_char_hex [of "int n div 16"] digit_char_hex [of "int n mod 16"] n(1) by simp_all
  then show ?thesis
    using n escape_table_inverse [of c] by (auto simp: escape_char_def Let_def n_def [symmetric] split: option.splits)
qed

lemma escape_char_head: "\<exists>x xs. escape_char c = x # xs \<and> x \<noteq> CHR 0x22"
  by (auto simp: escape_char_def Let_def split: option.splits)

lemma unquote_body_quote: "ascii s \<Longrightarrow> unquote_body (quote_body high s @ CHR 0x22 # r) = Some (s, r)"
proof (induction s)
  case Nil
  then show ?case by (simp add: unquote_body.simps)
next
  case (Cons c s)
  then have c: "of_char c < (128 :: nat)" and s: "ascii s" by (simp_all add: ascii_def)
  define t where "t = escape_char c @ quote_body high s @ CHR 0x22 # r"
  have "t \<noteq> []" "hd t \<noteq> CHR 0x22" using escape_char_head [of c] by (auto simp: t_def)
  moreover have "unescape t = Some (c, quote_body high s @ CHR 0x22 # r)" unfolding t_def by (rule unescape_escape [OF c])
  ultimately have "unquote_body t = Some (c # s, r)" using Cons.IH [OF s] by (simp add: unquote_body.simps [of t])
  then show ?case using c by (simp add: t_def)
qed

lemma unquote_quote: "ascii s \<Longrightarrow> go_unquote (go_quote high s @ r) = Some (s, r)"
  by (simp add: go_unquote_def go_quote_def unquote_body_quote)

lemma escape_char_line: "of_char c < (128 :: nat) \<Longrightarrow> newline \<notin> set (escape_char c)"
proof -
  assume c: "of_char c < (128 :: nat)"
  have digit: "digit_char d \<noteq> newline" if "0 \<le> d" "d < 16" for d
    using digit_char_hex [OF that] by (auto simp: newline_def hex_val_def)
  have "int (of_char c) div 16 < 16" using c by linarith
  then have "digit_char (int (of_char c) div 16) \<noteq> newline" "digit_char (int (of_char c) mod 16) \<noteq> newline"
    using digit by simp_all
  then show ?thesis
    by (auto simp: escape_char_def Let_def newline_def escape_table_def split: option.splits if_splits)
qed

lemma quote_line: "ascii s \<Longrightarrow> newline \<notin> set (go_quote high s)"
proof -
  assume "ascii s"
  then have "newline \<notin> set (quote_body high s)"
    by (induction s) (auto simp: ascii_def escape_char_line)
  then show ?thesis by (simp add: go_quote_def newline_def)
qed

text \<open>Printable text without quotes and backslashes is printed as it is.\<close>

definition plain_text :: "gostring \<Rightarrow> bool" where
  "plain_text s \<longleftrightarrow> list_all (\<lambda>c. (let n = of_char c :: nat in 32 \<le> n \<and> n < 127) \<and> c \<noteq> CHR 0x22 \<and> c \<noteq> CHR 0x5C) s"

lemma quote_plain: "plain_text s \<Longrightarrow> go_quote high s = [CHR 0x22] @ s @ [CHR 0x22]"
proof -
  assume "plain_text s"
  then have "quote_body high s = s"
    by (induction s) (auto simp: plain_text_def escape_char_def Let_def)
  then show ?thesis by (simp add: go_quote_def)
qed

lemma plain_ascii: "plain_text s \<Longrightarrow> ascii s"
proof (induction s)
  case (Cons c s)
  then have "(of_char c :: nat) < 127" by (simp add: plain_text_def Let_def)
  then have "(of_char c :: nat) < 128" by (rule order.strict_trans) simp
  with Cons show ?case by (simp add: plain_text_def ascii_def)
qed (simp add: ascii_def)

section \<open>Durations\<close>

text \<open>\<^verbatim>\<open>fmtFrac\<close>: the decimals of a number without trailing zeros, and what is left of the number.\<close>

fun fmt_frac :: "nat \<Rightarrow> int \<Rightarrow> bool \<Rightarrow> gostring \<Rightarrow> gostring \<times> int" where
  "fmt_frac 0 v print acc = (if print then CHR ''.'' # acc else acc, v)"
| "fmt_frac (Suc prec) v print acc =
     (let digit = v mod 10; print = (print \<or> digit \<noteq> 0)
      in fmt_frac prec (v div 10) print (if print then digit_char digit # acc else acc))"

text \<open>\<^verbatim>\<open>time.Duration.String\<close> on nanoseconds.\<close>

definition duration_abs_string :: "int \<Rightarrow> gostring" where
  "duration_abs_string u =
     (if u = 0 then ''0s''
      else if u < 1000000000 then
        (let (prec, unit) = (if u < 1000 then (0, ''ns'') else if u < 1000000 then (3, [CHR 0xC2, CHR 0xB5, CHR ''s'']) else (6, ''ms''));
             (frac, v) = fmt_frac prec u False []
         in itoa v @ frac @ unit)
      else
        (let (frac, v) = fmt_frac 9 u False []; secs = itoa (v mod 60) @ frac @ ''s''; mins = v div 60; hours = mins div 60
         in if mins = 0 then secs
            else if hours = 0 then itoa (mins mod 60) @ ''m'' @ secs
            else itoa hours @ ''h'' @ itoa (mins mod 60) @ ''m'' @ secs))"

definition duration_string :: "int \<Rightarrow> gostring" where
  "duration_string d = (if d < 0 then ''-'' @ duration_abs_string (- d) else duration_abs_string d)"

lemma duration_examples:
  "duration_string 1500000000 = ''1.5s''" "duration_string 5400000000000 = ''1h30m0s''" "duration_string 2500000 = ''2.5ms''"
  "duration_string (- 90000000000) = ''-1m30s''" "duration_string 7 = ''7ns''"
  by code_simp+

end
