(* ===== verification/Exposition.thy ===== *)
theory Exposition
  imports Metrics GoQuote
begin

text \<open>
  \<^verbatim>\<open>Metrics.Write\<close>: the counters as Prometheus text. The order in which Go visits the maps of an upstream
  is an argument, as are the printed uptime (a rounded float) and the quoting of bytes outside ASCII. A
  scraper for this text format is defined independently; what it reads are the counters.
\<close>

section \<open>Write\<close>

type_synonym map_order = "gostring list \<times> gostring list"

definition fmt_counter :: "u64 \<Rightarrow> gostring" where
  "fmt_counter c = itoa (uint c)"

text \<open>A series with one label whose value stands in the format string.\<close>

definition literal_series :: "gostring \<Rightarrow> gostring \<Rightarrow> gostring \<Rightarrow> gostring" where
  "literal_series name key val = name @ ''{'' @ key @ ''='' @ [CHR 0x22] @ val @ [CHR 0x22] @ ''}''"

definition policy_names :: "gostring list" where
  "policy_names = [PolicyOverride, PolicyPreferChina, PolicyAllNonChina, PolicyFallbackChina]"

text \<open>The lines of a counter map of one upstream; \<^verbatim>\<open>range\<close> only visits keys of the map.\<close>

fun upstream_lines :: "(gostring \<Rightarrow> gostring) \<Rightarrow> gostring \<Rightarrow> gostring \<Rightarrow> gostring \<Rightarrow> (gostring \<rightharpoonup> u64) \<Rightarrow> gostring list \<Rightarrow> gostring list" where
  "upstream_lines high name key addr cs [] = []"
| "upstream_lines high name key addr cs (k # ks) =
     (case cs k of
        Some c \<Rightarrow> [name @ ''{upstream='' @ go_quote high addr @ '','' @ key @ ''='' @ go_quote high k @ ''} '' @ fmt_counter c]
      | None \<Rightarrow> []) @ upstream_lines high name key addr cs ks"

text \<open>The loop over the policies; a missing counter is a nil dereference.\<close>

fun policy_lines :: "(gostring \<Rightarrow> gostring) \<Rightarrow> (gostring \<rightharpoonup> u64) \<Rightarrow> gostring list \<Rightarrow> gostring list option" where
  "policy_lines high cs [] = Some []"
| "policy_lines high cs (p # ps) =
     (case cs p of
        None \<Rightarrow> None
      | Some c \<Rightarrow> map_option (\<lambda>ls. (''chn_resolver_policy_total{policy='' @ go_quote high p @ ''} '' @ fmt_counter c) # ls)
          (policy_lines high cs ps))"

definition Write_lines :: "(gostring \<Rightarrow> gostring) \<Rightarrow> map_order list \<Rightarrow> int \<Rightarrow> Metrics \<Rightarrow> gostring list option" where
  "Write_lines high ord uptime m =
     (case policy_lines high (Policies m) policy_names of
        None \<Rightarrow> None
      | Some pls \<Rightarrow> Some (
          [''# TYPE chn_resolver_queries_total counter'',
           literal_series ''chn_resolver_queries_total'' ''transport'' ''udp'' @ '' '' @ fmt_counter (QueriesUDP m),
           literal_series ''chn_resolver_queries_total'' ''transport'' ''tcp'' @ '' '' @ fmt_counter (QueriesTCP m),
           ''# TYPE chn_resolver_outcomes_total counter'',
           literal_series ''chn_resolver_outcomes_total'' ''outcome'' ''resolved'' @ '' '' @ fmt_counter (Resolved m),
           literal_series ''chn_resolver_outcomes_total'' ''outcome'' ''forwarded'' @ '' '' @ fmt_counter (Forwarded m),
           literal_series ''chn_resolver_outcomes_total'' ''outcome'' ''formerr'' @ '' '' @ fmt_counter (FormErr m),
           literal_series ''chn_resolver_outcomes_total'' ''outcome'' ''dropped_overload'' @ '' '' @ fmt_counter (DroppedOverload m),
           literal_series ''chn_resolver_outcomes_total'' ''outcome'' ''parse_error'' @ '' '' @ fmt_counter (ParseError m),
           ''# TYPE chn_resolver_answers_total counter'',
           literal_series ''chn_resolver_answers_total'' ''rcode'' ''noerror'' @ '' '' @ fmt_counter (AnswersNOERROR m),
           literal_series ''chn_resolver_answers_total'' ''rcode'' ''nxdomain'' @ '' '' @ fmt_counter (AnswersNXDomain m),
           literal_series ''chn_resolver_answers_total'' ''rcode'' ''nodata'' @ '' '' @ fmt_counter (AnswersNODATA m),
           literal_series ''chn_resolver_answers_total'' ''rcode'' ''servfail'' @ '' '' @ fmt_counter (AnswersSERVFAIL m),
           ''# TYPE chn_resolver_policy_total counter''] @ pls
        @ [''# TYPE chn_resolver_upstream_results_total counter'']
        @ concat (map (\<lambda>(u, results, failures).
            upstream_lines high ''chn_resolver_upstream_results_total'' ''state'' (um_addr u) (um_results u) results
            @ upstream_lines high ''chn_resolver_upstream_failures_total'' ''category'' (um_addr u) (um_failures u) failures)
            (zip (met_upstreams m) ord))
        @ [''# TYPE chn_resolver_inflight gauge'',
           ''chn_resolver_inflight '' @ itoa (sint (Inflight m)),
           ''# TYPE chn_resolver_uptime_seconds gauge'',
           ''chn_resolver_uptime_seconds '' @ itoa uptime]))"

definition Metrics_Write :: "(gostring \<Rightarrow> gostring) \<Rightarrow> map_order list \<Rightarrow> int \<Rightarrow> Metrics \<Rightarrow> gostring option" where
  "Metrics_Write high ord uptime m = map_option (\<lambda>ls. concat (map (\<lambda>l. l @ [newline]) ls)) (Write_lines high ord uptime m)"

section \<open>A scraper\<close>

type_synonym sample = "gostring \<times> (gostring \<times> gostring) list \<times> int"

definition parse_value :: "gostring \<Rightarrow> int option" where
  "parse_value s = (case s of
       [] \<Rightarrow> None
     | c # r \<Rightarrow> (if c = CHR ''-'' then map_option (\<lambda>n. - int n) (atoi r) else map_option int (atoi s)))"

lemma unquote_body_shorter: "unquote_body s = Some (t, r) \<Longrightarrow> length r < length s"
proof (induction s arbitrary: t r rule: unquote_body.induct)
  case (1 s)
  show ?case
  proof (cases "s \<noteq> [] \<and> hd s = CHR 0x22")
    case True
    then show ?thesis using "1.prems" by (auto simp: unquote_body.simps [of s] neq_Nil_conv)
  next
    case False
    then obtain c q t' where "unescape s = Some (c, q)" "unquote_body q = Some (t', r)"
      using "1.prems" by (subst (asm) unquote_body.simps) (auto split: option.splits)
    then show ?thesis using "1.IH" [OF False, of "(c, q)" c q t' r] unescape_shorter by fastforce
  qed
qed

lemma go_unquote_shorter: "go_unquote s = Some (t, r) \<Longrightarrow> length r < length s"
  by (auto simp: go_unquote_def split: if_splits dest: unquote_body_shorter)

text \<open>Labels up to the closing brace.\<close>

function parse_labels :: "gostring \<Rightarrow> ((gostring \<times> gostring) list \<times> gostring) option" where
  "parse_labels s =
     (let key = takeWhile (\<lambda>c. c \<noteq> CHR ''='') s
      in case go_unquote (drop (Suc (length key)) s) of
           Some (v, c # r) \<Rightarrow>
             (if c = CHR '','' then map_option (\<lambda>(ls, r'). ((key, v) # ls, r')) (parse_labels r)
              else if c = CHR ''}'' then Some ([(key, v)], r) else None)
         | _ \<Rightarrow> None)"
  by pat_completeness auto
termination
  by (relation "measure length") (auto dest!: go_unquote_shorter)

declare parse_labels.simps [simp del]

definition parse_sample :: "gostring \<Rightarrow> sample option" where
  "parse_sample line =
     (let name = takeWhile (\<lambda>c. c \<noteq> CHR ''{'' \<and> c \<noteq> CHR '' '') line; rest = drop (length name) line
      in case rest of
           [] \<Rightarrow> None
         | c # r \<Rightarrow>
             (if c = CHR '' '' then map_option (\<lambda>v. (name, [], v)) (parse_value r)
              else case parse_labels r of
                Some (ls, d # r') \<Rightarrow> (if d = CHR '' '' then map_option (\<lambda>v. (name, ls, v)) (parse_value r') else None)
              | _ \<Rightarrow> None))"

fun parse_lines :: "gostring list \<Rightarrow> sample list option" where
  "parse_lines [] = Some []"
| "parse_lines (l # ls) =
     (if l = [] \<or> hd l = CHR ''#'' then parse_lines ls
      else case (parse_sample l, parse_lines ls) of (Some x, Some xs) \<Rightarrow> Some (x # xs) | _ \<Rightarrow> None)"

fun text_lines :: "gostring \<Rightarrow> gostring \<Rightarrow> gostring list" where
  "text_lines acc [] = [acc]"
| "text_lines acc (c # cs) = (if c = newline then acc # text_lines [] cs else text_lines (acc @ [c]) cs)"

definition scrape :: "gostring \<Rightarrow> sample list option" where
  "scrape t = parse_lines (text_lines [] t)"

section \<open>Samples are read back\<close>

lemma parse_value_itoa: "parse_value (itoa v) = Some v"
proof (cases "v < 0")
  case True
  then have "itoa v = CHR ''-'' # itoa (- v)" by (simp add: itoa_def)
  then show ?thesis using True atoi_itoa [of "- v"] by (simp add: parse_value_def)
next
  case False
  then have "list_all is_digit (itoa v)" "itoa v \<noteq> []" using dec_digits [of v] by (simp_all add: itoa_def)
  moreover have "is_digit c \<Longrightarrow> c \<noteq> CHR ''-''" for c by (auto simp: is_digit_def)
  ultimately obtain c r where "itoa v = c # r" "c \<noteq> CHR ''-''" by (cases "itoa v") auto
  then show ?thesis using False atoi_itoa [of v] by (simp add: parse_value_def)
qed

definition label_text :: "(gostring \<Rightarrow> gostring) \<Rightarrow> gostring \<times> gostring \<Rightarrow> gostring" where
  "label_text high = (\<lambda>(k, v). k @ ''='' @ go_quote high v)"

definition good_label :: "gostring \<times> gostring \<Rightarrow> bool" where
  "good_label = (\<lambda>(k, v). CHR ''='' \<notin> set k \<and> newline \<notin> set k \<and> ascii v)"

lemma parse_label_text:
  assumes "good_label l"
  shows "parse_labels (label_text high l @ c # r) =
    (if c = CHR '','' then map_option (\<lambda>(ls, r'). (l # ls, r')) (parse_labels r)
     else if c = CHR ''}'' then Some ([l], r) else None)"
proof -
  obtain k v where l: "l = (k, v)" "CHR ''='' \<notin> set k" "ascii v" using assms by (cases l) (auto simp: good_label_def)
  define s where "s = label_text high l @ c # r"
  have "takeWhile (\<lambda>c. c \<noteq> CHR ''='') s = k" using takeWhile_break [OF l(2)] by (simp add: s_def l(1) label_text_def)
  moreover have "drop (Suc (length k)) s = go_quote high v @ c # r" by (simp add: s_def l(1) label_text_def)
  ultimately show ?thesis
    using unquote_quote [OF l(3), of high "c # r"] by (simp add: parse_labels.simps [of s] flip: s_def) (simp add: l(1) Let_def)
qed

lemma parse_labels_text:
  "ls \<noteq> [] \<Longrightarrow> list_all good_label ls \<Longrightarrow> parse_labels (join_sep '','' (map (label_text high) ls) @ CHR ''}'' # r) = Some (ls, r)"
proof (induction ls rule: induct_list012)
  case (3 l1 l2 ls)
  then show ?case using parse_label_text [of l1 high "CHR '',''"] by simp
qed (simp_all add: parse_label_text)

definition good_name :: "gostring \<Rightarrow> bool" where
  "good_name n \<longleftrightarrow> n \<noteq> [] \<and> hd n \<noteq> CHR ''#'' \<and> CHR ''{'' \<notin> set n \<and> CHR '' '' \<notin> set n \<and> newline \<notin> set n"

definition sample_text :: "(gostring \<Rightarrow> gostring) \<Rightarrow> sample \<Rightarrow> gostring" where
  "sample_text high = (\<lambda>(name, ls, v).
     name @ (if ls = [] then [] else ''{'' @ join_sep '','' (map (label_text high) ls) @ ''}'') @ '' '' @ itoa v)"

definition good_sample :: "sample \<Rightarrow> bool" where
  "good_sample = (\<lambda>(name, ls, v). good_name name \<and> list_all good_label ls)"

lemma takeWhile_name: "good_name n \<Longrightarrow> c = CHR ''{'' \<or> c = CHR '' '' \<Longrightarrow> takeWhile (\<lambda>c. c \<noteq> CHR ''{'' \<and> c \<noteq> CHR '' '') (n @ c # r) = n"
  by (subst takeWhile_append2) (auto simp: good_name_def)

lemma parse_sample_text:
  assumes "good_sample x"
  shows "parse_sample (sample_text high x) = Some x"
proof -
  obtain name ls v where x: "x = (name, ls, v)" by (metis prod_cases3)
  then have good: "good_name name" "list_all good_label ls" using assms by (simp_all add: good_sample_def)
  show ?thesis
  proof (cases "ls = []")
    case True
    then show ?thesis using takeWhile_name [OF good(1), of "CHR '' ''"] by (simp add: x sample_text_def parse_sample_def parse_value_itoa)
  next
    case False
    then show ?thesis
      using takeWhile_name [OF good(1), of "CHR ''{''"] parse_labels_text [OF False good(2), of high]
      by (simp add: x sample_text_def parse_sample_def parse_value_itoa)
  qed
qed

lemma line_join: "\<forall>x\<in>set xs. newline \<notin> set x \<Longrightarrow> newline \<notin> set sep \<Longrightarrow> newline \<notin> set (join_sep sep xs)"
  using set_join_sep [of sep xs] by blast

lemma itoa_line: "newline \<notin> set (itoa v)"
proof -
  have "newline \<notin> set (fmt_bits 10 n [])" if "0 \<le> n" for n
    using dec_digits [OF that] by (auto simp: list_all_iff is_digit_def newline_def)
  then show ?thesis by (simp add: itoa_def newline_def [symmetric]) (simp add: newline_def)
qed

lemma sample_text_line:
  assumes "good_sample x"
  shows "newline \<notin> set (sample_text high x)" "sample_text high x \<noteq> []" "hd (sample_text high x) \<noteq> CHR ''#''"
proof -
  obtain name ls v where x: "x = (name, ls, v)" by (metis prod_cases3)
  then have good: "good_name name" "list_all good_label ls" using assms by (simp_all add: good_sample_def)
  have "newline \<notin> set (label_text high l)" if "l \<in> set ls" for l
    using that good(2) quote_line by (auto simp: list_all_iff label_text_def good_label_def newline_def)
  then have "newline \<notin> set (join_sep '','' (map (label_text high) ls))" by (intro line_join) (auto simp: newline_def)
  then show "newline \<notin> set (sample_text high x)"
    using good(1) itoa_line [of v] by (simp add: x sample_text_def good_name_def) (simp add: newline_def)
  show "sample_text high x \<noteq> []" "hd (sample_text high x) \<noteq> CHR ''#''"
    using good(1) by (simp_all add: x sample_text_def good_name_def)
qed

text \<open>Lines of comments and samples as a list of either.\<close>

fun item_text :: "(gostring \<Rightarrow> gostring) \<Rightarrow> gostring + sample \<Rightarrow> gostring" where
  "item_text high (Inl c) = ''# '' @ c"
| "item_text high (Inr x) = sample_text high x"

fun good_item :: "gostring + sample \<Rightarrow> bool" where
  "good_item (Inl c) \<longleftrightarrow> newline \<notin> set c"
| "good_item (Inr x) \<longleftrightarrow> good_sample x"

fun item_samples :: "(gostring + sample) list \<Rightarrow> sample list" where
  "item_samples [] = []"
| "item_samples (Inl c # is) = item_samples is"
| "item_samples (Inr x # is) = x # item_samples is"

lemma text_lines_line: "newline \<notin> set l \<Longrightarrow> text_lines acc (l @ newline # t) = (acc @ l) # text_lines [] t"
  by (induction l arbitrary: acc) auto

lemma scrape_items:
  assumes "list_all good_item is"
  shows "scrape (concat (map (\<lambda>i. item_text high i @ [newline]) is)) = Some (item_samples is)"
  using assms
proof (induction "is")
  case Nil
  then show ?case by (simp add: scrape_def)
next
  case (Cons i "is")
  have "newline \<notin> set (item_text high i)"
    using Cons.prems sample_text_line by (cases i) (auto simp: newline_def)
  then have "scrape (concat (map (\<lambda>i. item_text high i @ [newline]) (i # is))) =
      parse_lines (item_text high i # text_lines [] (concat (map (\<lambda>i. item_text high i @ [newline]) is)))"
    by (simp add: scrape_def text_lines_line)
  then show ?case
    using Cons sample_text_line parse_sample_text by (cases i) (simp_all add: scrape_def)
qed

section \<open>What is exported\<close>

text \<open>The order in which \<^verbatim>\<open>range\<close> visits a map: every key once.\<close>

definition visits :: "(gostring \<rightharpoonup> u64) \<Rightarrow> gostring list \<Rightarrow> bool" where
  "visits m ks \<longleftrightarrow> distinct ks \<and> set ks = dom m"

definition valid_order :: "Metrics \<Rightarrow> map_order list \<Rightarrow> bool" where
  "valid_order m ord \<longleftrightarrow> list_all2 (\<lambda>u (rs, fs). visits (um_results u) rs \<and> visits (um_failures u) fs) (met_upstreams m) ord"

definition labelled :: "gostring \<Rightarrow> gostring \<Rightarrow> (gostring \<times> u64) list \<Rightarrow> (gostring + sample) list" where
  "labelled name key xs = Inl (''TYPE '' @ name @ '' counter'') # map (\<lambda>(l, c). Inr (name, [(key, l)], uint c)) xs"

definition upstream_samples :: "gostring \<Rightarrow> gostring \<Rightarrow> gostring \<Rightarrow> (gostring \<rightharpoonup> u64) \<Rightarrow> gostring list \<Rightarrow> sample list" where
  "upstream_samples name key addr cs ks = map (\<lambda>k. (name, [(''upstream'', addr), (key, k)], uint (tally cs k))) ks"

definition per_upstream :: "UpstreamMetrics \<Rightarrow> map_order \<Rightarrow> sample list" where
  "per_upstream u o' =
     upstream_samples ''chn_resolver_upstream_results_total'' ''state'' (um_addr u) (um_results u) (fst o')
     @ upstream_samples ''chn_resolver_upstream_failures_total'' ''category'' (um_addr u) (um_failures u) (snd o')"

definition exported :: "map_order list \<Rightarrow> int \<Rightarrow> Metrics \<Rightarrow> (gostring + sample) list" where
  "exported ord uptime m =
     labelled ''chn_resolver_queries_total'' ''transport'' [(''udp'', QueriesUDP m), (''tcp'', QueriesTCP m)]
     @ labelled ''chn_resolver_outcomes_total'' ''outcome'' [(''resolved'', Resolved m), (''forwarded'', Forwarded m),
         (''formerr'', FormErr m), (''dropped_overload'', DroppedOverload m), (''parse_error'', ParseError m)]
     @ labelled ''chn_resolver_answers_total'' ''rcode'' [(''noerror'', AnswersNOERROR m), (''nxdomain'', AnswersNXDomain m),
         (''nodata'', AnswersNODATA m), (''servfail'', AnswersSERVFAIL m)]
     @ labelled ''chn_resolver_policy_total'' ''policy'' (map (\<lambda>p. (p, tally (Policies m) p)) policy_names)
     @ Inl ''TYPE chn_resolver_upstream_results_total counter''
     # map Inr (concat (map2 per_upstream (met_upstreams m) ord))
     @ [Inl ''TYPE chn_resolver_inflight gauge'', Inr (''chn_resolver_inflight'', [], sint (Inflight m)),
        Inl ''TYPE chn_resolver_uptime_seconds gauge'', Inr (''chn_resolver_uptime_seconds'', [], uptime)]"

lemma literal_series_text: "plain_text val \<Longrightarrow> literal_series name key val @ '' '' @ fmt_counter c = sample_text high (name, [(key, val)], uint c)"
  by (simp add: literal_series_def sample_text_def label_text_def quote_plain fmt_counter_def)

lemma gauge_text: "sample_text high (name, [], v) = name @ '' '' @ itoa v"
  by (simp add: sample_text_def)

lemma policy_lines_items:
  assumes "set ps \<subseteq> dom cs"
  shows "policy_lines high cs ps = Some (map (\<lambda>p. sample_text high (''chn_resolver_policy_total'', [(''policy'', p)], uint (tally cs p))) ps)"
  using assms
proof (induction ps)
  case (Cons p ps)
  then obtain c where "cs p = Some c" by auto
  then show ?case using Cons by (simp add: sample_text_def label_text_def tally_def fmt_counter_def)
qed simp

lemma upstream_lines_items:
  assumes "set ks \<subseteq> dom cs"
  shows "upstream_lines high name key addr cs ks = map (sample_text high) (upstream_samples name key addr cs ks)"
  using assms
proof (induction ks)
  case (Cons k ks)
  then obtain c where "cs k = Some c" by auto
  then show ?case using Cons by (simp add: upstream_samples_def sample_text_def label_text_def tally_def fmt_counter_def)
qed (simp add: upstream_samples_def)

lemma upstreams_items:
  assumes "list_all2 (\<lambda>u (rs, fs). visits (um_results u) rs \<and> visits (um_failures u) fs) us ord"
  shows "concat (map (\<lambda>(u, results, failures).
            upstream_lines high ''chn_resolver_upstream_results_total'' ''state'' (um_addr u) (um_results u) results
            @ upstream_lines high ''chn_resolver_upstream_failures_total'' ''category'' (um_addr u) (um_failures u) failures)
            (zip us ord))
    = map (sample_text high) (concat (map2 per_upstream us ord))"
  using assms
proof (induction rule: list_all2_induct)
  case (Cons u us o' ord)
  obtain rs fs where "o' = (rs, fs)" by fastforce
  then show ?case using Cons by (simp add: per_upstream_def upstream_lines_items visits_def)
qed simp

text \<open>\<^const>\<open>Write_lines\<close> prints these items.\<close>

lemma Write_lines_items:
  assumes "set policy_names \<subseteq> dom (Policies m)" "valid_order m ord"
  shows "Write_lines high ord uptime m = Some (map (item_text high) (exported ord uptime m))"
proof -
  have lit: "literal_series name key val @ '' '' @ fmt_counter c = sample_text high (name, [(key, val)], uint c)"
    if "plain_text val" for name key val c by (rule literal_series_text [OF that])
  have plain: "list_all plain_text [''udp'', ''tcp'', ''resolved'', ''forwarded'', ''formerr'', ''dropped_overload'', ''parse_error'',
      ''noerror'', ''nxdomain'', ''nodata'', ''servfail'']" by code_simp
  have ups: "concat (map (\<lambda>(u, results, failures).
            upstream_lines high ''chn_resolver_upstream_results_total'' ''state'' (um_addr u) (um_results u) results
            @ upstream_lines high ''chn_resolver_upstream_failures_total'' ''category'' (um_addr u) (um_failures u) failures)
            (zip (met_upstreams m) ord))
    = map (item_text high) (map Inr (concat (map2 per_upstream (met_upstreams m) ord)))"
    using upstreams_items [OF assms(2) [unfolded valid_order_def], of high] by (simp add: comp_def)
  have pol: "policy_lines high (Policies m) policy_names = Some (map (item_text high) (map (\<lambda>(l, c). Inr (''chn_resolver_policy_total'', [(''policy'', l)], uint c))
      (map (\<lambda>p. (p, tally (Policies m) p)) policy_names)))"
    using policy_lines_items [OF assms(1), of high] by (simp add: comp_def)
  show ?thesis
    unfolding Write_lines_def pol option.case ups exported_def labelled_def map_append
    using plain by (simp only: list.pred_inject simp_thms lit) (simp add: gauge_text)
qed

lemma item_samples_append [simp]: "item_samples (xs @ ys) = item_samples xs @ item_samples ys"
  by (induction xs rule: item_samples.induct) auto

lemma item_samples_Inr [simp]: "item_samples (map Inr xs) = xs"
  by (induction xs) auto

lemma item_samples_labelled [simp]: "item_samples (labelled name key xs) = map (\<lambda>(l, c). (name, [(key, l)], uint c)) xs"
proof -
  have "item_samples (map (\<lambda>(l, c). Inr (name, [(key, l)], uint c)) xs) = map (\<lambda>(l, c). (name, [(key, l)], uint c)) xs"
    by (induction xs) auto
  then show ?thesis by (simp add: labelled_def)
qed

definition ascii_metrics :: "Metrics \<Rightarrow> bool" where
  "ascii_metrics m \<longleftrightarrow> (\<forall>u\<in>set (met_upstreams m). ascii (um_addr u)
     \<and> (\<forall>k\<in>dom (um_results u). ascii k) \<and> (\<forall>k\<in>dom (um_failures u). ascii k))"

lemma good_labelled:
  "good_name name \<Longrightarrow> CHR ''='' \<notin> set key \<Longrightarrow> newline \<notin> set key \<Longrightarrow> list_all (\<lambda>(l, c). ascii l) xs \<Longrightarrow> list_all good_item (labelled name key xs)"
  by (auto simp: labelled_def list_all_iff good_sample_def good_label_def good_name_def newline_def)

lemma good_policies: "list_all ascii policy_names"
  by code_simp

lemma good_upstreams:
  assumes "valid_order m ord" "ascii_metrics m" "x \<in> set (concat (map2 per_upstream (met_upstreams m) ord))"
  shows "good_sample x"
proof -
  have names: "good_name ''chn_resolver_upstream_results_total''" "good_name ''chn_resolver_upstream_failures_total''" by code_simp+
  have keys: "good_label (''upstream'', a) \<longleftrightarrow> ascii a" "good_label (''state'', a) \<longleftrightarrow> ascii a" "good_label (''category'', a) \<longleftrightarrow> ascii a" for a
    by (simp_all add: good_label_def newline_def)
  obtain u rs fs where u: "(u, rs, fs) \<in> set (zip (met_upstreams m) ord)" "x \<in> set (per_upstream u (rs, fs))"
    using assms(3) by auto
  then have "visits (um_results u) rs" "visits (um_failures u) fs" "u \<in> set (met_upstreams m)"
    using assms(1) by (auto simp: valid_order_def list_all2_iff dest: set_zip_leftD)
  then have "ascii (um_addr u)" "\<forall>k\<in>set rs. ascii k" "\<forall>k\<in>set fs. ascii k"
    using assms(2) by (simp_all add: ascii_metrics_def visits_def)
  then show ?thesis
    using u(2) names keys by (auto simp: per_upstream_def upstream_samples_def good_sample_def)
qed

lemma exported_good:
  assumes "valid_order m ord" "ascii_metrics m"
  shows "list_all good_item (exported ord uptime m)"
proof -
  have names: "good_name ''chn_resolver_queries_total''" "good_name ''chn_resolver_outcomes_total''" "good_name ''chn_resolver_answers_total''"
    "good_name ''chn_resolver_policy_total''" "good_name ''chn_resolver_inflight''" "good_name ''chn_resolver_uptime_seconds''"
    by code_simp+
  have labels: "list_all ascii [''udp'', ''tcp'', ''resolved'', ''forwarded'', ''formerr'', ''dropped_overload'', ''parse_error'',
      ''noerror'', ''nxdomain'', ''nodata'', ''servfail'']" by code_simp
  have ups: "list_all good_item (map Inr (concat (map2 per_upstream (met_upstreams m) ord)))"
    using good_upstreams [OF assms] by (auto simp: list_all_iff)
  have pol: "list_all (\<lambda>(l, c). ascii l) (map (\<lambda>p. (p, tally (Policies m) p)) policy_names)"
    using good_policies by (simp add: list_all_iff)
  show ?thesis
    unfolding exported_def list_all_append list.pred_inject(2)
    using names labels ups pol by (intro conjI good_labelled) (simp_all add: newline_def good_sample_def)
qed

text \<open>The samples of one run of \<^const>\<open>Metrics_Write\<close>.\<close>

definition samples :: "map_order list \<Rightarrow> int \<Rightarrow> Metrics \<Rightarrow> sample list" where
  "samples ord uptime m = item_samples (exported ord uptime m)"

lemma scrape_Write:
  assumes "set policy_names \<subseteq> dom (Policies m)" "valid_order m ord" "ascii_metrics m"
  shows "\<exists>t. Metrics_Write high ord uptime m = Some t \<and> scrape t = Some (samples ord uptime m)"
  using scrape_items [OF exported_good [OF assms(2,3)], of high uptime] Write_lines_items [OF assms(1,2), of high uptime]
  by (simp add: Metrics_Write_def samples_def comp_def)

section \<open>One sample per counter\<close>

definition series_of :: "sample \<Rightarrow> gostring \<times> (gostring \<times> gostring) list" where
  "series_of = (\<lambda>(name, ls, v). (name, ls))"

lemma upstream_series_distinct:
  assumes "valid_order m ord" "distinct (map um_addr (met_upstreams m))"
  shows "distinct (map series_of (concat (map2 per_upstream (met_upstreams m) ord)))"
  using assms unfolding valid_order_def
proof (induction rule: list_all2_induct)
  case (Cons u us o' ord)
  obtain rs fs where o': "o' = (rs, fs)" by fastforce
  have "distinct (map series_of (per_upstream u o'))"
    using Cons by (auto simp: o' per_upstream_def upstream_samples_def series_of_def visits_def distinct_map inj_on_def)
  moreover have "series_of y \<noteq> series_of x" if x: "x \<in> set (concat (map2 per_upstream us ord))" and y: "y \<in> set (per_upstream u o')" for x y
  proof -
    obtain w p where w: "(w, p) \<in> set (zip us ord)" "x \<in> set (per_upstream w p)" using x by auto
    then have "w \<in> set us" by (simp add: set_zip_leftD)
    then have "um_addr w \<noteq> um_addr u" using Cons.prems by (auto simp: image_iff)
    then show ?thesis using w(2) y by (auto simp: per_upstream_def upstream_samples_def series_of_def)
  qed
  ultimately show ?case using Cons by (fastforce simp: distinct_append)
qed simp

lemma concat_map2: "length xs = length ys \<Longrightarrow> x \<in> set (concat (map2 f xs ys)) \<longleftrightarrow> (\<exists>j<length xs. x \<in> set (f (xs ! j) (ys ! j)))"
  by (induction xs ys rule: list_induct2) (simp_all add: Ex_less_Suc2)

lemma upstream_series_member:
  assumes "valid_order m ord" "distinct (map um_addr (met_upstreams m))" "i < length (met_upstreams m)"
  defines "u \<equiv> met_upstreams m ! i"
  shows "(name, [(''upstream'', um_addr u), (key, k)], v) \<in> set (concat (map2 per_upstream (met_upstreams m) ord))
    \<longleftrightarrow> name = ''chn_resolver_upstream_results_total'' \<and> key = ''state'' \<and> map_option uint (um_results u k) = Some v
      \<or> name = ''chn_resolver_upstream_failures_total'' \<and> key = ''category'' \<and> map_option uint (um_failures u k) = Some v"
    (is "?x \<in> _ \<longleftrightarrow> ?good")
proof -
  have len: "length ord = length (met_upstreams m)" using assms(1) by (simp add: valid_order_def list_all2_iff)
  obtain rs fs where o: "ord ! i = (rs, fs)" by fastforce
  have vis: "set rs = dom (um_results u)" "set fs = dom (um_failures u)"
    using list_all2_nthD [OF assms(1) [unfolded valid_order_def] assms(3)] o by (simp_all add: u_def visits_def)
  have own: "j = i" if "j < length (met_upstreams m)" "um_addr (met_upstreams m ! j) = um_addr u" for j
    using that assms(2,3) by (simp add: u_def distinct_conv_nth) (metis nth_map)
  have "?x \<in> set (concat (map2 per_upstream (met_upstreams m) ord))
      \<longleftrightarrow> (\<exists>j<length (met_upstreams m). ?x \<in> set (per_upstream (met_upstreams m ! j) (ord ! j)))"
    using concat_map2 len by metis
  also have "\<dots> \<longleftrightarrow> ?x \<in> set (per_upstream u (rs, fs))"
    using own assms(3) o by (fastforce simp: per_upstream_def upstream_samples_def u_def)
  also have "\<dots> \<longleftrightarrow> ?good"
    using vis by (auto simp: per_upstream_def upstream_samples_def tally_def)
  finally show ?thesis .
qed

text \<open>The samples before and after those of the upstreams; none of them has an upstream label.\<close>

definition fixed_samples :: "Metrics \<Rightarrow> sample list" where
  "fixed_samples m =
     map (\<lambda>(l, c). (''chn_resolver_queries_total'', [(''transport'', l)], uint c)) [(''udp'', QueriesUDP m), (''tcp'', QueriesTCP m)]
     @ map (\<lambda>(l, c). (''chn_resolver_outcomes_total'', [(''outcome'', l)], uint c)) [(''resolved'', Resolved m), (''forwarded'', Forwarded m),
         (''formerr'', FormErr m), (''dropped_overload'', DroppedOverload m), (''parse_error'', ParseError m)]
     @ map (\<lambda>(l, c). (''chn_resolver_answers_total'', [(''rcode'', l)], uint c)) [(''noerror'', AnswersNOERROR m), (''nxdomain'', AnswersNXDomain m),
         (''nodata'', AnswersNODATA m), (''servfail'', AnswersSERVFAIL m)]
     @ map (\<lambda>p. (''chn_resolver_policy_total'', [(''policy'', p)], uint (tally (Policies m) p))) policy_names"

lemma samples_eq:
  "samples ord uptime m = fixed_samples m @ concat (map2 per_upstream (met_upstreams m) ord)
     @ [(''chn_resolver_inflight'', [], sint (Inflight m)), (''chn_resolver_uptime_seconds'', [], uptime)]"
  by (simp add: samples_def exported_def fixed_samples_def comp_def)

lemma fixed_series: "map series_of (fixed_samples m) = map series_of (fixed_samples (Metrics_New []))"
  by (simp add: fixed_samples_def series_of_def comp_def)

lemma fixed_series_distinct: "distinct (map series_of (fixed_samples m))"
proof -
  have "distinct (map series_of (fixed_samples (Metrics_New [])))" by code_simp
  then show ?thesis by (simp only: fixed_series [of m])
qed

lemma fixed_series_one: "x \<in> set (fixed_samples m) \<Longrightarrow> length (snd (series_of x)) = 1"
  by (auto simp: fixed_samples_def series_of_def)

lemma upstream_series_two: "x \<in> set (concat (map2 per_upstream us ord)) \<Longrightarrow> length (snd (series_of x)) = 2"
  by (auto simp: per_upstream_def upstream_samples_def series_of_def)

lemma samples_distinct:
  assumes "valid_order m ord" "distinct (map um_addr (met_upstreams m))"
  shows "distinct (map series_of (samples ord uptime m))"
proof -
  define A where "A = map series_of (fixed_samples m)"
  define B where "B = map series_of (concat (map2 per_upstream (met_upstreams m) ord))"
  have "\<forall>s\<in>set A. length (snd s) = 1" using fixed_series_one unfolding A_def by (auto simp only: set_map)
  moreover have "\<forall>s\<in>set B. length (snd s) = 2" using upstream_series_two unfolding B_def by (auto simp only: set_map)
  ultimately have dist: "distinct (A @ B @ [(n, []), (n', [])])" if "n \<noteq> n'" for n n'
    using fixed_series_distinct [of m] upstream_series_distinct [OF assms] that by (fastforce simp flip: A_def B_def)
  have "map series_of (samples ord uptime m) = A @ B @ [(''chn_resolver_inflight'', []), (''chn_resolver_uptime_seconds'', [])]"
    unfolding samples_eq map_append A_def B_def by (simp add: series_of_def)
  then show ?thesis using dist [of "''chn_resolver_inflight''" "''chn_resolver_uptime_seconds''"] by simp
qed

lemma samples_upstream:
  assumes "valid_order m ord" "distinct (map um_addr (met_upstreams m))" "i < length (met_upstreams m)"
  defines "u \<equiv> met_upstreams m ! i"
  shows "(''chn_resolver_upstream_results_total'', [(''upstream'', um_addr u), (''state'', k)], v) \<in> set (samples ord uptime m)
      \<longleftrightarrow> map_option uint (um_results u k) = Some v"
    and "(''chn_resolver_upstream_failures_total'', [(''upstream'', um_addr u), (''category'', k)], v) \<in> set (samples ord uptime m)
      \<longleftrightarrow> map_option uint (um_failures u k) = Some v"
proof -
  have "(n, [l1, l2], v) \<in> set (samples ord uptime m) \<longleftrightarrow> (n, [l1, l2], v) \<in> set (concat (map2 per_upstream (met_upstreams m) ord))" for n l1 l2
    using fixed_series_one [of "(n, [l1, l2], v)" m] unfolding samples_eq set_append by (auto simp: series_of_def)
  then show "(''chn_resolver_upstream_results_total'', [(''upstream'', um_addr u), (''state'', k)], v) \<in> set (samples ord uptime m)
      \<longleftrightarrow> map_option uint (um_results u k) = Some v"
    "(''chn_resolver_upstream_failures_total'', [(''upstream'', um_addr u), (''category'', k)], v) \<in> set (samples ord uptime m)
      \<longleftrightarrow> map_option uint (um_failures u k) = Some v"
    using upstream_series_member [OF assms(1-3)] by (simp_all add: u_def)
qed

section \<open>Properties\<close>

definition sample_metrics :: Metrics where
  "sample_metrics = RecordUpstreamFailure (RecordUpstreamResult (RecordUpstreamResult (Metrics_New [''1.1.1.1:53'', ''[::1]:53'']) 0 ''answer'')
     1 ''failure'') 1 ''timeout''"

definition sample_order :: "map_order list" where
  "sample_order = [([''answer''], []), ([''failure''], [''timeout''])]"

lemma sample_metrics_ok:
  "set policy_names \<subseteq> dom (Policies sample_metrics)" "valid_order sample_metrics sample_order" "ascii_metrics sample_metrics"
  "distinct (map um_addr (met_upstreams sample_metrics))"
proof -
  have ups: "met_upstreams sample_metrics = [\<lparr>um_addr = ''1.1.1.1:53'', um_results = [''answer'' \<mapsto> 1], um_failures = Map.empty\<rparr>,
      \<lparr>um_addr = ''[::1]:53'', um_results = [''failure'' \<mapsto> 1], um_failures = [''timeout'' \<mapsto> 1]\<rparr>]"
    by (simp add: sample_metrics_def Metrics_New_def RecordUpstreamResult_def RecordUpstreamFailure_def bump_def)
  have "list_all ascii [''1.1.1.1:53'', ''[::1]:53'', ''answer'', ''failure'', ''timeout'']" by code_simp
  then show "ascii_metrics sample_metrics" by (simp add: ascii_metrics_def ups)
  show "valid_order sample_metrics sample_order" by (simp add: valid_order_def ups sample_order_def visits_def)
  show "distinct (map um_addr (met_upstreams sample_metrics))" by (simp add: ups)
  show "set policy_names \<subseteq> dom (Policies sample_metrics)"
    by (auto simp: sample_metrics_def Metrics_New_def policy_names_def RecordUpstreamResult_def RecordUpstreamFailure_def Let_def)
qed

text \<open>
  C35. What a scraper reads from the text of \<^verbatim>\<open>Metrics.Write\<close> are the counters: in whatever order Go visits
  the maps, the text parses, no series occurs twice, the fixed counters and the counters of every policy are
  there with their values, and an upstream has a sample for a state (or failure category) exactly when the
  counter exists, with its value. The names must be ASCII, the upstream addresses distinct and the four policy
  counters, which \<^verbatim>\<open>New\<close> registers, present.
\<close>

theorem Write_exports_counters:
  assumes "set policy_names \<subseteq> dom (Policies m)" "valid_order m ord" "ascii_metrics m" "distinct (map um_addr (met_upstreams m))"
  shows "\<exists>t ss. Metrics_Write high ord uptime m = Some t \<and> scrape t = Some ss \<and> distinct (map series_of ss)
    \<and> set (fixed_samples m) \<subseteq> set ss
    \<and> (''chn_resolver_inflight'', [], sint (Inflight m)) \<in> set ss \<and> (''chn_resolver_uptime_seconds'', [], uptime) \<in> set ss
    \<and> (\<forall>i<length (met_upstreams m). \<forall>k v. let u = met_upstreams m ! i in
        ((''chn_resolver_upstream_results_total'', [(''upstream'', um_addr u), (''state'', k)], v) \<in> set ss
          \<longleftrightarrow> map_option uint (um_results u k) = Some v)
      \<and> ((''chn_resolver_upstream_failures_total'', [(''upstream'', um_addr u), (''category'', k)], v) \<in> set ss
          \<longleftrightarrow> map_option uint (um_failures u k) = Some v))"
proof -
  define ss where "ss = samples ord uptime m"
  obtain t where tx: "Metrics_Write high ord uptime m = Some t" "scrape t = Some ss"
    using scrape_Write [OF assms(1-3)] unfolding ss_def by blast
  have "set (fixed_samples m) \<subseteq> set ss" "(''chn_resolver_inflight'', [], sint (Inflight m)) \<in> set ss"
    "(''chn_resolver_uptime_seconds'', [], uptime) \<in> set ss" by (simp_all add: ss_def samples_eq subset_iff)
  moreover have "distinct (map series_of ss)" unfolding ss_def by (rule samples_distinct [OF assms(2,4)])
  moreover have "\<forall>i<length (met_upstreams m). \<forall>k v. let u = met_upstreams m ! i in
        ((''chn_resolver_upstream_results_total'', [(''upstream'', um_addr u), (''state'', k)], v) \<in> set ss
          \<longleftrightarrow> map_option uint (um_results u k) = Some v)
      \<and> ((''chn_resolver_upstream_failures_total'', [(''upstream'', um_addr u), (''category'', k)], v) \<in> set ss
          \<longleftrightarrow> map_option uint (um_failures u k) = Some v)"
    using samples_upstream [OF assms(2,4)] by (simp add: ss_def Let_def)
  ultimately show ?thesis using tx by - (rule exI [of _ t], rule exI [of _ ss], intro conjI; assumption)
qed

theorem Write_exports_counters_witness:
  "\<exists>t ss. Metrics_Write (\<lambda>s. s) sample_order 7 sample_metrics = Some t \<and> scrape t = Some ss
    \<and> (''chn_resolver_upstream_failures_total'', [(''upstream'', ''[::1]:53''), (''category'', ''timeout'')], 1) \<in> set ss"
proof -
  have u: "um_addr (met_upstreams sample_metrics ! 1) = ''[::1]:53''" "um_failures (met_upstreams sample_metrics ! 1) ''timeout'' = Some 1"
    "1 < length (met_upstreams sample_metrics)"
    by (simp_all add: sample_metrics_def Metrics_New_def RecordUpstreamResult_def RecordUpstreamFailure_def bump_def)
  show ?thesis
    using Write_exports_counters [OF sample_metrics_ok, of "\<lambda>s. s" 7] u by (fastforce simp: Let_def)
qed

section \<open>Observations\<close>

text \<open>
  With two upstreams the samples of the results counter are not contiguous: the failures of the first
  upstream stand between them. No TYPE line announces the failures counter.
\<close>

theorem results_interleaved:
  "map fst (item_samples (exported [([''answer''], [''timeout'']), ([''answer''], [])] 0
      (RecordUpstreamResult (RecordUpstreamFailure (RecordUpstreamResult (Metrics_New [''a'', ''b'']) 0 ''answer'') 0 ''timeout'') 1 ''answer'')))
    = replicate 2 ''chn_resolver_queries_total'' @ replicate 5 ''chn_resolver_outcomes_total'' @ replicate 4 ''chn_resolver_answers_total''
      @ replicate 4 ''chn_resolver_policy_total''
      @ [''chn_resolver_upstream_results_total'', ''chn_resolver_upstream_failures_total'', ''chn_resolver_upstream_results_total'',
         ''chn_resolver_inflight'', ''chn_resolver_uptime_seconds'']
   \<and> Inl ''TYPE chn_resolver_upstream_failures_total counter'' \<notin> set (exported ord uptime m)"
proof (rule conjI)
  show "map fst (item_samples (exported [([''answer''], [''timeout'']), ([''answer''], [])] 0
      (RecordUpstreamResult (RecordUpstreamFailure (RecordUpstreamResult (Metrics_New [''a'', ''b'']) 0 ''answer'') 0 ''timeout'') 1 ''answer'')))
    = replicate 2 ''chn_resolver_queries_total'' @ replicate 5 ''chn_resolver_outcomes_total'' @ replicate 4 ''chn_resolver_answers_total''
      @ replicate 4 ''chn_resolver_policy_total''
      @ [''chn_resolver_upstream_results_total'', ''chn_resolver_upstream_failures_total'', ''chn_resolver_upstream_results_total'',
         ''chn_resolver_inflight'', ''chn_resolver_uptime_seconds'']"
    by code_simp
  show "Inl ''TYPE chn_resolver_upstream_failures_total counter'' \<notin> set (exported ord uptime m)"
    by (auto simp: exported_def labelled_def)
qed

end
