(* ===== verification/MainProg.thy ===== *)
theory MainProg
  imports ChinaLoader Server Exposition
begin

text \<open>
  Command \<^verbatim>\<open>cmd/chn-resolver\<close>: how the parts are put together. Logging, the flag parser, signals and the
  HTTP server of the metrics are not modelled; what they trigger is.
\<close>

section \<open>Configuration and assets\<close>

definition defaultConfigPath :: gostring where "defaultConfigPath = ''/etc/chn-resolver/chn-resolver.toml''"
definition localConfigPath :: gostring where "localConfigPath = ''chn-resolver.toml''"

datatype start_error =
    ConfigError config_error
  | NoConfigFile
  | PrefixError load_error
  | OverridesError override_load_error

text \<open>\<^verbatim>\<open>os.Stat\<close> succeeds on the paths that exist; the content is read by the decoder.\<close>

fun find_config :: "(gostring \<Rightarrow> bool) \<Rightarrow> gostring list \<Rightarrow> gostring option" where
  "find_config stat_ok [] = None"
| "find_config stat_ok (p # ps) = (if stat_ok p then Some p else find_config stat_ok ps)"

definition loadConfig :: "(gostring \<Rightarrow> raw option) \<Rightarrow> (int \<Rightarrow> nat \<Rightarrow> int \<Rightarrow> int) \<Rightarrow> (gostring \<rightharpoonup> gostring)
    \<Rightarrow> (gostring \<Rightarrow> bool) \<Rightarrow> gostring \<Rightarrow> start_error + Config" where
  "loadConfig decode frac files stat_ok path =
     (let load = (\<lambda>p. case Config_Load decode frac files p of Inl e \<Rightarrow> Inl (ConfigError e) | Inr c \<Rightarrow> Inr c)
      in if path \<noteq> [] then load path
         else case find_config stat_ok [defaultConfigPath, localConfigPath] of
                Some p \<Rightarrow> load p
              | None \<Rightarrow> Inl NoConfigFile)"

definition loadAssets :: "(gostring \<Rightarrow> reader option) \<Rightarrow> Config \<Rightarrow> start_error + Assets" where
  "loadAssets fs cfg =
     (case China_Load fs (PrefixFiles cfg) of
        Inl e \<Rightarrow> Inl (PrefixError e)
      | Inr idx \<Rightarrow>
          (if OverridesFile cfg \<noteq> [] then
             (case Overrides_Load fs (OverridesFile cfg) of
                Inl e \<Rightarrow> Inl (OverridesError e)
              | Inr ov \<Rightarrow> Inr \<lparr>as_china = idx, as_overrides = ov\<rparr>)
           else Inr \<lparr>as_china = idx, as_overrides = Overrides_New [] []\<rparr>))"

definition upstream_class :: "Assets \<Rightarrow> cfg_upstream \<Rightarrow> bool" where
  "upstream_class assets u =
     (case cu_role u of
        RoleChina \<Rightarrow> True
      | RoleForeign \<Rightarrow> False
      | RoleAuto \<Rightarrow> Contains (as_china assets) (cu_addr u))"

fun classify_loop :: "Config \<Rightarrow> Assets \<Rightarrow> cfg_upstream list \<Rightarrow> Upstream list \<Rightarrow> Upstream list" where
  "classify_loop cfg assets [] ups = ups"
| "classify_loop cfg assets (u # us) ups =
     classify_loop cfg assets us (ups @ [\<lparr>up_addr = \<lparr>ap_addr = cu_addr u, ap_port = word_of_int (cu_port u)\<rparr>,
       InChina = upstream_class assets u, up_client = NewClient (word_of_int (UDPPayloadSize cfg))\<rparr>])"

definition classifyUpstreams :: "Config \<Rightarrow> Assets \<Rightarrow> Upstream list" where
  "classifyUpstreams cfg assets = classify_loop cfg assets (Upstreams cfg) []"

fun upstreamAddrs :: "Upstream list \<Rightarrow> gostring list" where
  "upstreamAddrs [] = []"
| "upstreamAddrs (u # us) = addr_port_string (up_addr u) # upstreamAddrs us"

datatype slog_level = LevelDebug | LevelInfo | LevelWarn | LevelError

text \<open>\<^verbatim>\<open>newLogger\<close>: the level and whether the handler writes JSON.\<close>

definition newLogger :: "Config \<Rightarrow> slog_level \<times> bool" where
  "newLogger cfg =
     (if LogLevel cfg = ''debug'' then LevelDebug
      else if LogLevel cfg = ''warn'' then LevelWarn
      else if LogLevel cfg = ''error'' then LevelError else LevelInfo,
      LogFormat cfg = ''json'')"

section \<open>Start\<close>

text \<open>\<^verbatim>\<open>uint32(d / time.Second)\<close>\<close>

definition seconds_u32 :: "int \<Rightarrow> u32" where
  "seconds_u32 d = word_of_int (go_div d second)"

definition service_of :: "Config \<Rightarrow> Service" where
  "service_of cfg = \<lparr>sv_CacheOn = CacheEnabled cfg, sv_MinTTL = seconds_u32 (cfg_MinTTL cfg), sv_MaxTTL = seconds_u32 (MaxTTL cfg),
     sv_NegMinTTL = seconds_u32 (NegMinTTL cfg), sv_NegMaxTTL = seconds_u32 (NegMaxTTL cfg)\<rparr>"

record running_program =
  rp_engine :: Engine
  rp_service :: Service
  rp_cache :: Cache
  rp_upstreams :: "Upstream list"
  rp_metrics :: Metrics

text \<open>The parts \<^verbatim>\<open>main\<close> creates from a configuration, its assets and the classed upstreams.\<close>

definition assemble :: "Config \<Rightarrow> Assets \<Rightarrow> Upstream list \<Rightarrow> (nat \<Rightarrow> int) \<Rightarrow> running_program" where
  "assemble cfg assets ups now =
     \<lparr>rp_engine = (Engine_New assets ups (AttemptTimeout cfg) (MaxCNAMEHops cfg) (word_of_int (UDPPayloadSize cfg)))\<lparr>en_onresult := True\<rparr>,
      rp_service = service_of cfg, rp_cache = Cache_New (MaxEntries cfg) now, rp_upstreams = ups,
      rp_metrics = Metrics_New (upstreamAddrs ups)\<rparr>"

text \<open>\<^verbatim>\<open>main\<close> up to the start of the server, with the clock of the cache.\<close>

definition start_program :: "(gostring \<Rightarrow> raw option) \<Rightarrow> (int \<Rightarrow> nat \<Rightarrow> int \<Rightarrow> int) \<Rightarrow> (gostring \<rightharpoonup> gostring)
    \<Rightarrow> (gostring \<Rightarrow> bool) \<Rightarrow> (gostring \<Rightarrow> reader option) \<Rightarrow> (nat \<Rightarrow> int) \<Rightarrow> gostring
    \<Rightarrow> start_error + Config \<times> running_program" where
  "start_program decode frac files stat_ok fs now path =
     (case loadConfig decode frac files stat_ok path of
        Inl e \<Rightarrow> Inl e
      | Inr cfg \<Rightarrow>
          (case loadAssets fs cfg of
             Inl e \<Rightarrow> Inl e
           | Inr assets \<Rightarrow> Inr (cfg, assemble cfg assets (classifyUpstreams cfg assets) now)))"

text \<open>The callback \<^verbatim>\<open>OnResult\<close> that \<^verbatim>\<open>main\<close> installs.\<close>

definition on_result_callback :: "nat \<times> State \<times> gostring \<Rightarrow> Metrics \<Rightarrow> Metrics" where
  "on_result_callback = (\<lambda>(idx, state, category) m.
     (let m = RecordUpstreamResult m (int idx) (State_String state)
      in if state = StateFailure then RecordUpstreamFailure m (int idx) category else m))"

section \<open>Facts\<close>

lemma classify_loop_eq:
  "classify_loop cfg assets us ups = ups @ map (\<lambda>u. \<lparr>up_addr = \<lparr>ap_addr = cu_addr u, ap_port = word_of_int (cu_port u)\<rparr>,
     InChina = upstream_class assets u, up_client = NewClient (word_of_int (UDPPayloadSize cfg))\<rparr>) us"
  by (induction us arbitrary: ups) auto

text \<open>The class of an upstream by its role and address; the port keeps its number.\<close>

lemma upstream_class_iff:
  "upstream_class assets u \<longleftrightarrow> cu_role u = RoleChina \<or> cu_role u = RoleAuto \<and> Contains (as_china assets) (cu_addr u)"
  by (cases "cu_role u") (simp_all add: upstream_class_def)

lemma classified:
  fixes cfg :: Config and assets :: Assets and i :: nat
  assumes "valid_config cfg" "i < length (Upstreams cfg)"
  defines "u \<equiv> classifyUpstreams cfg assets ! i" and "c \<equiv> Upstreams cfg ! i"
  shows "ap_addr (up_addr u) = cu_addr c" "uint (ap_port (up_addr u)) = cu_port c"
    "InChina u \<longleftrightarrow> cu_role c = RoleChina \<or> cu_role c = RoleAuto \<and> Contains (as_china assets) (cu_addr c)"
proof -
  have u: "u = \<lparr>up_addr = \<lparr>ap_addr = cu_addr c, ap_port = word_of_int (cu_port c)\<rparr>,
      InChina = upstream_class assets c, up_client = NewClient (word_of_int (UDPPayloadSize cfg))\<rparr>"
    using assms(2) by (simp add: u_def c_def classifyUpstreams_def classify_loop_eq)
  have "c \<in> set (Upstreams cfg)" using assms(2) by (simp add: c_def)
  then have "1 \<le> cu_port c" "cu_port c \<le> 65535" using assms(1) by (auto simp: valid_config_def valid_sources_def)
  then show "ap_addr (up_addr u) = cu_addr c" "uint (ap_port (up_addr u)) = cu_port c"
    "InChina u \<longleftrightarrow> cu_role c = RoleChina \<or> cu_role c = RoleAuto \<and> Contains (as_china assets) (cu_addr c)"
    by (simp_all add: u uint_word_of_int upstream_class_iff)
qed

lemma loadConfig_valid:
  assumes "loadConfig decode frac files stat_ok path = Inr cfg"
  shows "valid_config cfg"
proof -
  have "\<exists>p. Config_Load decode frac files p = Inr cfg"
    using assms by (auto simp: loadConfig_def Let_def split: if_splits option.splits sum.splits)
  then obtain r where "build frac r = Inr cfg"
    by (auto simp: Config_Load_def split: option.splits)
  then show ?thesis by (rule build_stage_facts(1))
qed

lemma seconds_u32_mono:
  assumes "0 \<le> d" "d \<le> e" "e < 2 ^ 32 * second"
  shows "seconds_u32 d \<le> seconds_u32 e"
proof -
  have "e div second < 2 ^ 32" using assms by (simp add: go_consts)
  moreover have "d div second \<le> e div second" using assms(2) by (simp add: go_consts zdiv_mono1)
  moreover have "0 \<le> d div second" using assms(1) by (simp add: go_consts pos_imp_zdiv_nonneg_iff)
  moreover have "go_div d second = d div second" "go_div e second = e div second"
    using assms(1,2) by (simp_all add: go_div_def go_consts)
  ultimately show ?thesis by (simp add: seconds_u32_def word_le_def uint_word_of_int)
qed

text \<open>The counters after a run of the callback over a log.\<close>

definition log_count :: "(nat \<times> State \<times> gostring) list \<Rightarrow> nat \<Rightarrow> State \<Rightarrow> nat" where
  "log_count log i st = length (filter (\<lambda>(j, st', c). j = i \<and> st' = st) log)"

lemma State_String_inject: "State_String a = State_String b \<longleftrightarrow> a = b"
  by (cases a; cases b) simp_all

lemma on_result_counts:
  assumes "\<forall>x\<in>set log. fst x < length (met_upstreams m)" "i < length (met_upstreams m)"
  shows "result_count (fold on_result_callback log m) i (State_String st) =
      result_count m i (State_String st) + of_nat (log_count log i st)"
  using assms
proof (induction log arbitrary: m)
  case Nil
  then show ?case by (simp add: log_count_def)
next
  case (Cons x log)
  obtain j s c where x: "x = (j, s, c)" by (metis prod_cases3)
  have j: "j < length (met_upstreams m)" using Cons.prems(1) x by simp
  define m1 where "m1 = on_result_callback x m"
  have len: "length (met_upstreams m1) = length (met_upstreams m)"
    by (simp add: m1_def x on_result_callback_def Let_def)
  have "result_count m1 i (State_String st) = result_count m i (State_String st) + (if i = j \<and> st = s then 1 else 0)"
    using result_count_record [OF j Cons.prems(2)] j Cons.prems(2)
      result_count_record(4) [of j "RecordUpstreamResult m (int j) (State_String s)" i c "State_String st"]
    by (auto simp: m1_def x on_result_callback_def Let_def State_String_inject)
  moreover have "result_count (fold on_result_callback log m1) i (State_String st) =
      result_count m1 i (State_String st) + of_nat (log_count log i st)"
    using Cons.IH [of m1] Cons.prems len by simp
  moreover have "of_nat (log_count (x # log) i st) = (if i = j \<and> st = s then 1 else 0 :: u64) + of_nat (log_count log i st)"
    by (auto simp: log_count_def x)
  ultimately show ?case by (simp add: m1_def add.assoc)
qed

lemma start_program_parts:
  assumes "start_program decode frac files stat_ok fs now path = Inr (cfg, p)"
  shows "loadConfig decode frac files stat_ok path = Inr cfg"
    and "\<exists>assets. loadAssets fs cfg = Inr assets \<and> rp_engine p = (Engine_New assets (classifyUpstreams cfg assets)
      (AttemptTimeout cfg) (MaxCNAMEHops cfg) (word_of_int (UDPPayloadSize cfg)))\<lparr>en_onresult := True\<rparr>
      \<and> rp_upstreams p = classifyUpstreams cfg assets"
    and "rp_service p = service_of cfg" and "rp_cache p = Cache_New (MaxEntries cfg) now"
    and "rp_metrics p = Metrics_New (upstreamAddrs (rp_upstreams p))"
  using assms by (auto simp: start_program_def assemble_def split: sum.splits)

section \<open>A sample start\<close>

definition sample_cfg :: Config where
  "sample_cfg = (case build no_frac (sample_raw []) of Inr c \<Rightarrow> c | Inl e \<Rightarrow> Defaults)"

definition sample_assets :: Assets where
  "sample_assets = \<lparr>as_china = Build [\<lparr>p_addr = Addr4 0x01000100, p_bits = 24\<rparr>],
     as_overrides = Overrides_New [] []\<rparr>"

lemma sample_build: "build no_frac (sample_raw []) = Inr sample_cfg"
proof -
  have "case build no_frac (sample_raw []) of Inr c \<Rightarrow> True | Inl e \<Rightarrow> False" by code_simp
  then show ?thesis unfolding sample_cfg_def by (cases "build no_frac (sample_raw [])") auto
qed

lemma sample_cfg_files: "PrefixFiles sample_cfg = [''cn.txt'']" "OverridesFile sample_cfg = []"
  by code_simp+

definition sample_disk :: "gostring \<Rightarrow> reader option" where
  "sample_disk path = (if path = ''cn.txt'' then Some \<lparr>rd_data = ''1.0.1.0/24'', rd_failed = False\<rparr> else None)"

lemma sample_disk_file:
  "file_prefixes sample_disk ''cn.txt'' = [\<lparr>p_addr = Addr4 0x01000100, p_bits = 24\<rparr>]" "file_ok sample_disk ''cn.txt''"
proof -
  have "plain_line max_prefix_line ''1.0.1.0/24''"
    by (rule plain_line_max; simp add: newline_def carriage_return_def)
  then have scan: "scan_lines max_prefix_line \<lparr>rd_data = ''1.0.1.0/24'', rd_failed = False\<rparr> = ([''1.0.1.0/24''], None)"
    by (simp add: scan_lines_def scan_data_last)
  have "line_prefix ''1.0.1.0/24'' = Some \<lparr>p_addr = Addr4 0x01000100, p_bits = 24\<rparr>" "line_ok ''1.0.1.0/24''"
    by code_simp+
  then show "file_prefixes sample_disk ''cn.txt'' = [\<lparr>p_addr = Addr4 0x01000100, p_bits = 24\<rparr>]" "file_ok sample_disk ''cn.txt''"
    using scan by (simp_all add: file_ok_def file_prefixes_def sample_disk_def List.map_filter_simps)
qed

lemma sample_loadAssets: "loadAssets sample_disk sample_cfg = Inr sample_assets"
proof -
  have "China_Load sample_disk [''cn.txt''] = Inr (as_china sample_assets)"
    using sample_disk_file by (simp add: China_Load_Inr sample_assets_def)
  then show ?thesis by (simp add: loadAssets_def sample_cfg_files) (simp add: sample_assets_def)
qed

abbreviation sample_start :: "start_error + Config \<times> running_program" where
  "sample_start \<equiv> start_program (\<lambda>_. Some (sample_raw [])) no_frac (\<lambda>_. Some []) (\<lambda>_. True) sample_disk int []"

lemma sample_start_ok: "\<exists>p. sample_start = Inr (sample_cfg, p)"
  by (simp add: start_program_def loadConfig_def Config_Load_def sample_build sample_loadAssets Let_def)

section \<open>The exported counters of a program\<close>

lemma upstreamAddrs_map: "upstreamAddrs us = map (addr_port_string \<circ> up_addr) us"
  by (induction us) auto

lemma addr_port_string_inj: "ap_addr p \<noteq> AddrZero \<Longrightarrow> ap_addr q \<noteq> AddrZero \<Longrightarrow> addr_port_string p = addr_port_string q \<Longrightarrow> ap_addr p = ap_addr q"
  by (metis parse_addr_port_string option.inject prod.inject)

lemma hex_ascii: "hex_val c \<noteq> None \<Longrightarrow> of_char c < (128 :: nat)"
  by (simp add: hex_val_def Let_def split: if_splits)

lemma digits_ascii: "list_all is_digit s \<Longrightarrow> ascii s"
  using hex_ascii digit_is_hex by (simp add: ascii_def list_all_iff)

lemma ascii_append [simp]: "ascii (s @ t) \<longleftrightarrow> ascii s \<and> ascii t"
  by (simp add: ascii_def)

lemma ascii_Cons [simp]: "ascii (c # t) \<longleftrightarrow> of_char c < (128 :: nat) \<and> ascii t" "ascii []"
  by (simp_all add: ascii_def)

lemma ascii_join: "ascii sep \<Longrightarrow> \<forall>x\<in>set xs. ascii x \<Longrightarrow> ascii (join_sep sep xs)"
  by (induction sep xs rule: join_sep.induct) auto

lemma ascii_itoa: "0 \<le> n \<Longrightarrow> ascii (itoa n)"
  using dec_digits digits_ascii by (simp add: itoa_def)

lemma ascii_string4: "ascii (string4 bs)"
  unfolding string4_def by (rule ascii_join) (auto simp: ascii_itoa)

lemma ascii_hex: "0 \<le> n \<Longrightarrow> ascii (hex n)"
  using hex_hd [of n] hex_ascii by (auto simp: ascii_def list_all_iff)

lemma ascii_string6: "ascii (string6 (groups16 bs))"
proof -
  have "0 \<le> g" if "g \<in> set (groups16 bs)" for g using that by (induction bs rule: groups16.induct) auto
  then have "ascii (join_sep '':'' (map hex gs))" if "set gs \<subseteq> set (groups16 bs)" for gs
    using that by (intro ascii_join) (auto simp: ascii_hex)
  then show ?thesis by (auto simp: string6_def set_take_subset set_drop_subset split: prod.splits)
qed

lemma ascii_addr_port: "ascii (addr_zone (ap_addr p)) \<Longrightarrow> ascii (addr_port_string p)"
  by (cases "ap_addr p") (auto simp: addr_port_string_def ascii_string4 ascii_string6 ascii_itoa zone_suffix_def)

lemma on_result_length [simp]: "length (met_upstreams (on_result_callback x m)) = length (met_upstreams m)"
  by (cases x) (simp add: on_result_callback_def Let_def)

lemma ball_update: "\<forall>u\<in>set xs. P u \<Longrightarrow> P v \<Longrightarrow> \<forall>u\<in>set (xs[i := v]). P u"
  using set_update_subset_insert [of xs i v] by blast

lemma map_update_same: "f u = f (xs ! i) \<Longrightarrow> map f (xs[i := u]) = map f xs"
  by (cases "i < length xs") (simp_all add: map_update list_update_same_conv list_update_beyond)

lemma record_addrs [simp]:
  "map um_addr (met_upstreams (RecordUpstreamResult m i st)) = map um_addr (met_upstreams m)"
  "map um_addr (met_upstreams (RecordUpstreamFailure m i st)) = map um_addr (met_upstreams m)"
  "Policies (RecordUpstreamResult m i st) = Policies m" "Policies (RecordUpstreamFailure m i st) = Policies m"
  by (simp_all add: RecordUpstreamResult_def RecordUpstreamFailure_def Let_def map_update_same)

text \<open>Recording results keeps the addresses, the policies and that all names are ASCII.\<close>

lemma on_result_frame:
  assumes "ascii_metrics m" "ascii (snd (snd x))"
  shows "map um_addr (met_upstreams (on_result_callback x m)) = map um_addr (met_upstreams m)"
    "Policies (on_result_callback x m) = Policies m" "ascii_metrics (on_result_callback x m)"
proof -
  obtain i st c where x: "x = (i, st, c)" by (metis prod_cases3)
  show "map um_addr (met_upstreams (on_result_callback x m)) = map um_addr (met_upstreams m)"
    "Policies (on_result_callback x m) = Policies m" by (simp_all add: x on_result_callback_def Let_def)
  define P where "P u \<longleftrightarrow> ascii (um_addr u) \<and> (\<forall>k\<in>dom (um_results u). ascii k) \<and> (\<forall>k\<in>dom (um_failures u). ascii k)" for u :: UpstreamMetrics
  have P: "ascii_metrics m' \<longleftrightarrow> (\<forall>u\<in>set (met_upstreams m'). P u)" for m' by (simp add: ascii_metrics_def P_def)
  have "dom (bump cs k) = insert k (dom cs)" for cs k by (auto simp: bump_def split: option.splits)
  then have bumped: "P (u\<lparr>um_results := bump (um_results u) k\<rparr>)" "P (u\<lparr>um_failures := bump (um_failures u) k\<rparr>)" if "P u" "ascii k" for u k
    using that by (simp_all add: P_def)
  have at: "P (met_upstreams m' ! j)" if "ascii_metrics m'" "j < length (met_upstreams m')" for m' j
    using that P nth_mem by blast
  have res: "ascii_metrics (RecordUpstreamResult m' j k)" if "ascii_metrics m'" "ascii k" for m' j k
  proof (cases "j < 0 \<or> j \<ge> int (length (met_upstreams m'))")
    case False
    then have "nat j < length (met_upstreams m')" by linarith
    from ball_update [OF that(1) [unfolded P] bumped(1) [OF at [OF that(1) this] that(2)]] False
    show ?thesis by (simp add: RecordUpstreamResult_def Let_def P)
  qed (use that(1) in \<open>simp add: RecordUpstreamResult_def\<close>)
  have fail: "ascii_metrics (RecordUpstreamFailure m' j k)" if "ascii_metrics m'" "ascii k" for m' j k
  proof (cases "j < 0 \<or> j \<ge> int (length (met_upstreams m'))")
    case False
    then have "nat j < length (met_upstreams m')" by linarith
    from ball_update [OF that(1) [unfolded P] bumped(2) [OF at [OF that(1) this] that(2)]] False
    show ?thesis by (simp add: RecordUpstreamFailure_def Let_def P)
  qed (use that(1) in \<open>simp add: RecordUpstreamFailure_def\<close>)
  have "ascii (State_String st)" by (cases st) simp_all
  then show "ascii_metrics (on_result_callback x m)" using res fail assms by (simp add: x on_result_callback_def Let_def)
qed

lemma on_results_frame:
  assumes "ascii_metrics m" "\<forall>x\<in>set log. ascii (snd (snd x))"
  shows "map um_addr (met_upstreams (fold on_result_callback log m)) = map um_addr (met_upstreams m)
    \<and> Policies (fold on_result_callback log m) = Policies m \<and> ascii_metrics (fold on_result_callback log m)"
  using assms
proof (induction log arbitrary: m)
  case (Cons x log)
  then show ?case using on_result_frame [of m x] by simp
qed simp

section \<open>Properties\<close>

definition program_metrics :: "running_program \<Rightarrow> (nat \<times> State \<times> gostring) list \<Rightarrow> Metrics" where
  "program_metrics p log = fold on_result_callback log (rp_metrics p)"

lemma rp_metrics_ups:
  assumes "start_program decode frac files stat_ok fs now path = Inr (cfg, p)"
  shows "met_upstreams (rp_metrics p) = map (\<lambda>u. \<lparr>um_addr = addr_port_string (up_addr u), um_results = Map.empty, um_failures = Map.empty\<rparr>) (rp_upstreams p)"
    and "set policy_names \<subseteq> dom (Policies (rp_metrics p))"
    and "map (\<lambda>u. \<lparr>ap_addr = cu_addr u, ap_port = word_of_int (cu_port u)\<rparr>) (Upstreams cfg) = map up_addr (rp_upstreams p)"
proof -
  note m = start_program_parts(5) [OF assms]
  show "met_upstreams (rp_metrics p) = map (\<lambda>u. \<lparr>um_addr = addr_port_string (up_addr u), um_results = Map.empty, um_failures = Map.empty\<rparr>) (rp_upstreams p)"
    by (simp add: m Metrics_New_def upstreamAddrs_map)
  show "set policy_names \<subseteq> dom (Policies (rp_metrics p))" by (auto simp: m Metrics_New_def policy_names_def)
  show "map (\<lambda>u. \<lparr>ap_addr = cu_addr u, ap_port = word_of_int (cu_port u)\<rparr>) (Upstreams cfg) = map up_addr (rp_upstreams p)"
    using start_program_parts(2) [OF assms] by (auto simp: classifyUpstreams_def classify_loop_eq)
qed

lemma program_metrics_ok:
  assumes "start_program decode frac files stat_ok fs now path = Inr (cfg, p)"
    and "\<forall>u\<in>set (Upstreams cfg). ascii (addr_zone (cu_addr u))" "\<forall>x\<in>set log. ascii (snd (snd x))"
  shows "set policy_names \<subseteq> dom (Policies (program_metrics p log))" "ascii_metrics (program_metrics p log)"
    "distinct (map um_addr (met_upstreams (program_metrics p log)))"
    "map um_addr (met_upstreams (program_metrics p log)) = map (addr_port_string \<circ> up_addr) (rp_upstreams p)"
proof -
  note ups = rp_metrics_ups [OF assms(1)]
  have src: "distinct (map cu_addr (Upstreams cfg))" "\<forall>u\<in>set (Upstreams cfg). cu_addr u \<noteq> AddrZero"
    using loadConfig_valid [OF start_program_parts(1) [OF assms(1)]] by (simp_all add: valid_config_def valid_sources_def)
  have zone: "\<forall>a\<in>set (map up_addr (rp_upstreams p)). ascii (addr_zone (ap_addr a)) \<and> ap_addr a \<noteq> AddrZero"
    unfolding ups(3) [symmetric] using assms(2) src(2) by simp
  then have "ascii_metrics (rp_metrics p)" by (simp add: ascii_metrics_def ups(1) ascii_addr_port)
  note frame = on_results_frame [OF this assms(3)]
  show "set policy_names \<subseteq> dom (Policies (program_metrics p log))" "ascii_metrics (program_metrics p log)"
    using frame ups(2) by (simp_all add: program_metrics_def)
  show addrs: "map um_addr (met_upstreams (program_metrics p log)) = map (addr_port_string \<circ> up_addr) (rp_upstreams p)"
    using frame ups(1) by (simp add: program_metrics_def comp_def)
  have "distinct (map ap_addr (map up_addr (rp_upstreams p)))" unfolding ups(3) [symmetric] using src(1) by (simp add: comp_def)
  moreover have "inj_on addr_port_string (set (map up_addr (rp_upstreams p)))" if "inj_on ap_addr (set (map up_addr (rp_upstreams p)))"
    using that zone addr_port_string_inj by (auto simp: inj_on_def)
  ultimately have "distinct (map addr_port_string (map up_addr (rp_upstreams p)))" by (simp only: distinct_map)
  then show "distinct (map um_addr (met_upstreams (program_metrics p log)))" by (simp add: addrs)
qed

text \<open>
  The samples report \<^term>\<open>n\<close> results of a state for the upstream with this label, modulo 2^64; only a count of zero
  may be left out.
\<close>

definition exports_count :: "sample list \<Rightarrow> gostring \<Rightarrow> State \<Rightarrow> nat \<Rightarrow> bool" where
  "exports_count ss label st n \<longleftrightarrow>
     (let series = [(''upstream'', label), (''state'', State_String st)]
      in (\<forall>v. (''chn_resolver_upstream_results_total'', series, v) \<in> set ss \<longrightarrow> v = int n mod 2 ^ 64)
        \<and> (n mod 2 ^ 64 \<noteq> 0 \<longrightarrow> (''chn_resolver_upstream_results_total'', series, int n mod 2 ^ 64) \<in> set ss))"

lemma uint_of_nat_u64: "uint (of_nat n :: u64) = int n mod 2 ^ 64"
  by (simp add: unsigned_of_nat take_bit_eq_mod of_nat_mod)

lemma program_metrics_count:
  assumes "start_program decode frac files stat_ok fs now path = Inr (cfg, p)"
    and "\<forall>x\<in>set log. fst x < length (rp_upstreams p)" "i < length (rp_upstreams p)"
  shows "result_count (program_metrics p log) i (State_String st) = of_nat (log_count log i st)"
  using on_result_counts [of log "rp_metrics p" i st] assms(2,3) rp_metrics_ups(1) [OF assms(1)]
  by (simp add: program_metrics_def result_count_def tally_def)

text \<open>
  C37. A program that starts is well put together: its configuration is valid, its assets are those of the files, its cache is empty and
  sound, every configured upstream is queried once, in the configured order and at its configured address and port, and
  counts as inside exactly if its role says so or, with the automatic role, if the prefix index holds its own
  address; the service's TTL bounds are ordered whenever the configured ones
  are durations between zero and 2^32 seconds.
\<close>

theorem start_program_sound:
  assumes "start_program decode frac files stat_ok fs now path = Inr (cfg, p)" "mono now"
  shows "valid_config cfg \<and> loadAssets fs cfg = Inr (en_assets (rp_engine p)) \<and> cache_ok (rp_cache p) \<and> entries (rp_cache p) = []
    \<and> en_upstreams (rp_engine p) = rp_upstreams p \<and> length (rp_upstreams p) = length (Upstreams cfg)
    \<and> (\<forall>i<length (Upstreams cfg). let u = rp_upstreams p ! i; c = Upstreams cfg ! i
        in ap_addr (up_addr u) = cu_addr c \<and> uint (ap_port (up_addr u)) = cu_port c
          \<and> (InChina u \<longleftrightarrow> cu_role c = RoleChina \<or> cu_role c = RoleAuto \<and> Contains (as_china (en_assets (rp_engine p))) (cu_addr c)))
    \<and> (0 \<le> cfg_MinTTL cfg \<and> MaxTTL cfg < 2 ^ 32 * second \<and> 0 \<le> NegMinTTL cfg \<and> NegMaxTTL cfg < 2 ^ 32 * second
         \<longrightarrow> bounds_ok (rp_service p))"
proof -
  have valid: "valid_config cfg" using loadConfig_valid start_program_parts(1) [OF assms(1)] by blast
  then have n: "0 \<le> MaxEntries cfg" by (simp add: valid_config_def valid_rest_def)
  obtain assets where a: "loadAssets fs cfg = Inr assets" "rp_engine p = (Engine_New assets (classifyUpstreams cfg assets)
      (AttemptTimeout cfg) (MaxCNAMEHops cfg) (word_of_int (UDPPayloadSize cfg)))\<lparr>en_onresult := True\<rparr>"
    "rp_upstreams p = classifyUpstreams cfg assets"
    using start_program_parts(2) [OF assms(1)] by blast
  then have eng: "loadAssets fs cfg = Inr (en_assets (rp_engine p))" "en_upstreams (rp_engine p) = rp_upstreams p"
    "rp_upstreams p = classifyUpstreams cfg (en_assets (rp_engine p))" by (simp_all add: Engine_New_def)
  note ups = classified [OF valid, of _ "en_assets (rp_engine p)", folded eng(3)]
  have cache: "cache_ok (rp_cache p)" "entries (rp_cache p) = []"
    using cache_ok_New [OF n assms(2)] by (simp_all add: start_program_parts(4) [OF assms(1)] Cache_New_def entries_def)
  have "bounds_ok (rp_service p)"
    if "0 \<le> cfg_MinTTL cfg" "MaxTTL cfg < 2 ^ 32 * second" "0 \<le> NegMinTTL cfg" "NegMaxTTL cfg < 2 ^ 32 * second"
    using that valid seconds_u32_mono
    by (simp add: start_program_parts(3) [OF assms(1)] bounds_ok_def service_of_def valid_config_def valid_ttls_def)
  moreover have "length (rp_upstreams p) = length (Upstreams cfg)"
    by (simp add: a(3) classifyUpstreams_def classify_loop_eq)
  ultimately show ?thesis using valid eng(1,2) cache ups by (simp add: Let_def)
qed

theorem start_program_sound_witness:
  "\<exists>p. sample_start = Inr (sample_cfg, p) \<and> valid_config sample_cfg \<and> entries (rp_cache p) = []
     \<and> InChina (rp_upstreams p ! 0) \<and> \<not> InChina (rp_upstreams p ! 1) \<and> uint (ap_port (up_addr (rp_upstreams p ! 1))) = 5353"
proof -
  obtain p where p: "sample_start = Inr (sample_cfg, p)" using sample_start_ok by blast
  have "mono int" by (simp add: mono_def)
  from start_program_sound [OF p this] have s: "valid_config sample_cfg" "loadAssets sample_disk sample_cfg = Inr (en_assets (rp_engine p))"
    "entries (rp_cache p) = []"
    "\<And>i. i < length (Upstreams sample_cfg) \<Longrightarrow> uint (ap_port (up_addr (rp_upstreams p ! i))) = cu_port (Upstreams sample_cfg ! i)
      \<and> (InChina (rp_upstreams p ! i) \<longleftrightarrow> cu_role (Upstreams sample_cfg ! i) = RoleChina
          \<or> cu_role (Upstreams sample_cfg ! i) = RoleAuto \<and> Contains (as_china (en_assets (rp_engine p))) (cu_addr (Upstreams sample_cfg ! i)))"
    by (simp_all add: Let_def)
  have c: "0 < length (Upstreams sample_cfg)" "1 < length (Upstreams sample_cfg)" "cu_port (Upstreams sample_cfg ! 1) = 5353"
    "cu_role (Upstreams sample_cfg ! 0) = RoleChina" "cu_role (Upstreams sample_cfg ! 1) = RoleAuto"
    "\<not> Contains (as_china sample_assets) (cu_addr (Upstreams sample_cfg ! 1))"
    by code_simp+
  have "en_assets (rp_engine p) = sample_assets" using s(2) sample_loadAssets by simp
  then show ?thesis using p s(1,3) s(4) [OF c(1)] s(4) [OF c(2)] c(3-) by (intro exI [of _ p]) simp
qed

lemma exports_count_tally:
  assumes "valid_order m ord" "distinct (map um_addr (met_upstreams m))" "i < length (met_upstreams m)"
    and "tally (um_results (met_upstreams m ! i)) (State_String st) = of_nat n"
  shows "exports_count (samples ord uptime m) (um_addr (met_upstreams m ! i)) st n"
proof -
  have "int (n mod 2 ^ 64) = uint (of_nat n :: u64)" by (simp only: uint_of_nat_u64 of_nat_mod of_nat_power of_nat_numeral)
  then have "(of_nat n :: u64) = 0 \<Longrightarrow> n mod 2 ^ 64 = 0" by (metis of_nat_eq_0_iff unsigned_0)
  then show ?thesis
    using samples_upstream(1) [OF assms(1-3)] assms(4)
    unfolding exports_count_def Let_def uint_of_nat_u64 [symmetric]
    by (cases "um_results (met_upstreams m ! i) (State_String st)") (auto simp: tally_def)
qed

lemma upstream_label:
  assumes "start_program decode frac files stat_ok fs now path = Inr (cfg, p)" "i < length (rp_upstreams p)"
  shows "parse_addr_port (addr_port_string (up_addr (rp_upstreams p ! i))) = Some (cu_addr (Upstreams cfg ! i), nat (cu_port (Upstreams cfg ! i)))"
proof -
  note ups = rp_metrics_ups(3) [OF assms(1)]
  have c: "i < length (Upstreams cfg)" using assms(2) arg_cong [OF ups, of length] by simp
  have "up_addr (rp_upstreams p ! i) = \<lparr>ap_addr = cu_addr (Upstreams cfg ! i), ap_port = word_of_int (cu_port (Upstreams cfg ! i))\<rparr>"
    using arg_cong [OF ups, of "\<lambda>xs. xs ! i"] assms(2) c by simp
  moreover have v: "cu_addr (Upstreams cfg ! i) \<noteq> AddrZero" "1 \<le> cu_port (Upstreams cfg ! i)" "cu_port (Upstreams cfg ! i) \<le> 65535"
    using loadConfig_valid [OF start_program_parts(1) [OF assms(1)]] c by (simp_all add: valid_config_def valid_sources_def)
  moreover have "unat (word_of_int (cu_port (Upstreams cfg ! i)) :: u16) = nat (cu_port (Upstreams cfg ! i))"
    using v by (simp only: unat_eq_nat_uint uint_word_of_int) simp
  ultimately show ?thesis using parse_addr_port_string by simp
qed

text \<open>
  The exported metrics of a running program count the results the engine reported: after any sequence of
  calls of the callback, and in whatever order Go visits its maps, the text of \<^verbatim>\<open>Write\<close> parses, has no series
  twice, and for every configured upstream, named by text that denotes its address and port, a state
  has the number of its reports modulo 2^64, or no sample, which happens only if that number is zero.
\<close>

lemma program_exports_results:
  assumes "start_program decode frac files stat_ok fs now path = Inr (cfg, p)"
    and "\<forall>u\<in>set (Upstreams cfg). ascii (addr_zone (cu_addr u))"
    and "\<forall>x\<in>set log. fst x < length (rp_upstreams p) \<and> ascii (snd (snd x))"
    and "valid_order (program_metrics p log) ord"
  shows "\<exists>t ss. Metrics_Write high ord uptime (program_metrics p log) = Some t \<and> scrape t = Some ss \<and> distinct (map series_of ss)
    \<and> (\<forall>i<length (rp_upstreams p). \<exists>label.
        parse_addr_port label = Some (cu_addr (Upstreams cfg ! i), nat (cu_port (Upstreams cfg ! i)))
        \<and> (\<forall>st. exports_count ss label st (log_count log i st)))"
proof -
  define m where "m = program_metrics p log"
  define ss where "ss = samples ord uptime m"
  have names: "\<forall>x\<in>set log. ascii (snd (snd x))" and idx: "\<forall>x\<in>set log. fst x < length (rp_upstreams p)" using assms(3) by auto
  note ok = program_metrics_ok [OF assms(1,2) names, folded m_def]
  note ord = assms(4) [folded m_def]
  obtain t where t: "Metrics_Write high ord uptime m = Some t" "scrape t = Some ss"
    using scrape_Write [OF ok(1) ord ok(2)] unfolding ss_def by blast
  have "\<exists>label. parse_addr_port label = Some (cu_addr (Upstreams cfg ! i), nat (cu_port (Upstreams cfg ! i)))
      \<and> (\<forall>st. exports_count ss label st (log_count log i st))" if i: "i < length (rp_upstreams p)" for i
  proof (rule exI [of _ "um_addr (met_upstreams m ! i)"], rule conjI)
    have len: "length (met_upstreams m) = length (rp_upstreams p)" using arg_cong [OF ok(4), of length] by simp
    have "um_addr (met_upstreams m ! i) = addr_port_string (up_addr (rp_upstreams p ! i))"
      using arg_cong [OF ok(4), of "\<lambda>xs. xs ! i"] i len by simp
    then show "parse_addr_port (um_addr (met_upstreams m ! i)) = Some (cu_addr (Upstreams cfg ! i), nat (cu_port (Upstreams cfg ! i)))"
      using upstream_label [OF assms(1) i] by simp
    have "tally (um_results (met_upstreams m ! i)) (State_String st) = of_nat (log_count log i st)" for st
      using program_metrics_count [OF assms(1) idx i, of st, folded m_def] by (simp add: result_count_def)
    then show "\<forall>st. exports_count ss (um_addr (met_upstreams m ! i)) st (log_count log i st)"
      unfolding ss_def using exports_count_tally [OF ord ok(3)] i len by simp
  qed
  moreover have "distinct (map series_of ss)" unfolding ss_def by (rule samples_distinct [OF ord ok(3)])
  ultimately show ?thesis using t unfolding m_def by blast
qed

section \<open>Observations\<close>

text \<open>
  A sweep interval of zero passes validation, and the janitor that \<^verbatim>\<open>main\<close> starts with it panics.
\<close>

theorem zero_sweep_interval_panics:
  "case build no_frac (sample_raw ''0s'') of
     Inl e \<Rightarrow> False
   | Inr c \<Rightarrow> SweepInterval c = 0 \<and> (\<forall>cache es. RunJanitor cache (SweepInterval c) es = None)"
proof -
  have "case build no_frac (sample_raw ''0s'') of Inl e \<Rightarrow> False | Inr c \<Rightarrow> SweepInterval c = 0" by code_simp
  then show ?thesis by (simp add: RunJanitor_def split: sum.splits)
qed

text \<open>
  A maximal TTL of 2^32 seconds, a valid duration, becomes the bound zero, so that every positive
  answer is cached with TTL zero or, below the minimum, with the minimum.
\<close>

theorem huge_max_ttl_wraps:
  "valid_ttls (Defaults\<lparr>MaxTTL := 2 ^ 32 * second\<rparr>) \<and> sv_MaxTTL (service_of (Defaults\<lparr>MaxTTL := 2 ^ 32 * second\<rparr>)) = 0
   \<and> clamp 300 (sv_MinTTL (service_of Defaults)) 0 = 0"
  by code_simp

end
