(* ===== verification/Listen.thy ===== *)
theory Listen
  imports Server Exposition
begin

text \<open>
  The life of the server in \<^verbatim>\<open>internal/server/server.go\<close>: \<^verbatim>\<open>ListenAndServe\<close> binds the configured transports,
  serves until the context is done and drains. The two listen functions of package \<^verbatim>\<open>net\<close> are arguments: they
  yield the local address of the new socket, or nothing when they fail. The intake loops and the handlers are
  the state machine of theory Server, run here beside the sockets they use.
\<close>

section \<open>Binding\<close>

definition drainGrace :: int where [go_consts]: "drainGrace = second"

text \<open>\<^verbatim>\<open>net.JoinHostPort\<close>: a host with a colon is an IPv6 literal and is put in brackets.\<close>

definition join_host_port :: "gostring \<Rightarrow> gostring \<Rightarrow> gostring" where
  "join_host_port host port = (if CHR '':'' \<in> set host then ''['' @ host @ '']:'' @ port else host @ '':'' @ port)"

datatype transport = UDPTransport | TCPTransport

record sockets =
  udpConn :: "gostring option"
  tcpLn :: "gostring option"
  udp_open :: bool
  tcp_open :: bool

definition no_sockets :: sockets where
  "no_sockets = \<lparr>udpConn = None, tcpLn = None, udp_open = False, tcp_open = False\<rparr>"

text \<open>
  The first part of \<^verbatim>\<open>ListenAndServe\<close>. The result is the failed transport or the address sent on \<^verbatim>\<open>ready\<close>,
  which is absent when no transport is configured.
\<close>

definition bind_udp :: "(gostring \<Rightarrow> gostring option) \<Rightarrow> Config \<Rightarrow> gostring \<Rightarrow> sockets \<Rightarrow> (sockets \<times> gostring option) option" where
  "bind_udp listenPacket cfg addr s =
     (if UDP cfg then
        (case listenPacket addr of
           None \<Rightarrow> None
         | Some local \<Rightarrow> Some (s\<lparr>udpConn := Some local, udp_open := True\<rparr>, Some local))
      else Some (s, None))"

definition bind_tcp :: "(gostring \<Rightarrow> gostring option) \<Rightarrow> Config \<Rightarrow> gostring \<Rightarrow> gostring option \<Rightarrow> sockets
    \<Rightarrow> sockets \<times> (transport + gostring option)" where
  "bind_tcp listen cfg addr bound s =
     (if TCP cfg then
        (let tcpAddr = (case bound of Some b \<Rightarrow> b | None \<Rightarrow> addr)
         in case listen tcpAddr of
              None \<Rightarrow> (if udpConn s \<noteq> None then s\<lparr>udp_open := False\<rparr> else s, Inl TCPTransport)
            | Some local \<Rightarrow> (s\<lparr>tcpLn := Some local, tcp_open := True\<rparr>, Inr (Some local)))
      else (s, Inr bound))"

definition ListenAndServe_bind :: "(gostring \<Rightarrow> gostring option) \<Rightarrow> (gostring \<Rightarrow> gostring option) \<Rightarrow> Config
    \<Rightarrow> sockets \<times> (transport + gostring option)" where
  "ListenAndServe_bind listenPacket listen cfg =
     (let addr = join_host_port (Bind cfg) (itoa (Port cfg))
      in case bind_udp listenPacket cfg addr no_sockets of
           None \<Rightarrow> (no_sockets, Inl UDPTransport)
         | Some (s, bound) \<Rightarrow> bind_tcp listen cfg addr bound s)"

section \<open>Serving and draining\<close>

text \<open>
  \<^verbatim>\<open>lf_deadline\<close>: the read deadline of the UDP socket has been set to the present, so that reads fail.
  \<^verbatim>\<open>lf_closer\<close>: the goroutine that waits for the context has done its work.
\<close>

record life =
  lf_intake :: intake
  lf_sockets :: sockets
  lf_deadline :: bool
  lf_closer :: bool
  lf_returned :: bool

text \<open>
  \<^verbatim>\<open>Timer elapsed\<close>: the drain timer fired; \<^verbatim>\<open>Closer\<close>: the goroutine that stops the intake; \<^verbatim>\<open>Return\<close>: the end of
  \<^verbatim>\<open>ListenAndServe\<close>.
\<close>

datatype life_op = Loop intake_op | Timer int | Closer | Return

text \<open>The sum of two durations, in 64 bits.\<close>

definition drain_deadline :: "Config \<Rightarrow> int" where
  "drain_deadline cfg = int64 (OverallTimeout cfg + drainGrace)"

definition on_intake :: "Config \<Rightarrow> intake_op \<Rightarrow> life \<Rightarrow> life option" where
  "on_intake cfg x s = map_option (\<lambda>i. s\<lparr>lf_intake := i\<rparr>) (intake_step cfg x (lf_intake s))"

text \<open>
  A read that begins after the deadline and an accept that begins after the close fail at once; those that have begun
  before may still return a datagram or a connection. The drain timer is the step \<^verbatim>\<open>Timer\<close>.
\<close>

fun life_step :: "Config \<Rightarrow> life_op \<Rightarrow> life \<Rightarrow> life option" where
  "life_step cfg (Loop x) s =
     (case x of
        UdpOp UdpRead \<Rightarrow> (if lf_deadline s then None else on_intake cfg x s)
      | TcpOp TcpAccept \<Rightarrow> (if tcp_open (lf_sockets s) then on_intake cfg x s else None)
      | DrainTimesOut \<Rightarrow> None
      | _ \<Rightarrow> on_intake cfg x s)"
| "life_step cfg (Timer elapsed) s =
     (if elapsed < drain_deadline cfg then None else on_intake cfg DrainTimesOut s)"
| "life_step cfg Closer s =
     (if \<not> stop (lf_intake s) \<or> lf_closer s then None
      else Some (s\<lparr>lf_closer := True,
        lf_deadline := (if udpConn (lf_sockets s) \<noteq> None then True else lf_deadline s),
        lf_sockets := (if tcpLn (lf_sockets s) \<noteq> None then (lf_sockets s)\<lparr>tcp_open := False\<rparr> else lf_sockets s)\<rparr>))"
| "life_step cfg Return s =
     (if lf_returned s \<or> drain_state (lf_intake s) \<notin> {Drained, DrainTimeout} then None
      else Some (s\<lparr>lf_returned := True,
        lf_sockets := (if udpConn (lf_sockets s) \<noteq> None then (lf_sockets s)\<lparr>udp_open := False\<rparr> else lf_sockets s)\<rparr>))"

definition life_init :: "Config \<Rightarrow> Metrics \<Rightarrow> sockets \<Rightarrow> life" where
  "life_init cfg m so = \<lparr>lf_intake = intake_init cfg m, lf_sockets = so, lf_deadline = False, lf_closer = False, lf_returned = False\<rparr>"

fun life_run :: "Config \<Rightarrow> life_op list \<Rightarrow> life \<Rightarrow> life option" where
  "life_run cfg [] s = Some s"
| "life_run cfg (x # xs) s = (case life_step cfg x s of None \<Rightarrow> None | Some s' \<Rightarrow> life_run cfg xs s')"

text \<open>The states of a server that has bound its sockets.\<close>

inductive life_reach :: "Config \<Rightarrow> Metrics \<Rightarrow> sockets \<Rightarrow> life \<Rightarrow> bool" for cfg m so where
  init: "life_reach cfg m so (life_init cfg m so)"
| step: "life_reach cfg m so s \<Longrightarrow> life_step cfg x s = Some s' \<Longrightarrow> life_reach cfg m so s'"

section \<open>The listening address\<close>

lemma colon_string6: "CHR '':'' \<in> set (addr_string (Addr6 w z))"
proof (cases "is4in6 (Addr6 w z)")
  case False
  obtain ds r where "string6 (groups16 (be_bytes 16 w)) = ds @ CHR '':'' # r" using string6_scan [of "be_bytes 16 w"] by auto
  then show ?thesis using False by simp
qed simp

lemma colon_string4: "CHR '':'' \<notin> set (addr_string (Addr4 w))"
proof -
  have "CHR '':'' \<notin> set (itoa (uint b))" for b :: u8 using itoa_byte [of b] digits_no_colon by blast
  then show ?thesis
    using set_join_sep [of "''.''" "map (itoa \<circ> uint) (be_bytes 4 (ucast w))"] by (auto simp: string4_def)
qed

text \<open>Host and port of a configuration with a literal address make the text of an address-port pair.\<close>

lemma join_host_port_string:
  assumes "a \<noteq> AddrZero"
  shows "join_host_port (addr_string a) (itoa (uint p)) = addr_port_string \<lparr>ap_addr = a, ap_port = p\<rparr>"
  using assms colon_string4 colon_string6
  by (cases a) (simp_all add: join_host_port_def addr_port_string_def del: addr_string.simps)

section \<open>Sockets\<close>

text \<open>The sockets of a server that has started.\<close>

definition bound_sockets :: "Config \<Rightarrow> sockets \<Rightarrow> bool" where
  "bound_sockets cfg so \<longleftrightarrow> (udpConn so \<noteq> None) = UDP cfg \<and> (tcpLn so \<noteq> None) = TCP cfg \<and> udp_open so = UDP cfg \<and> tcp_open so = TCP cfg"

lemma bind_sockets:
  "case ListenAndServe_bind listenPacket listen cfg of
     (so, Inl t) \<Rightarrow> \<not> udp_open so \<and> \<not> tcp_open so
   | (so, Inr bound) \<Rightarrow> bound_sockets cfg so"
  by (auto simp: ListenAndServe_bind_def bind_udp_def bind_tcp_def no_sockets_def bound_sockets_def Let_def split: option.splits)

lemma bind_outcome:
  assumes "addr = join_host_port (Bind cfg) (itoa (Port cfg))" "UDP cfg \<or> TCP cfg"
  shows "case ListenAndServe_bind listenPacket listen cfg of
       (so, Inl t) \<Rightarrow> \<not> udp_open so \<and> \<not> tcp_open so
         \<and> (t = UDPTransport \<longrightarrow> UDP cfg \<and> listenPacket addr = None)
         \<and> (t = TCPTransport \<longrightarrow> TCP cfg \<and> (if UDP cfg then \<exists>b. listenPacket addr = Some b \<and> listen b = None else listen addr = None))
     | (so, Inr bound) \<Rightarrow> bound_sockets cfg so
         \<and> (UDP cfg \<longrightarrow> udpConn so = listenPacket addr)
         \<and> (TCP cfg \<longrightarrow> tcpLn so = listen (case udpConn so of Some b \<Rightarrow> b | None \<Rightarrow> addr))
         \<and> bound \<noteq> None \<and> bound = (if TCP cfg then tcpLn so else udpConn so)"
  using assms
  by (cases "UDP cfg"; cases "TCP cfg"; cases "listenPacket addr"; cases "listen addr"; cases "listen (the (listenPacket addr))")
    (simp_all add: ListenAndServe_bind_def bind_udp_def bind_tcp_def no_sockets_def bound_sockets_def Let_def)

definition life_inv :: "Config \<Rightarrow> life \<Rightarrow> bool" where
  "life_inv cfg s \<longleftrightarrow> intake_inv cfg (lf_intake s)
     \<and> (udp_loop (lf_intake s) \<longrightarrow> UDP cfg) \<and> (tcp_loop (lf_intake s) \<longrightarrow> TCP cfg)
     \<and> (udpConn (lf_sockets s) \<noteq> None) = UDP cfg \<and> (tcpLn (lf_sockets s) \<noteq> None) = TCP cfg
     \<and> udp_open (lf_sockets s) = (UDP cfg \<and> \<not> lf_returned s) \<and> tcp_open (lf_sockets s) = (TCP cfg \<and> \<not> lf_closer s)
     \<and> lf_deadline s = (UDP cfg \<and> lf_closer s) \<and> (lf_closer s \<longrightarrow> stop (lf_intake s))
     \<and> (lf_returned s \<longrightarrow> drain_state (lf_intake s) \<in> {Drained, DrainTimeout})"

lemma life_inv_init: "bound_sockets cfg so \<Longrightarrow> life_inv cfg (life_init cfg m so)"
  by (auto simp: life_inv_def life_init_def bound_sockets_def intake_inv_def intake_init_def intake_defs)

text \<open>What an intake step leaves alone.\<close>

lemma intake_step_frame:
  assumes "intake_step cfg x s = Some s'"
  shows "(udp_loop s' \<longrightarrow> udp_loop s) \<and> (tcp_loop s' \<longrightarrow> tcp_loop s) \<and> (stop s \<longrightarrow> stop s')
    \<and> (drain_state s \<in> {Drained, DrainTimeout} \<longrightarrow> drain_state s' = drain_state s)"
proof (cases x)
  case (UdpOp y)
  then show ?thesis using serveUDP_effect [of cfg y s s'] assms by (auto simp: tcp_loop_def)
next
  case (TcpOp y)
  then show ?thesis using serveTCP_effect [of cfg y s s'] assms by (auto simp: udp_loop_def)
qed (use assms in \<open>auto simp: udp_loop_def tcp_loop_def split: if_splits\<close>)

lemma on_intake_inv [inv_intros]:
  assumes "life_inv cfg s" "on_intake cfg x s = Some s'"
  shows "life_inv cfg s'"
proof -
  obtain i where i: "intake_step cfg x (lf_intake s) = Some i" "s' = s\<lparr>lf_intake := i\<rparr>"
    using assms(2) by (auto simp: on_intake_def)
  then show ?thesis
    using assms(1) intake_inv_step [OF _ i(1)] intake_step_frame [OF i(1)] by (auto simp: life_inv_def)
qed

lemma life_inv_step [inv_intros]:
  assumes "life_inv cfg s" "life_step cfg x s = Some s'"
  shows "life_inv cfg s'"
proof (cases x)
  case (Loop y)
  then show ?thesis using assms on_intake_inv by (cases y) (auto split: if_splits udp_op.splits tcp_op.splits)
next
  case Closer
  then have "stop (lf_intake s)" "s' = s\<lparr>lf_closer := True, lf_deadline := (if udpConn (lf_sockets s) \<noteq> None then True else lf_deadline s),
      lf_sockets := (if tcpLn (lf_sockets s) \<noteq> None then (lf_sockets s)\<lparr>tcp_open := False\<rparr> else lf_sockets s)\<rparr>"
    using assms(2) by (simp_all split: if_splits)
  then show ?thesis using assms(1) by (cases "UDP cfg"; cases "TCP cfg") (simp_all add: life_inv_def)
next
  case Return
  then have "drain_state (lf_intake s) \<in> {Drained, DrainTimeout}"
    "s' = s\<lparr>lf_returned := True, lf_sockets := (if udpConn (lf_sockets s) \<noteq> None then (lf_sockets s)\<lparr>udp_open := False\<rparr> else lf_sockets s)\<rparr>"
    using assms(2) by (simp_all split: if_splits)
  then show ?thesis using assms(1) by (cases "UDP cfg") (simp_all add: life_inv_def)
qed (use assms on_intake_inv in \<open>auto split: if_splits\<close>)

lemma life_inv_reach:
  assumes "life_reach cfg m so s" "bound_sockets cfg so"
  shows "life_inv cfg s"
  using assms(1) by induction (use assms(2) life_inv_init life_inv_step in auto)

lemma life_run_reach: "life_reach cfg m so s \<Longrightarrow> life_run cfg xs s = Some s' \<Longrightarrow> life_reach cfg m so s'"
  by (induction xs arbitrary: s) (auto split: option.splits intro: life_reach.step simp del: life_step.simps)

section \<open>Shutdown\<close>

text \<open>
  The steps that are left once the intake has been stopped, at most: a loop may still have an item in hand, and a handler to start
  for it, which takes two steps itself.
\<close>

fun phase_work :: "drain \<Rightarrow> nat" where
  "phase_work Serving = 2"
| "phase_work Draining = 1"
| "phase_work _ = 0"

fun udp_work :: "udp_point \<Rightarrow> nat" where
  "udp_work UdpTop = 1"
| "udp_work UdpInRead = 7"
| "udp_work (UdpHas r) = 6"
| "udp_work (UdpAsks req) = 5"
| "udp_work (UdpHolds req) = 4"
| "udp_work UdpEnded = 0"

fun tcp_work :: "tcp_point \<Rightarrow> nat" where
  "tcp_work TcpTop = 1"
| "tcp_work TcpInAccept = 6"
| "tcp_work TcpAsks = 5"
| "tcp_work TcpHolds = 4"
| "tcp_work TcpEnded = 0"

lemma loop_work [simp]: "udp_work u = 0 \<longleftrightarrow> u = UdpEnded" "tcp_work t = 0 \<longleftrightarrow> t = TcpEnded"
  by (cases u; simp) (cases t; simp)

definition intake_work :: "intake \<Rightarrow> nat" where
  "intake_work i = 2 * handlers i + exiting i + udp_work (udp_at i) + tcp_work (tcp_at i) + phase_work (drain_state i)"

definition shutdown_work :: "life \<Rightarrow> nat" where
  "shutdown_work s = intake_work (lf_intake s) + of_bool (\<not> lf_returned s)"

text \<open>The steps that let new items in.\<close>

definition is_arrival :: "intake_op \<Rightarrow> bool" where
  "is_arrival x \<longleftrightarrow> x = UdpOp UdpRead \<or> x = TcpOp TcpAccept"

lemma serveUDP_work: "stop i \<Longrightarrow> x \<noteq> UdpRead \<Longrightarrow> serveUDP cfg x i = Some i' \<Longrightarrow> intake_work i' < intake_work i"
  by (cases x; cases "udp_at i") (auto simp: intake_work_def start_handler_def drop_query_def split: if_splits option.splits)

lemma serveTCP_work: "stop i \<Longrightarrow> x \<noteq> TcpAccept \<Longrightarrow> serveTCP cfg x i = Some i' \<Longrightarrow> intake_work i' < intake_work i"
  by (cases x) (auto simp: intake_work_def start_handler_def drop_query_def split: if_splits)

lemma intake_work_step:
  assumes "stop i" "\<not> is_arrival x" "intake_step cfg x i = Some i'"
  shows "intake_work i' < intake_work i"
proof (cases x)
  case (UdpOp y)
  then show ?thesis using assms serveUDP_work by (auto simp: is_arrival_def)
next
  case (TcpOp y)
  then show ?thesis using assms serveTCP_work by (auto simp: is_arrival_def)
qed (use assms in \<open>auto simp: intake_work_def split: if_splits\<close>)

lemma closed_step:
  assumes "life_inv cfg s" "lf_closer s" "life_step cfg x s = Some s'"
  shows "lf_closer s' \<and> shutdown_work s' < shutdown_work s"
proof -
  have stop: "stop (lf_intake s)" using assms(1,2) by (simp add: life_inv_def)
  have quiet: "lf_closer s' \<and> shutdown_work s' < shutdown_work s" if "on_intake cfg y s = Some s'" "\<not> is_arrival y" for y
    using intake_work_step [OF stop that(2)] that(1) assms(2) by (auto simp: on_intake_def shutdown_work_def)
  have shut: "\<not> tcp_open (lf_sockets s)" "lf_deadline s \<or> \<not> udp_loop (lf_intake s)" using assms(1,2) by (auto simp: life_inv_def)
  show ?thesis
  proof (cases x)
    case (Loop y)
    show ?thesis
    proof (cases "is_arrival y")
      case True
      then show ?thesis using assms(3) shut Loop ended_loops(1) [of "lf_intake s" cfg UdpRead]
        by (auto simp: is_arrival_def on_intake_def simp del: serveUDP.simps split: if_splits)
    next
      case False
      then have "on_intake cfg y s = Some s'"
        using assms(3) Loop by (cases y) (auto simp: is_arrival_def simp del: serveUDP.simps serveTCP.simps split: if_splits udp_op.splits tcp_op.splits)
      then show ?thesis using quiet False by blast
    qed
  next
    case (Timer e)
    then show ?thesis using assms(3) quiet [of DrainTimesOut] by (auto simp: is_arrival_def split: if_splits)
  qed (use assms(2,3) in \<open>auto simp: shutdown_work_def split: if_splits\<close>)
qed

lemma closed_run:
  assumes "life_inv cfg s" "lf_closer s" "life_run cfg xs s = Some s'"
  shows "length xs + shutdown_work s' \<le> shutdown_work s \<and> life_inv cfg s' \<and> lf_closer s'"
  using assms
proof (induction xs arbitrary: s)
  case (Cons x xs)
  then obtain t where t: "life_step cfg x s = Some t" "life_run cfg xs t = Some s'" by (auto split: option.splits)
  have "life_inv cfg t" "lf_closer t \<and> shutdown_work t < shutdown_work s"
    using life_inv_step closed_step Cons.prems(1,2) t(1) by blast+
  then show ?case using Cons.IH [OF _ _ t(2)] by auto
qed simp

lemma udp_progress: "stop i \<Longrightarrow> udp_loop i \<Longrightarrow> \<exists>x. x \<noteq> UdpRead \<and> serveUDP cfg x i \<noteq> None"
proof (cases "udp_at i")
  case (UdpHas r)
  then have "serveUDP cfg UdpParse i \<noteq> None" by (cases r) simp_all
  then show ?thesis by blast
next
  case (UdpAsks req)
  then have "serveUDP cfg UdpAdmit i \<noteq> None" by simp
  then show ?thesis by blast
next
  case (UdpHolds req)
  then have "serveUDP cfg UdpSpawn i \<noteq> None" by simp
  then show ?thesis by blast
qed (auto simp: udp_loop_def intro!: exI [of _ UdpReadError])

lemma tcp_progress: "stop i \<Longrightarrow> tcp_loop i \<Longrightarrow> \<exists>x. x \<noteq> TcpAccept \<and> serveTCP cfg x i \<noteq> None"
proof (cases "tcp_at i")
  case TcpAsks
  then have "serveTCP cfg (TcpGiveUp tcpAdmitTimeout) i \<noteq> None" by simp
  then show ?thesis by blast
next
  case TcpHolds
  then have "serveTCP cfg TcpSpawn i \<noteq> None" by simp
  then show ?thesis by blast
qed (auto simp: tcp_loop_def intro!: exI [of _ TcpAcceptError])

lemma loop_step:
  assumes "\<not> is_arrival x" "x \<noteq> DrainTimesOut"
  shows "life_step cfg (Loop x) s = on_intake cfg x s"
  using assms by (cases x) (auto simp: is_arrival_def split: udp_op.splits tcp_op.splits)

lemma closed_progress:
  assumes "life_inv cfg s" "lf_closer s" "shutdown_work s > 0"
  shows "\<exists>x. life_step cfg x s \<noteq> None"
proof -
  have stop: "stop (lf_intake s)" using assms(1,2) by (simp add: life_inv_def)
  define i where "i = lf_intake s"
  have on: "life_step cfg (Loop x) s \<noteq> None" if "\<not> is_arrival x" "x \<noteq> DrainTimesOut" "intake_step cfg x i \<noteq> None" for x
    using loop_step [OF that(1,2)] that(3) by (simp add: on_intake_def i_def)
  consider "handlers i \<noteq> 0" | "exiting i \<noteq> 0" | "udp_loop i" | "tcp_loop i"
    | "\<not> udp_loop i" "\<not> tcp_loop i" "drain_state i = Serving" | "drain_state i = Draining"
    | "drain_state i \<in> {Drained, DrainTimeout}" "\<not> lf_returned s"
    using assms(3) by (cases "drain_state i"; cases "lf_returned s")
      (auto simp: shutdown_work_def intake_work_def udp_loop_def tcp_loop_def simp flip: i_def neq0_conv)
  then show ?thesis
  proof cases
    case 1
    then have "life_step cfg (Loop HandlerDone) s \<noteq> None" by (intro on) (simp_all add: is_arrival_def)
    then show ?thesis by blast
  next
    case 2
    then have "life_step cfg (Loop HandlerExit) s \<noteq> None" by (intro on) (simp_all add: is_arrival_def)
    then show ?thesis by blast
  next
    case 3
    then obtain x where "x \<noteq> UdpRead" "serveUDP cfg x i \<noteq> None" using udp_progress stop i_def by metis
    then have "life_step cfg (Loop (UdpOp x)) s \<noteq> None" by (intro on) (simp_all add: is_arrival_def)
    then show ?thesis by blast
  next
    case 4
    then obtain x where "x \<noteq> TcpAccept" "serveTCP cfg x i \<noteq> None" using tcp_progress stop i_def by metis
    then have "life_step cfg (Loop (TcpOp x)) s \<noteq> None" by (intro on) (simp_all add: is_arrival_def)
    then show ?thesis by blast
  next
    case 5
    then have "life_step cfg (Loop AwaitLoops) s \<noteq> None" using stop by (intro on) (simp_all add: is_arrival_def i_def)
    then show ?thesis by blast
  next
    case 6
    then have "life_step cfg (Timer (drain_deadline cfg)) s \<noteq> None" by (simp add: on_intake_def i_def)
    then show ?thesis by blast
  next
    case 7
    then have "life_step cfg Return s \<noteq> None" by (simp add: i_def)
    then show ?thesis by blast
  qed
qed

text \<open>The time before the drain timer fires; sums that do not fit into 64 bits are negative.\<close>

lemma drain_deadline_fits: "0 \<le> OverallTimeout cfg \<Longrightarrow> OverallTimeout cfg + drainGrace < 2 ^ 63 \<Longrightarrow> drain_deadline cfg = OverallTimeout cfg + drainGrace"
  unfolding drain_deadline_def by (rule int64_id) (simp_all add: go_consts)

text \<open>
  An overall timeout of almost 2^63 nanoseconds, which validation accepts, makes the sum negative: the drain timer fires at once.
\<close>

lemma drain_deadline_wraps: "valid_resolve (Defaults\<lparr>OverallTimeout := 2 ^ 63 - 1\<rparr>) \<and> drain_deadline (Defaults\<lparr>OverallTimeout := 2 ^ 63 - 1\<rparr>) < 0"
  by code_simp

lemma shutdown_bound: "shutdown_work s \<le> 2 * handlers (lf_intake s) + exiting (lf_intake s) + 16"
proof -
  have "udp_work u \<le> 7" "tcp_work t \<le> 6" "phase_work d \<le> 2" for u t d by (cases u; cases t; cases d; simp)+
  note this(1) [of "udp_at (lf_intake s)"] this(2) [of "tcp_at (lf_intake s)"] this(3) [of "drain_state (lf_intake s)"]
  then show ?thesis by (simp add: shutdown_work_def intake_work_def of_bool_def)
qed

lemma no_work:
  assumes "shutdown_work s = 0"
  shows "lf_returned s \<and> \<not> udp_loop (lf_intake s) \<and> \<not> tcp_loop (lf_intake s) \<and> handlers (lf_intake s) = 0 \<and> exiting (lf_intake s) = 0"
  using assms by (simp add: shutdown_work_def intake_work_def udp_loop_def tcp_loop_def)

lemma closed_sockets:
  assumes "life_inv cfg s" "lf_closer s"
  shows "udp_open (lf_sockets s) = (UDP cfg \<and> \<not> lf_returned s)" "\<not> tcp_open (lf_sockets s)"
    "lf_returned s \<Longrightarrow> handlers (lf_intake s) + exiting (lf_intake s) > 0 \<Longrightarrow> drain_state (lf_intake s) = DrainTimeout"
  using assms by (auto simp: life_inv_def intake_inv_def)

lemma intake_keeps_time:
  assumes "intake_step cfg y i = Some i'" "y \<noteq> DrainTimesOut" "drain_state i \<noteq> DrainTimeout"
  shows "drain_state i' \<noteq> DrainTimeout"
proof (cases y)
  case (UdpOp z)
  then show ?thesis using assms serveUDP_effect [of cfg z i i'] by simp
next
  case (TcpOp z)
  then show ?thesis using assms serveTCP_effect [of cfg z i i'] by simp
qed (use assms in \<open>auto split: if_splits\<close>)

lemma timeout_step:
  assumes "life_step cfg x s = Some s'" "drain_state (lf_intake s) \<noteq> DrainTimeout" "drain_state (lf_intake s') = DrainTimeout"
  shows "\<exists>elapsed. x = Timer elapsed \<and> (0 \<le> OverallTimeout cfg \<and> OverallTimeout cfg + second < 2 ^ 63 \<longrightarrow> OverallTimeout cfg + second \<le> elapsed)"
proof (cases x)
  case (Loop y)
  then obtain i where i: "intake_step cfg y (lf_intake s) = Some i" "lf_intake s' = i" "y \<noteq> DrainTimesOut"
    using assms(1) by (auto simp: on_intake_def simp del: intake_step.simps split: intake_op.splits udp_op.splits tcp_op.splits if_splits)
  then show ?thesis using intake_keeps_time [OF i(1,3) assms(2)] assms(3) by simp
next
  case (Timer e)
  then show ?thesis using assms(1) drain_deadline_fits [of cfg] by (auto simp: drainGrace_def split: if_splits)
qed (use assms in \<open>auto split: if_splits\<close>)

section \<open>Properties\<close>

definition sample_listen :: "gostring \<Rightarrow> gostring option" where
  "sample_listen addr = (if addr = ''127.0.0.1:53'' then Some addr else None)"

definition sample_bound :: sockets where
  "sample_bound = \<lparr>udpConn = Some ''127.0.0.1:53'', tcpLn = Some ''127.0.0.1:53'', udp_open = True, tcp_open = True\<rparr>"

definition sample_life_run :: "life_op list" where
  "sample_life_run = [Loop (UdpOp UdpRead), Loop (TcpOp TcpAccept), Loop (TcpOp TcpGet), Loop (UdpOp (UdpGet (Some sample_request))), Loop Stop, Closer]"

definition sample_shutdown :: "life_op list" where
  "sample_shutdown = [Loop (UdpOp UdpParse), Loop (UdpOp UdpAdmit), Loop (UdpOp UdpSpawn), Loop (UdpOp UdpReadError), Loop HandlerDone,
     Loop (TcpOp TcpAdmit), Loop (TcpOp TcpSpawn), Loop (TcpOp TcpAcceptError), Loop AwaitLoops, Loop HandlerExit, Loop HandlerDone, Loop HandlerExit,
     Loop DrainDone, Return]"

text \<open>
  C30. Binding is all or nothing: when a listen call fails no socket stays open, in particular the UDP socket is
  closed when TCP fails; otherwise exactly the configured transports are open, UDP at the configured address and
  TCP at the address the UDP socket got, or at the configured one without UDP, and \<^verbatim>\<open>ready\<close> receives the address
  of the last socket. For a literal bind address the text passed to the listen calls denotes that address
  and port.
\<close>

theorem bind_all_or_nothing:
  assumes "valid_listen cfg" "Bind cfg = addr_string a" "a \<noteq> AddrZero"
  defines "addr \<equiv> join_host_port (Bind cfg) (itoa (Port cfg))"
  shows "parse_addr_port addr = Some (a, nat (Port cfg)) \<and>
    (case ListenAndServe_bind listenPacket listen cfg of
       (so, Inl t) \<Rightarrow> \<not> udp_open so \<and> \<not> tcp_open so
         \<and> (t = UDPTransport \<longrightarrow> UDP cfg \<and> listenPacket addr = None)
         \<and> (t = TCPTransport \<longrightarrow> TCP cfg \<and> (if UDP cfg then \<exists>b. listenPacket addr = Some b \<and> listen b = None else listen addr = None))
     | (so, Inr bound) \<Rightarrow> bound_sockets cfg so
         \<and> (UDP cfg \<longrightarrow> udpConn so = listenPacket addr)
         \<and> (TCP cfg \<longrightarrow> tcpLn so = listen (case udpConn so of Some b \<Rightarrow> b | None \<Rightarrow> addr))
         \<and> bound \<noteq> None \<and> bound = (if TCP cfg then tcpLn so else udpConn so))"
proof -
  have port: "0 \<le> Port cfg" "Port cfg < 65536" "UDP cfg \<or> TCP cfg" using assms(1) by (auto simp: valid_listen_def)
  then have u: "uint (word_of_int (Port cfg) :: u16) = Port cfg" by (simp add: uint_word_of_int)
  have "addr = addr_port_string \<lparr>ap_addr = a, ap_port = word_of_int (Port cfg)\<rparr>"
    using join_host_port_string [OF assms(3), of "word_of_int (Port cfg)"] by (simp add: addr_def assms(2) u)
  then have "parse_addr_port addr = Some (a, unat (word_of_int (Port cfg) :: u16))" using parse_addr_port_string assms(3) by simp
  then have "parse_addr_port addr = Some (a, nat (Port cfg))" by (simp only: unat_eq_nat_uint u)
  from conjI [OF this bind_outcome [OF addr_def [THEN meta_eq_to_obj_eq] port(3)]] show ?thesis .
qed

theorem bind_all_or_nothing_witness:
  "parse_addr_port (join_host_port ''127.0.0.1'' (itoa 53)) = Some (Addr4 0x7f000001, 53) \<and> \<not> udp_open (fst (ListenAndServe_bind Some (\<lambda>_. None) (Defaults\<lparr>Bind := ''127.0.0.1'', Port := 53\<rparr>)))"
proof -
  have b: "Bind (Defaults\<lparr>Bind := ''127.0.0.1'', Port := 53\<rparr>) = addr_string (Addr4 0x7f000001)"
    "valid_listen (Defaults\<lparr>Bind := ''127.0.0.1'', Port := 53\<rparr>)" "Port (Defaults\<lparr>Bind := ''127.0.0.1'', Port := 53\<rparr>) = 53"
    by code_simp+
  have r: "ListenAndServe_bind Some (\<lambda>_. None) (Defaults\<lparr>Bind := ''127.0.0.1'', Port := 53\<rparr>)
      = (\<lparr>udpConn = Some ''127.0.0.1:53'', tcpLn = None, udp_open = False, tcp_open = False\<rparr>, Inl TCPTransport)"
    by code_simp
  show ?thesis using bind_all_or_nothing [OF b(2,1), of Some "\<lambda>_. None"] b(3) r by simp
qed

text \<open>
  C29. Shutdown ends, and orderly: once the goroutine that watches the context has stopped the intake, every run
  takes at most the remaining work in steps: two per handler, one per exiting handler and sixteen for the two loops, each of which may still
  have one datagram or connection in hand and start a handler for it, the drain and the return; a run that cannot continue has returned
  with both loops and all handlers ended. Until the server returns its UDP socket stays open, so that handlers can still
  reply, and it returns with handlers left only after the drain timer; where the overall timeout plus one second fits into
  64 bits, the timer does not fire before that time has passed.
\<close>

theorem shutdown_terminates:
  assumes "life_reach cfg m so s" "bound_sockets cfg so" "lf_closer s" "life_run cfg xs s = Some s'"
  shows "length xs + shutdown_work s' \<le> shutdown_work s
    \<and> shutdown_work s \<le> 2 * handlers (lf_intake s) + exiting (lf_intake s) + 16
    \<and> ((\<forall>x. life_step cfg x s' = None) \<longleftrightarrow> shutdown_work s' = 0)
    \<and> (shutdown_work s' = 0 \<longrightarrow> lf_returned s' \<and> \<not> udp_loop (lf_intake s') \<and> \<not> tcp_loop (lf_intake s')
        \<and> handlers (lf_intake s') = 0 \<and> exiting (lf_intake s') = 0)
    \<and> udp_open (lf_sockets s') = (UDP cfg \<and> \<not> lf_returned s') \<and> \<not> tcp_open (lf_sockets s')
    \<and> (lf_returned s' \<and> handlers (lf_intake s') + exiting (lf_intake s') > 0 \<longrightarrow> drain_state (lf_intake s') = DrainTimeout)
    \<and> (\<forall>x s''. life_step cfg x s' = Some s'' \<longrightarrow> drain_state (lf_intake s') \<noteq> DrainTimeout \<longrightarrow> drain_state (lf_intake s'') = DrainTimeout \<longrightarrow>
        (\<exists>elapsed. x = Timer elapsed
          \<and> (0 \<le> OverallTimeout cfg \<and> OverallTimeout cfg + second < 2 ^ 63 \<longrightarrow> OverallTimeout cfg + second \<le> elapsed)))"
proof -
  have inv: "life_inv cfg s" by (rule life_inv_reach [OF assms(1,2)])
  have run: "length xs + shutdown_work s' \<le> shutdown_work s" "life_inv cfg s'" "lf_closer s'"
    using closed_run [OF inv assms(3,4)] by auto
  have stuck: "shutdown_work s' = 0" if "\<forall>x. life_step cfg x s' = None"
    using closed_progress [OF run(2,3)] that by (metis gr0I option.distinct(1))
  have halt: "life_step cfg x s' = None" if "shutdown_work s' = 0" for x
    using closed_step [OF run(2,3), of x] that by (cases "life_step cfg x s'") auto
  have work: "shutdown_work s' = 0 \<longrightarrow> lf_returned s' \<and> \<not> udp_loop (lf_intake s') \<and> \<not> tcp_loop (lf_intake s')
      \<and> handlers (lf_intake s') = 0 \<and> exiting (lf_intake s') = 0" using no_work by blast
  show ?thesis
    by (intro conjI allI impI run(1) shutdown_bound work [rule_format] iffI timeout_step)
      (use stuck halt closed_sockets [OF run(2,3)] work in \<open>simp_all del: life_step.simps\<close>)
qed

theorem shutdown_terminates_witness:
  "\<exists>s. life_run Defaults sample_life_run (life_init Defaults (Metrics_New []) sample_bound) = Some s \<and> lf_closer s \<and> handlers (lf_intake s) = 0
    \<and> (\<exists>s'. life_run Defaults sample_shutdown s = Some s' \<and> length sample_shutdown \<le> shutdown_work s
        \<and> lf_returned s' \<and> handlers (lf_intake s') = 0)"
proof -
  have "case life_run Defaults sample_life_run (life_init Defaults (Metrics_New []) sample_bound) of
      None \<Rightarrow> False
    | Some s \<Rightarrow> lf_closer s \<and> handlers (lf_intake s) = 0
        \<and> (case life_run Defaults sample_shutdown s of None \<Rightarrow> False | Some s' \<Rightarrow> shutdown_work s' = 0)"
    by code_simp
  then obtain s s' where s: "life_run Defaults sample_life_run (life_init Defaults (Metrics_New []) sample_bound) = Some s" "lf_closer s"
    "handlers (lf_intake s) = 0" "life_run Defaults sample_shutdown s = Some s'" "shutdown_work s' = 0"
    by (auto split: option.splits)
  have "life_reach Defaults (Metrics_New []) sample_bound s" using life_run_reach [OF life_reach.init s(1)] .
  moreover have "bound_sockets Defaults sample_bound" by code_simp
  ultimately have "length sample_shutdown \<le> shutdown_work s \<and> lf_returned s' \<and> handlers (lf_intake s') = 0"
    using shutdown_terminates [of Defaults "Metrics_New []" sample_bound s sample_shutdown s'] s by simp
  then show ?thesis using s by blast
qed

end
