(* ===== verification/Command.thy ===== *)
theory Command
  imports MainProg Listen
begin

text \<open>
  Command \<^verbatim>\<open>cmd/chn-resolver\<close>: \<^verbatim>\<open>main\<close> as a whole, from its flags to its exit. The flag parser, signals and the log
  are not modelled; a configuration that cannot be used, the summary of \<^verbatim>\<open>-check\<close>, the sockets and the exit
  status are.
\<close>

section \<open>The summary\<close>

definition fmt_bool :: "bool \<Rightarrow> gostring" where
  "fmt_bool b = (if b then ''true'' else ''false'')"

fun upstream_lines_text :: "Upstream list \<Rightarrow> gostring" where
  "upstream_lines_text [] = []"
| "upstream_lines_text (u # us) =
     ''upstream '' @ addr_port_string (up_addr u) @ '': in_china='' @ fmt_bool (InChina u) @ [newline] @ upstream_lines_text us"

definition printSummary :: "Config \<Rightarrow> Assets \<Rightarrow> Upstream list \<Rightarrow> gostring" where
  "printSummary cfg assets ups =
     (let (v4, v6) = Counts (as_china assets)
      in ''config ok: listening on '' @ Bind cfg @ '':'' @ itoa (Port cfg) @ '' (udp='' @ fmt_bool (UDP cfg) @ '' tcp='' @ fmt_bool (TCP cfg)
           @ '')'' @ [newline]
       @ ''prefixes: '' @ itoa (int v4) @ '' v4 spans, '' @ itoa (int v6) @ '' v6 spans (inputs: '' @ itoa (int (V4Input (as_china assets)))
           @ '' v4, '' @ itoa (int (V6Input (as_china assets))) @ '' v6)'' @ [newline]
       @ upstream_lines_text ups
       @ ''timeouts: attempt='' @ duration_string (AttemptTimeout cfg) @ '' overall='' @ duration_string (OverallTimeout cfg)
           @ ''; cache: enabled='' @ fmt_bool (CacheEnabled cfg) @ '' max_entries='' @ itoa (MaxEntries cfg) @ [newline]
       @ ''ttl clamps: ['' @ duration_string (cfg_MinTTL cfg) @ '', '' @ duration_string (MaxTTL cfg) @ ''], negative [''
           @ duration_string (NegMinTTL cfg) @ '', '' @ duration_string (NegMaxTTL cfg) @ '']'' @ [newline])"

section \<open>main\<close>

record flags =
  configFlag :: gostring
  checkFlag :: bool
  versionFlag :: bool

text \<open>
  How \<^verbatim>\<open>main\<close> ends: with text on the standard output and status 0, through \<^verbatim>\<open>fatal\<close> with status 1, by a panic of the
  janitor goroutine, which ends the process with status 2, or, after serving, by the return of \<^verbatim>\<open>ListenAndServe\<close>.
\<close>

datatype main_outcome =
    Printed gostring
  | FatalStart start_error
  | FatalBind transport
  | Panics
  | Serves Config running_program sockets

fun exit_status :: "main_outcome \<Rightarrow> nat" where
  "exit_status (Printed t) = 0"
| "exit_status (FatalStart e) = 1"
| "exit_status (FatalBind t) = 1"
| "exit_status Panics = 2"
| "exit_status (Serves cfg p so) = 0"

text \<open>
  Before it serves, \<^verbatim>\<open>main\<close> starts goroutines: the janitor, which panics on an interval that is not positive, the reloads (theory
  Reload) and the metrics server (below), whose errors are only logged. \<^verbatim>\<open>janitor\<close> says whether the janitor goroutine is scheduled before
  \<^verbatim>\<open>main\<close> ends: while a server runs it always is, when binding fails it may be or not. A failure to bind
  is fatal unless the context has ended in the meantime; \<^verbatim>\<open>stopped\<close> says whether it has. A server that has bound its sockets runs as in theory
  Listen and returns no error.
\<close>

definition main_program :: "gostring \<Rightarrow> (gostring \<Rightarrow> raw option) \<Rightarrow> (int \<Rightarrow> nat \<Rightarrow> int \<Rightarrow> int) \<Rightarrow> (gostring \<rightharpoonup> gostring)
    \<Rightarrow> (gostring \<Rightarrow> bool) \<Rightarrow> (gostring \<Rightarrow> reader option) \<Rightarrow> (nat \<Rightarrow> int) \<Rightarrow> (gostring \<Rightarrow> gostring option) \<Rightarrow> (gostring \<Rightarrow> gostring option)
    \<Rightarrow> bool \<Rightarrow> bool \<Rightarrow> flags \<Rightarrow> main_outcome" where
  "main_program version decode frac files stat_ok fs now listenPacket listen janitor stopped fl =
     (if versionFlag fl then Printed (''chn-resolver '' @ version @ [newline])
      else case loadConfig decode frac files stat_ok (configFlag fl) of
             Inl e \<Rightarrow> FatalStart e
           | Inr cfg \<Rightarrow>
               (case loadAssets fs cfg of
                  Inl e \<Rightarrow> FatalStart e
                | Inr assets \<Rightarrow>
                    (if checkFlag fl then Printed (printSummary cfg assets (classifyUpstreams cfg assets))
                     else let p = assemble cfg assets (classifyUpstreams cfg assets) now
                          in if janitor \<and> RunJanitor (rp_cache p) (SweepInterval cfg) [] = None then Panics
                             else case ListenAndServe_bind listenPacket listen cfg of
                                    (so, Inl t) \<Rightarrow> (if stopped then Serves cfg p so else FatalBind t)
                                  | (so, Inr bound) \<Rightarrow> Serves cfg p so)))"

text \<open>The page of the metrics server: only \<^verbatim>\<open>/metrics\<close> is registered.\<close>

definition metrics_page :: "(gostring \<Rightarrow> gostring) \<Rightarrow> map_order list \<Rightarrow> int \<Rightarrow> Metrics \<Rightarrow> gostring \<Rightarrow> gostring option" where
  "metrics_page high ord uptime m path = (if path = ''/metrics'' then Metrics_Write high ord uptime m else None)"

section \<open>The metrics server\<close>

text \<open>
  \<^verbatim>\<open>serveMetrics\<close> after the registration of the page. One goroutine closes the server when the context ends; the
  caller is in \<^verbatim>\<open>ListenAndServe\<close>, which binds the address, unless the server is closed already, and then accepts
  connections until an error. After \<^verbatim>\<open>Close\<close> the error is \<^verbatim>\<open>ErrServerClosed\<close>, and any other is logged.
\<close>

datatype http_phase = HttpStart | HttpServing | HttpReturned

record metrics_server =
  ms_closed :: bool
  ms_listening :: bool
  ms_phase :: http_phase
  ms_logged :: "gostring list"

datatype http_op = CtxEnds | BindMetrics "gostring option" | AcceptFails gostring

definition http_return :: "gostring \<Rightarrow> metrics_server \<Rightarrow> metrics_server" where
  "http_return err s = s\<lparr>ms_phase := HttpReturned, ms_listening := False,
     ms_logged := (if ms_closed s then ms_logged s else ms_logged s @ [err])\<rparr>"

fun serveMetrics :: "http_op \<Rightarrow> metrics_server \<Rightarrow> metrics_server option" where
  "serveMetrics CtxEnds s = (if ms_closed s then None else Some (s\<lparr>ms_closed := True, ms_listening := False\<rparr>))"
| "serveMetrics (BindMetrics r) s =
     (if ms_phase s = HttpStart
      then Some (case r of
             Some err \<Rightarrow> http_return err s
           | None \<Rightarrow> (if ms_closed s then http_return [] s else s\<lparr>ms_phase := HttpServing, ms_listening := True\<rparr>))
      else None)"
| "serveMetrics (AcceptFails err) s = (if ms_phase s = HttpServing then Some (http_return err s) else None)"

definition metrics_server_init :: metrics_server where
  "metrics_server_init = \<lparr>ms_closed = False, ms_listening = False, ms_phase = HttpStart, ms_logged = []\<rparr>"

inductive metrics_server_reach :: "metrics_server \<Rightarrow> bool" where
  init: "metrics_server_reach metrics_server_init"
| step: "metrics_server_reach s \<Longrightarrow> serveMetrics op s = Some s' \<Longrightarrow> metrics_server_reach s'"

text \<open>
  The address is bound exactly while the server runs: never after the context has ended or the call has returned. At most
  one error is logged, and only by a return before the end of the context.
\<close>

lemma metrics_server_states:
  "metrics_server_reach s \<Longrightarrow> ms_listening s = (ms_phase s = HttpServing \<and> \<not> ms_closed s)
     \<and> length (ms_logged s) \<le> (if ms_phase s = HttpReturned then 1 else 0)"
proof (induction rule: metrics_server_reach.induct)
  case (step s op s')
  then show ?case by (cases op) (auto simp: http_return_def split: if_splits option.splits)
qed (simp add: metrics_server_init_def)

lemma metrics_server_quiet_close:
  "ms_closed s \<Longrightarrow> serveMetrics op s = Some s' \<Longrightarrow> ms_logged s' = ms_logged s \<and> ms_closed s'"
  by (cases op) (auto simp: http_return_def split: if_splits option.splits)

section \<open>Properties\<close>

lemma start_program_main:
  "start_program decode frac files stat_ok fs now path = Inr (cfg, p) \<longleftrightarrow>
     loadConfig decode frac files stat_ok path = Inr cfg
     \<and> (\<exists>assets. loadAssets fs cfg = Inr assets \<and> p = assemble cfg assets (classifyUpstreams cfg assets) now)"
  by (auto simp: start_program_def Let_def split: sum.splits)

text \<open>
  What the summary tells: one line each for the listening address and the prefixes, with the number of spans in the index and
  of entries in the files by family, one line for each upstream in order, with text that denotes its address and port and whether it counts as
  inside by its role or address, and two lines with the timeouts, the cache and the TTL bounds.
\<close>

definition summary_tells :: "(gostring \<Rightarrow> reader option) \<Rightarrow> Config \<Rightarrow> Assets \<Rightarrow> gostring list \<Rightarrow> bool" where
  "summary_tells fs cfg assets ls \<longleftrightarrow>
     (let bool = (\<lambda>b. if b then ''true'' else ''false''); n = length (Upstreams cfg);
          ps = concat (map (file_prefixes fs) (PrefixFiles cfg)); count = (\<lambda>c. itoa (int (length (filter c ps))))
      in length ls = n + 4
       \<and> ls ! 0 = ''config ok: listening on '' @ Bind cfg @ '':'' @ itoa (Port cfg) @ '' (udp='' @ bool (UDP cfg) @ '' tcp='' @ bool (TCP cfg) @ '')''
       \<and> ls ! 1 = ''prefixes: '' @ itoa (int (length (v4 (as_china assets)))) @ '' v4 spans, '' @ itoa (int (length (v6 (as_china assets))))
           @ '' v6 spans (inputs: '' @ count (is4 \<circ> p_addr) @ '' v4, '' @ count (Not \<circ> is4 \<circ> p_addr) @ '' v6)''
       \<and> (\<forall>i<n. \<exists>label. parse_addr_port label = Some (cu_addr (Upstreams cfg ! i), nat (cu_port (Upstreams cfg ! i)))
           \<and> ls ! (i + 2) = ''upstream '' @ label @ '': in_china='' @ bool (cu_role (Upstreams cfg ! i) = RoleChina
               \<or> cu_role (Upstreams cfg ! i) = RoleAuto \<and> Contains (as_china assets) (cu_addr (Upstreams cfg ! i))))
       \<and> ls ! (n + 2) = ''timeouts: attempt='' @ duration_string (AttemptTimeout cfg) @ '' overall='' @ duration_string (OverallTimeout cfg)
           @ ''; cache: enabled='' @ bool (CacheEnabled cfg) @ '' max_entries='' @ itoa (MaxEntries cfg)
       \<and> ls ! (n + 3) = ''ttl clamps: ['' @ duration_string (cfg_MinTTL cfg) @ '', '' @ duration_string (MaxTTL cfg) @ ''], negative [''
           @ duration_string (NegMinTTL cfg) @ '', '' @ duration_string (NegMaxTTL cfg) @ '']'')"

definition unlines :: "gostring list \<Rightarrow> gostring" where
  "unlines ls = concat (map (\<lambda>l. l @ [newline]) ls)"

lemma upstream_lines_unlines:
  "upstream_lines_text us = unlines (map (\<lambda>u. ''upstream '' @ addr_port_string (up_addr u) @ '': in_china='' @ fmt_bool (InChina u)) us)"
  by (induction us) (simp_all add: unlines_def)

lemma printSummary_unlines:
  fixes assets :: Assets
  defines "ix \<equiv> as_china assets"
  shows "printSummary cfg assets ups = unlines
     ([''config ok: listening on '' @ Bind cfg @ '':'' @ itoa (Port cfg) @ '' (udp='' @ fmt_bool (UDP cfg) @ '' tcp='' @ fmt_bool (TCP cfg) @ '')'',
       ''prefixes: '' @ itoa (int (length (v4 ix))) @ '' v4 spans, '' @ itoa (int (length (v6 ix))) @ '' v6 spans (inputs: ''
         @ itoa (int (V4Input ix)) @ '' v4, '' @ itoa (int (V6Input ix)) @ '' v6)'']
      @ map (\<lambda>u. ''upstream '' @ addr_port_string (up_addr u) @ '': in_china='' @ fmt_bool (InChina u)) ups
      @ [''timeouts: attempt='' @ duration_string (AttemptTimeout cfg) @ '' overall='' @ duration_string (OverallTimeout cfg)
           @ ''; cache: enabled='' @ fmt_bool (CacheEnabled cfg) @ '' max_entries='' @ itoa (MaxEntries cfg),
         ''ttl clamps: ['' @ duration_string (cfg_MinTTL cfg) @ '', '' @ duration_string (MaxTTL cfg) @ ''], negative [''
           @ duration_string (NegMinTTL cfg) @ '', '' @ duration_string (NegMaxTTL cfg) @ '']''])"
  by (simp add: printSummary_def ix_def upstream_lines_unlines Counts_def unlines_def)

lemma loaded_inputs:
  assumes "loadAssets fs cfg = Inr assets"
  shows "V4Input (as_china assets) = length (filter (is4 \<circ> p_addr) (concat (map (file_prefixes fs) (PrefixFiles cfg))))"
    "V6Input (as_china assets) = length (filter (Not \<circ> is4 \<circ> p_addr) (concat (map (file_prefixes fs) (PrefixFiles cfg))))"
proof -
  have "China_Load fs (PrefixFiles cfg) = Inr (as_china assets)"
    using assms by (auto simp: loadAssets_def split: sum.splits if_splits)
  then have "as_china assets = Build (concat (map (file_prefixes fs) (PrefixFiles cfg)))" by (simp add: China_Load_Inr)
  then show "V4Input (as_china assets) = length (filter (is4 \<circ> p_addr) (concat (map (file_prefixes fs) (PrefixFiles cfg))))"
    "V6Input (as_china assets) = length (filter (Not \<circ> is4 \<circ> p_addr) (concat (map (file_prefixes fs) (PrefixFiles cfg))))"
    by (simp_all add: Build_def build_loop_eq comp_assoc)
qed

lemma summary_printed:
  assumes "loadConfig decode frac files stat_ok path = Inr cfg" "loadAssets fs cfg = Inr assets"
  shows "\<exists>ls. printSummary cfg assets (classifyUpstreams cfg assets) = unlines ls \<and> summary_tells fs cfg assets ls"
proof -
  let ?ups = "classifyUpstreams cfg assets"
  have valid: "valid_config cfg" by (rule loadConfig_valid [OF assms(1)])
  have len: "length ?ups = length (Upstreams cfg)" by (simp add: classifyUpstreams_def classify_loop_eq)
  have label: "parse_addr_port (addr_port_string (up_addr (?ups ! i))) = Some (cu_addr (Upstreams cfg ! i), nat (cu_port (Upstreams cfg ! i)))"
    if "i < length (Upstreams cfg)" for i
  proof -
    have "cu_addr (Upstreams cfg ! i) \<noteq> AddrZero" using valid that by (simp add: valid_config_def valid_sources_def)
    then show ?thesis
      using parse_addr_port_string [of "up_addr (?ups ! i)"] classified [OF valid that, of assets] by (metis unat_eq_nat_uint)
  qed
  show ?thesis
    unfolding printSummary_unlines
    by (rule exI, rule conjI [OF refl])
      (use len label classified(3) [OF valid] loaded_inputs [OF assms(2)] in \<open>auto simp: summary_tells_def Let_def fmt_bool_def nth_append\<close>)
qed

text \<open>
  C36. The flag \<^verbatim>\<open>-check\<close> tells the truth: it prints a summary and exits with status 0 exactly when a start
  with the same files would come as far as starting its goroutines and binding the sockets, and fails with the same error otherwise. The summary has a line with the
  address, port and class of each upstream, in order, which are those the engine of that start uses, and the lines for the
  listening address, the numbers of spans and of listed prefixes, the timeouts and the TTL bounds. A start whose configuration was accepted ends without
  serving only if a listen call fails, and then leaves no socket open, or by the panic of the janitor, and then only if
  the sweep interval is not positive; one that serves has bound exactly the configured transports.
\<close>

theorem check_flag_faithful:
  fixes version decode frac files stat_ok fs now listenPacket listen janitor and fl :: flags
  assumes "\<not> versionFlag fl"
  defines "run c \<equiv> main_program version decode frac files stat_ok fs now listenPacket listen janitor False (fl\<lparr>checkFlag := c\<rparr>)"
  shows "case run True of
     FatalStart e \<Rightarrow> run False = FatalStart e
   | Printed t \<Rightarrow> \<exists>cfg p. start_program decode frac files stat_ok fs now (configFlag fl) = Inr (cfg, p)
       \<and> (\<exists>ls. t = unlines ls \<and> summary_tells fs cfg (en_assets (rp_engine p)) ls)
       \<and> (\<forall>i<length (Upstreams cfg). InChina (en_upstreams (rp_engine p) ! i) \<longleftrightarrow> cu_role (Upstreams cfg ! i) = RoleChina
            \<or> cu_role (Upstreams cfg ! i) = RoleAuto \<and> Contains (as_china (en_assets (rp_engine p))) (cu_addr (Upstreams cfg ! i)))
       \<and> (case run False of
            Serves cfg' p' so \<Rightarrow> cfg' = cfg \<and> p' = p \<and> bound_sockets cfg so \<and> (janitor \<longrightarrow> 0 < SweepInterval cfg)
          | FatalBind t \<Rightarrow> \<not> udp_open (fst (ListenAndServe_bind listenPacket listen cfg)) \<and> \<not> tcp_open (fst (ListenAndServe_bind listenPacket listen cfg))
          | Panics \<Rightarrow> janitor \<and> SweepInterval cfg \<le> 0
          | _ \<Rightarrow> False)
   | _ \<Rightarrow> False"
proof (cases "loadConfig decode frac files stat_ok (configFlag fl)")
  case (Inr cfg)
  show ?thesis
  proof (cases "loadAssets fs cfg")
    case assets: (Inr assets)
    let ?p = "assemble cfg assets (classifyUpstreams cfg assets) now"
    have p: "start_program decode frac files stat_ok fs now (configFlag fl) = Inr (cfg, ?p)"
      "en_assets (rp_engine ?p) = assets" "en_upstreams (rp_engine ?p) = classifyUpstreams cfg assets"
      using Inr assets by (simp_all add: start_program_main assemble_def Engine_New_def)
    have check: "run True = Printed (printSummary cfg assets (classifyUpstreams cfg assets))"
      using Inr assets assms(1) by (simp add: run_def main_program_def)
    have serve: "case run False of
            Serves cfg' p' so \<Rightarrow> cfg' = cfg \<and> p' = ?p \<and> bound_sockets cfg so \<and> (janitor \<longrightarrow> 0 < SweepInterval cfg)
          | FatalBind t \<Rightarrow> \<not> udp_open (fst (ListenAndServe_bind listenPacket listen cfg)) \<and> \<not> tcp_open (fst (ListenAndServe_bind listenPacket listen cfg))
          | Panics \<Rightarrow> janitor \<and> SweepInterval cfg \<le> 0
          | _ \<Rightarrow> False"
      using Inr assets assms(1) bind_sockets [of cfg listenPacket listen]
      by (auto simp: run_def main_program_def RunJanitor_def Let_def split: prod.splits sum.splits)
    show ?thesis
      unfolding check main_outcome.case
      using p serve summary_printed [OF Inr assets] classified(3) [OF loadConfig_valid [OF Inr], of _ assets]
      by (intro exI [of _ cfg] exI [of _ ?p]) simp
  qed (use Inr assms(1) in \<open>simp add: run_def main_program_def\<close>)
qed (use assms(1) in \<open>simp add: run_def main_program_def\<close>)

theorem check_flag_faithful_witness:
  "\<exists>p t ls label. main_program ''dev'' (\<lambda>_. Some (sample_raw [])) no_frac (\<lambda>_. Some []) (\<lambda>_. True) sample_disk int Some Some True False
      \<lparr>configFlag = [], checkFlag = True, versionFlag = False\<rparr> = Printed t
    \<and> sample_start = Inr (sample_cfg, p) \<and> t = unlines ls
    \<and> ls ! 2 = ''upstream '' @ label @ '': in_china=true'' \<and> parse_addr_port label = Some (Addr4 0x72727272, 53)"
proof -
  let ?main = "\<lambda>c. main_program ''dev'' (\<lambda>_. Some (sample_raw [])) no_frac (\<lambda>_. Some []) (\<lambda>_. True) sample_disk int Some Some True False
      \<lparr>configFlag = [], checkFlag = c, versionFlag = False\<rparr>"
  obtain t where t: "?main True = Printed t"
    by (simp add: main_program_def loadConfig_def Config_Load_def sample_build sample_loadAssets)
  then obtain p ls where p: "sample_start = Inr (sample_cfg, p)" "t = unlines ls" "summary_tells sample_disk sample_cfg (en_assets (rp_engine p)) ls"
    using check_flag_faithful [where fl = "\<lparr>configFlag = [], checkFlag = False, versionFlag = False\<rparr>" and version = "''dev''"
        and decode = "\<lambda>_. Some (sample_raw [])" and frac = no_frac and files = "\<lambda>_. Some []" and stat_ok = "\<lambda>_. True"
        and fs = sample_disk and now = int and listenPacket = Some and listen = Some and janitor = True] sample_start_ok by auto
  have c: "0 < length (Upstreams sample_cfg)" "cu_role (Upstreams sample_cfg ! 0) = RoleChina" "cu_addr (Upstreams sample_cfg ! 0) = Addr4 0x72727272"
    "cu_port (Upstreams sample_cfg ! 0) = 53"
    by code_simp+
  obtain label where "parse_addr_port label = Some (Addr4 0x72727272, 53)" "ls ! 2 = ''upstream '' @ label @ '': in_china=true''"
    using p(3) c unfolding summary_tells_def Let_def by (auto dest!: spec [of _ "0 :: nat"] simp: numeral_2_eq_2)
  then show ?thesis using t p(1,2) by blast
qed

end
