(* ===== verification/Counters.thy ===== *)
theory Counters
  imports Metrics
begin

text \<open>
  \<^verbatim>\<open>Metrics.counter\<close> and the \<^verbatim>\<open>Add\<close> of its callers as goroutines interleave them: the lookup without the mutex, the
  critical section with the second lookup and the insertion, and the increment of the atomic counter. Theory
  Metrics treats the whole as one step (\<^const>\<open>bump\<close>). The mutex is one for all maps of the process.
  A Go map must not be read while it is written, and the first lookup takes no lock: the unguarded lookup and the insertion have a
  beginning and an end, and when the two overlap on one map the process has failed (the runtime stops it, or what it does is
  undefined), after which no step is left. Up to there no increment is lost and no counter is created twice.
\<close>

section \<open>Goroutines\<close>

text \<open>
  The position of a goroutine in a call for a name: before and in the first lookup, before the lock, before the
  second lookup, before and in the insertion, before the unlock, before the increment, after it. A pointer to a
  counter is a number. A call calls one of the maps, by its number, and the name of the counter in it.
\<close>

datatype dst = Results nat | Failures nat

datatype slot = Slot (slot_map: dst) (slot_name: gostring)

datatype position = FirstLookup | Reading | AwaitLock | SecondLookup | InsertCounter | Inserting | Release nat | Increment nat | Recorded

record counter_state =
  cn_map :: "slot \<rightharpoonup> nat"
  cn_value :: "nat \<Rightarrow> u64"
  cn_next :: nat
  cn_lock :: "nat option"
  cn_pos :: "nat \<Rightarrow> position"
  cn_fault :: bool

definition move :: "nat \<Rightarrow> position \<Rightarrow> counter_state \<Rightarrow> counter_state" where
  "move g p s = s\<lparr>cn_pos := (cn_pos s)(g := p)\<rparr>"

text \<open>Whether some goroutine is at a position in a call for a counter of a map.\<close>

definition at_map :: "slot list \<Rightarrow> counter_state \<Rightarrow> position \<Rightarrow> dst \<Rightarrow> bool" where
  "at_map calls s p d \<longleftrightarrow> list_ex (\<lambda>h. cn_pos s h = p \<and> slot_map (calls ! h) = d) [0..<length calls]"

text \<open>One step of goroutine \<open>g\<close>, whose call is for the counter \<open>calls ! g\<close>.\<close>

definition counter_step :: "slot list \<Rightarrow> nat \<Rightarrow> counter_state \<Rightarrow> counter_state option" where
  "counter_step calls g s =
     (let name = calls ! g
      in if cn_fault s then None
         else case cn_pos s g of
           FirstLookup \<Rightarrow> Some (if at_map calls s Inserting (slot_map name) then s\<lparr>cn_fault := True\<rparr> else move g Reading s)
         | Reading \<Rightarrow> Some (move g (case cn_map s name of Some c \<Rightarrow> Increment c | None \<Rightarrow> AwaitLock) s)
         | AwaitLock \<Rightarrow> (if cn_lock s = None then Some (move g SecondLookup (s\<lparr>cn_lock := Some g\<rparr>)) else None)
         | SecondLookup \<Rightarrow> Some (move g (case cn_map s name of Some c \<Rightarrow> Release c | None \<Rightarrow> InsertCounter) s)
         | InsertCounter \<Rightarrow> Some (if at_map calls s Reading (slot_map name) then s\<lparr>cn_fault := True\<rparr> else move g Inserting s)
         | Inserting \<Rightarrow>
             (let c = cn_next s
              in Some (move g (Release c) (s\<lparr>cn_next := Suc c, cn_value := (cn_value s)(c := 0), cn_map := (cn_map s)(name \<mapsto> c)\<rparr>)))
         | Release c \<Rightarrow> Some (move g (Increment c) (s\<lparr>cn_lock := None\<rparr>))
         | Increment c \<Rightarrow> Some (move g Recorded (s\<lparr>cn_value := (cn_value s)(c := cn_value s c + 1)\<rparr>))
         | Recorded \<Rightarrow> None)"

definition counters_init :: counter_state where
  "counters_init = \<lparr>cn_map = Map.empty, cn_value = (\<lambda>_. 0), cn_next = 0, cn_lock = None, cn_pos = (\<lambda>_. FirstLookup), cn_fault = False\<rparr>"

text \<open>The goroutines \<open>g < length calls\<close>; each makes one call.\<close>

inductive counter_reach :: "slot list \<Rightarrow> counter_state \<Rightarrow> bool" for calls where
  init: "counter_reach calls counters_init"
| step: "counter_reach calls s \<Longrightarrow> g < length calls \<Longrightarrow> counter_step calls g s = Some s' \<Longrightarrow> counter_reach calls s'"

fun counter_run :: "slot list \<Rightarrow> nat list \<Rightarrow> counter_state \<Rightarrow> counter_state option" where
  "counter_run calls [] s = Some s"
| "counter_run calls (g # gs) s =
     (if g < length calls
      then (case counter_step calls g s of None \<Rightarrow> None | Some s' \<Rightarrow> counter_run calls gs s') else None)"

lemma counter_run_reach: "counter_reach calls s \<Longrightarrow> counter_run calls gs s = Some s' \<Longrightarrow> counter_reach calls s'"
  by (induction gs arbitrary: s) (auto split: if_splits option.splits intro: counter_reach.step)

section \<open>The counters that others see\<close>

definition counters :: "counter_state \<Rightarrow> dst \<Rightarrow> (gostring \<rightharpoonup> u64)" where
  "counters s d = (\<lambda>n. map_option (cn_value s) (cn_map s (Slot d n)))"

abbreviation value_of :: "counter_state \<Rightarrow> slot \<Rightarrow> u64" where
  "value_of s k \<equiv> tally (counters s (slot_map k)) (slot_name k)"

text \<open>How many goroutines have finished a call for a counter.\<close>

definition recorded :: "slot list \<Rightarrow> counter_state \<Rightarrow> slot \<Rightarrow> nat" where
  "recorded calls s n = card {g. g < length calls \<and> cn_pos s g = Recorded \<and> calls ! g = n}"

definition in_section :: "position \<Rightarrow> bool" where
  "in_section p \<longleftrightarrow> p = SecondLookup \<or> p = InsertCounter \<or> p = Inserting \<or> (\<exists>c. p = Release c)"

definition counters_inv :: "slot list \<Rightarrow> counter_state \<Rightarrow> bool" where
  "counters_inv calls s \<longleftrightarrow>
     (\<forall>n c. cn_map s n = Some c \<longrightarrow> c < cn_next s) \<and> inj_on (cn_map s) (dom (cn_map s))
     \<and> (\<forall>g<length calls. in_section (cn_pos s g) = (cn_lock s = Some g))
     \<and> (\<forall>g<length calls. cn_pos s g \<in> {InsertCounter, Inserting} \<longrightarrow> cn_map s (calls ! g) = None)
     \<and> (\<forall>g<length calls. \<forall>c. cn_pos s g = Release c \<or> cn_pos s g = Increment c \<longrightarrow> cn_map s (calls ! g) = Some c)
     \<and> (\<forall>n. value_of s n = of_nat (recorded calls s n))"

lemma tally_counters: "value_of s n = (case cn_map s n of Some c \<Rightarrow> cn_value s c | None \<Rightarrow> 0)"
  by (simp add: tally_def counters_def split: option.splits)

lemma recorded_move:
  assumes "g < length calls" "cn_pos s g \<noteq> Recorded"
  shows "recorded calls (move g p s) n = recorded calls s n + (if p = Recorded \<and> calls ! g = n then 1 else 0)"
proof (cases "p = Recorded \<and> calls ! g = n")
  case True
  then have "{h. h < length calls \<and> cn_pos (move g p s) h = Recorded \<and> calls ! h = n}
      = insert g {h. h < length calls \<and> cn_pos s h = Recorded \<and> calls ! h = n}"
    using assms by (auto simp: move_def)
  then show ?thesis using True assms(2) by (simp add: recorded_def)
next
  case False
  then have "{h. h < length calls \<and> cn_pos (move g p s) h = Recorded \<and> calls ! h = n}
      = {h. h < length calls \<and> cn_pos s h = Recorded \<and> calls ! h = n}"
    using assms by (auto simp: move_def)
  then show ?thesis using False by (simp add: recorded_def)
qed

lemma move_fields [simp]:
  "cn_map (move g p s) = cn_map s" "cn_value (move g p s) = cn_value s" "cn_next (move g p s) = cn_next s"
  "cn_lock (move g p s) = cn_lock s" "cn_pos (move g p s) = (cn_pos s)(g := p)" "cn_fault (move g p s) = cn_fault s"
  by (simp_all add: move_def)

lemma recorded_frame [simp]:
  "recorded calls (s\<lparr>cn_lock := l\<rparr>) = recorded calls s" "recorded calls (s\<lparr>cn_value := v\<rparr>) = recorded calls s"
  "recorded calls (s\<lparr>cn_next := k, cn_value := v, cn_map := m\<rparr>) = recorded calls s"
  by (simp_all add: recorded_def fun_eq_iff)

text \<open>The parts of the invariant, one fact each.\<close>

lemma counters_invD:
  assumes "counters_inv calls s"
  shows "cn_map s n = Some c \<Longrightarrow> c < cn_next s" "cn_map s n = Some c \<Longrightarrow> cn_map s n' = Some c \<Longrightarrow> n = n'"
    "g < length calls \<Longrightarrow> in_section (cn_pos s g) = (cn_lock s = Some g)"
    "g < length calls \<Longrightarrow> cn_pos s g \<in> {InsertCounter, Inserting} \<Longrightarrow> cn_map s (calls ! g) = None"
    "g < length calls \<Longrightarrow> cn_pos s g = Release c \<or> cn_pos s g = Increment c \<Longrightarrow> cn_map s (calls ! g) = Some c"
    "value_of s n = of_nat (recorded calls s n)"
proof -
  show "cn_map s n = Some c \<Longrightarrow> cn_map s n' = Some c \<Longrightarrow> n = n'"
    using assms unfolding counters_inv_def by (metis domI inj_onD)
qed (use assms in \<open>auto simp: counters_inv_def\<close>)

text \<open>A step that only moves the goroutine and takes or gives back the lock.\<close>

lemma counters_inv_move:
  assumes "counters_inv calls s" "g < length calls" "cn_pos s g \<noteq> Recorded" "p \<noteq> Recorded"
    and "in_section p = (l = Some g)" "\<And>h. h \<noteq> g \<Longrightarrow> (l = Some h) = (cn_lock s = Some h)"
    and "p \<in> {InsertCounter, Inserting} \<Longrightarrow> cn_map s (calls ! g) = None"
    and "\<And>c. p = Release c \<or> p = Increment c \<Longrightarrow> cn_map s (calls ! g) = Some c"
  shows "counters_inv calls (move g p (s\<lparr>cn_lock := l\<rparr>))"
proof -
  have "recorded calls (move g p (s\<lparr>cn_lock := l\<rparr>)) n = recorded calls s n" for n
    using recorded_move [of g calls "s\<lparr>cn_lock := l\<rparr>" p n] assms(2-4) by simp
  moreover have "counters (move g p (s\<lparr>cn_lock := l\<rparr>)) = counters s" by (simp add: counters_def fun_eq_iff)
  ultimately show ?thesis using assms by (auto simp: counters_inv_def)
qed

lemma counters_inv_insert:
  assumes inv: "counters_inv calls s" and g: "g < length calls" and pos: "cn_pos s g = Inserting"
  defines "c \<equiv> cn_next s"
  shows "counters_inv calls (move g (Release c) (s\<lparr>cn_next := Suc c, cn_value := (cn_value s)(c := 0), cn_map := (cn_map s)(calls ! g \<mapsto> c)\<rparr>))"
    (is "counters_inv calls ?s")
proof -
  note d = counters_invD [OF inv]
  have new: "cn_map s (calls ! g) = None" by (rule d(4) [OF g]) (simp add: pos)
  have fresh: "cn_map s n \<noteq> Some c" for n using d(1) [of n c] by (auto simp: c_def)
  have "recorded calls ?s n = recorded calls s n" for n
    using recorded_move [of g calls _ "Release c" n] g pos by simp
  moreover have "value_of ?s n = value_of s n" for n
    using new fresh by (auto simp: tally_counters split: option.splits)
  ultimately have "value_of ?s n = of_nat (recorded calls ?s n)" for n using d(6) by simp
  moreover have "inj_on (cn_map ?s) (dom (cn_map ?s))" using d(2) fresh by (auto simp: inj_on_def)
  moreover have "in_section (cn_pos ?s h) = (cn_lock ?s = Some h)" if "h < length calls" for h
    using d(3) [OF that] d(3) [OF g] pos by (auto simp: in_section_def)
  moreover have "cn_map ?s (calls ! h) = None" if "h < length calls" "cn_pos ?s h \<in> {InsertCounter, Inserting}" for h
    using that d(3) [of h] d(3) [OF g] pos by (auto simp: in_section_def split: if_splits)
  moreover have "cn_map ?s (calls ! h) = Some x" if "h < length calls" "cn_pos ?s h = Release x \<or> cn_pos ?s h = Increment x" for h x
    using that d(5) [of h x] new by (auto split: if_splits)
  ultimately show ?thesis using d(1) by (auto simp: counters_inv_def c_def less_Suc_eq)
qed

lemma counters_inv_increment:
  assumes inv: "counters_inv calls s" and g: "g < length calls" and pos: "cn_pos s g = Increment c"
  shows "counters_inv calls (move g Recorded (s\<lparr>cn_value := (cn_value s)(c := cn_value s c + 1)\<rparr>))" (is "counters_inv calls ?s")
proof -
  note d = counters_invD [OF inv]
  have map: "cn_map s (calls ! g) = Some c" using d(5) [OF g, of c] pos by simp
  have "recorded calls ?s n = recorded calls s n + (if calls ! g = n then 1 else 0)" for n
    using recorded_move [of g calls _ Recorded n] g pos by simp
  moreover have "value_of ?s n = value_of s n + (if calls ! g = n then 1 else 0)" for n
    using map d(2) [of n c "calls ! g"] by (auto simp: tally_counters split: option.splits)
  ultimately have "value_of ?s n = of_nat (recorded calls ?s n)" for n using d(6) by simp
  moreover have "in_section (cn_pos ?s h) = (cn_lock ?s = Some h)" if "h < length calls" for h
    using d(3) [OF that] pos by (auto simp: in_section_def)
  ultimately show ?thesis using inv by (auto simp: counters_inv_def)
qed

lemma counters_inv_fault: "counters_inv calls s \<Longrightarrow> counters_inv calls (s\<lparr>cn_fault := True\<rparr>)"
  by (simp add: counters_inv_def counters_def recorded_def)

lemma counters_inv_step:
  assumes inv: "counters_inv calls s" and g: "g < length calls" and step: "counter_step calls g s = Some s'"
  shows "counters_inv calls s'"
proof -
  note d = counters_invD [OF inv]
  have keep: "s\<lparr>cn_lock := cn_lock s\<rparr> = s" by simp
  note keeps = counters_inv_move [OF inv g, of _ "cn_lock s", unfolded keep] d(3) [OF g]
  note defs = counter_step_def in_section_def Let_def
  show ?thesis
  proof (cases "cn_pos s g")
    case FirstLookup
    then show ?thesis using step keeps counters_inv_fault [OF inv] by (auto simp: defs split: if_splits)
  next
    case Reading
    then show ?thesis using step keeps by (auto simp: defs split: option.splits if_splits)
  next
    case AwaitLock
    then show ?thesis using step counters_inv_move [OF inv g, of SecondLookup "Some g"] by (auto simp: defs split: if_splits)
  next
    case SecondLookup
    then show ?thesis using step keeps by (auto simp: defs split: option.splits if_splits)
  next
    case InsertCounter
    then show ?thesis using step keeps counters_inv_fault [OF inv] d(4) [OF g] by (auto simp: defs split: if_splits)
  next
    case Inserting
    then show ?thesis using step counters_inv_insert [OF inv g] by (simp add: defs split: if_splits)
  next
    case (Release c)
    then show ?thesis
      using step counters_inv_move [OF inv g, of "Increment c" None] d(3) [OF g] d(5) [OF g, of c] by (auto simp: defs split: if_splits)
  next
    case (Increment c)
    then show ?thesis using step counters_inv_increment [OF inv g] by (simp add: defs split: if_splits)
  next
    case Recorded
    then show ?thesis using step by (simp add: defs split: if_splits)
  qed
qed

lemma counters_inv_reach: "counter_reach calls s \<Longrightarrow> counters_inv calls s"
proof (induction rule: counter_reach.induct)
  case init
  then show ?case by (simp add: counters_inv_def counters_init_def in_section_def tally_counters recorded_def)
next
  case (step s g s')
  then show ?case using counters_inv_step by blast
qed

section \<open>Progress\<close>

lemma counter_lock_bound: "counter_reach calls s \<Longrightarrow> cn_lock s = Some h \<Longrightarrow> h < length calls"
  by (induction arbitrary: h rule: counter_reach.induct)
    (auto simp: counters_init_def counter_step_def Let_def split: position.splits if_splits)

lemma stuck_recorded:
  assumes reach: "counter_reach calls s" and stuck: "\<forall>g<length calls. counter_step calls g s = None" and g: "g < length calls"
    and ok: "\<not> cn_fault s"
  shows "cn_pos s g = Recorded"
proof (rule ccontr)
  assume "cn_pos s g \<noteq> Recorded"
  then obtain h where h: "cn_lock s = Some h"
    using stuck [rule_format, OF g] ok by (auto simp: counter_step_def Let_def split: position.splits if_splits)
  have less: "h < length calls" by (rule counter_lock_bound [OF reach h])
  then have "in_section (cn_pos s h)" using counters_invD(3) [OF counters_inv_reach [OF reach] less] h by simp
  then show False using stuck less ok by (auto simp: in_section_def counter_step_def Let_def)
qed

text \<open>A failure is an overlap: one call is at its unguarded lookup, another at its insertion into the same map.\<close>

definition overlap :: "slot list \<Rightarrow> counter_state \<Rightarrow> bool" where
  "overlap calls s \<longleftrightarrow>
     (\<exists>g<length calls. \<exists>h<length calls. slot_map (calls ! g) = slot_map (calls ! h) \<and> cn_map s (calls ! h) = None
        \<and> (cn_pos s g = FirstLookup \<and> cn_pos s h = Inserting \<or> cn_pos s g = Reading \<and> cn_pos s h = InsertCounter))"

lemma fault_overlap: "counter_reach calls s \<Longrightarrow> cn_fault s \<Longrightarrow> overlap calls s"
proof (induction rule: counter_reach.induct)
  case init
  then show ?case by (simp add: counters_init_def)
next
  case (step s g s')
  have s': "\<not> cn_fault s" "s' = s\<lparr>cn_fault := True\<rparr>" and
    pos: "cn_pos s g = FirstLookup \<and> at_map calls s Inserting (slot_map (calls ! g))
      \<or> cn_pos s g = InsertCounter \<and> at_map calls s Reading (slot_map (calls ! g))"
    using step.hyps(3) step.prems by (auto simp: counter_step_def Let_def split: if_splits position.splits)
  note new = counters_invD(4) [OF counters_inv_reach [OF step.hyps(1)]]
  from pos show ?case
  proof
    assume a: "cn_pos s g = FirstLookup \<and> at_map calls s Inserting (slot_map (calls ! g))"
    then obtain h where "h < length calls" "cn_pos s h = Inserting" "slot_map (calls ! h) = slot_map (calls ! g)"
      by (auto simp: at_map_def list_ex_iff)
    then show ?thesis
      using a new [of h] step.hyps(2) unfolding overlap_def s'(2) by (intro exI [of _ g] conjI exI [of _ h]) simp_all
  next
    assume a: "cn_pos s g = InsertCounter \<and> at_map calls s Reading (slot_map (calls ! g))"
    then obtain h where "h < length calls" "cn_pos s h = Reading" "slot_map (calls ! h) = slot_map (calls ! g)"
      by (auto simp: at_map_def list_ex_iff)
    then show ?thesis
      using a new [of g] step.hyps(2) unfolding overlap_def s'(2) by (intro exI [of _ h] conjI exI [of _ g]) simp_all
  qed
qed

text \<open>The steps a goroutine has still to take, at most; a failure is one more.\<close>

fun rank :: "position \<Rightarrow> nat" where
  "rank FirstLookup = 8"
| "rank Reading = 7"
| "rank AwaitLock = 6"
| "rank SecondLookup = 5"
| "rank InsertCounter = 4"
| "rank Inserting = 3"
| "rank (Release c) = 2"
| "rank (Increment c) = 1"
| "rank Recorded = 0"

lemma counter_step_rank:
  assumes "counter_step calls g s = Some s'"
  shows "h \<noteq> g \<Longrightarrow> cn_pos s' h = cn_pos s h"
    "if cn_fault s' then \<not> cn_fault s \<and> cn_pos s' g = cn_pos s g \<and> 0 < rank (cn_pos s g) else rank (cn_pos s' g) < rank (cn_pos s g)"
  using assms by (auto simp: counter_step_def Let_def split: position.splits if_splits option.splits)

lemma counter_step_sum:
  assumes "counter_step calls g s = Some s'" "g < length calls"
  shows "(\<Sum>h<length calls. rank (cn_pos s' h)) + (if cn_fault s' then 0 else 1) \<le> (\<Sum>h<length calls. rank (cn_pos s h))"
proof -
  have split: "(\<Sum>h<length calls. rank (cn_pos u h)) = rank (cn_pos u g) + (\<Sum>h\<in>{..<length calls} - {g}. rank (cn_pos u h))" for u
    using assms(2) by (simp add: sum.remove)
  have "(\<Sum>h\<in>{..<length calls} - {g}. rank (cn_pos s' h)) = (\<Sum>h\<in>{..<length calls} - {g}. rank (cn_pos s h))"
    using counter_step_rank(1) [OF assms(1)] by (intro sum.cong) auto
  then show ?thesis using split [of s] split [of s'] counter_step_rank(2) [OF assms(1)] by (auto split: if_splits)
qed

lemma counter_run_fault: "cn_fault s \<Longrightarrow> counter_run calls gs s = Some s' \<Longrightarrow> gs = [] \<and> s' = s"
  by (cases gs) (auto simp: counter_step_def split: if_splits option.splits)

lemma counter_run_sum:
  assumes "counter_run calls gs s = Some s'" "\<not> cn_fault s"
  shows "length gs + (\<Sum>h<length calls. rank (cn_pos s' h)) \<le> (\<Sum>h<length calls. rank (cn_pos s h)) + (if cn_fault s' then 1 else 0)"
  using assms
proof (induction gs arbitrary: s)
  case (Cons g gs)
  then obtain t where t: "g < length calls" "counter_step calls g s = Some t" "counter_run calls gs t = Some s'"
    by (auto split: if_splits option.splits)
  show ?case
  proof (cases "cn_fault t")
    case True
    then show ?thesis using counter_run_fault [OF True t(3)] counter_step_sum [OF t(2,1)] by simp
  next
    case False
    then show ?thesis using Cons.IH [OF t(3)] counter_step_sum [OF t(2,1)] by simp
  qed
qed simp

text \<open>A failed run has a goroutine with steps left.\<close>

lemma overlap_rank: "overlap calls s \<Longrightarrow> 0 < (\<Sum>h<length calls. rank (cn_pos s h))"
proof -
  assume "overlap calls s"
  then obtain g where "g < length calls" "0 < rank (cn_pos s g)" by (auto simp: overlap_def)
  then show ?thesis by (meson finite_lessThan lessThan_iff member_le_sum less_le_trans zero_le)
qed

lemma counter_run_bounded:
  assumes "counter_run calls gs counters_init = Some s"
  shows "length gs \<le> 8 * length calls"
proof -
  have "cn_fault s \<longrightarrow> 0 < (\<Sum>h<length calls. rank (cn_pos s h))"
    using overlap_rank fault_overlap [OF counter_run_reach [OF counter_reach.init assms]] by blast
  then show ?thesis using counter_run_sum [OF assms] by (auto simp: counters_init_def split: if_splits)
qed

section \<open>The calls one after the other\<close>

fun record_call :: "slot \<Rightarrow> Metrics \<Rightarrow> Metrics" where
  "record_call (Slot (Results i) st) m = RecordUpstreamResult m (int i) st"
| "record_call (Slot (Failures i) cat) m = RecordUpstreamFailure m (int i) cat"

fun metric_at :: "Metrics \<Rightarrow> slot \<Rightarrow> u64" where
  "metric_at m (Slot (Results i) st) = result_count m i st"
| "metric_at m (Slot (Failures i) cat) = failure_count m i cat"

fun upstream_of :: "slot \<Rightarrow> nat" where
  "upstream_of (Slot (Results i) st) = i"
| "upstream_of (Slot (Failures i) cat) = i"

lemma record_call_length [simp]: "length (met_upstreams (record_call k m)) = length (met_upstreams m)"
  by (cases "(k, m)" rule: record_call.cases) simp_all

lemma metric_at_record:
  assumes "upstream_of k < length (met_upstreams m)" "upstream_of l < length (met_upstreams m)"
  shows "metric_at (record_call k m) l = metric_at m l + (if l = k then 1 else 0)"
  using assms by (cases k rule: upstream_of.cases; cases l rule: upstream_of.cases) (auto simp: result_count_record)

lemma metric_at_fold:
  assumes "\<forall>k\<in>set calls. upstream_of k < length (met_upstreams m)" "upstream_of l < length (met_upstreams m)"
  shows "metric_at (fold record_call calls m) l = metric_at m l + of_nat (count_list calls l)"
  using assms by (induction calls arbitrary: m) (auto simp: metric_at_record)

lemma metric_at_New: "upstream_of l < length addrs \<Longrightarrow> metric_at (Metrics_New addrs) l = 0"
  by (cases l rule: upstream_of.cases) (simp_all add: result_count_def failure_count_def Metrics_New_def tally_def)

lemma New_upstreams [simp]: "length (met_upstreams (Metrics_New addrs)) = length addrs"
  by (simp add: Metrics_New_def)

lemma recorded_all:
  assumes "\<forall>g<length calls. cn_pos s g = Recorded"
  shows "recorded calls s k = count_list calls k"
proof -
  have "{g. g < length calls \<and> cn_pos s g = Recorded \<and> calls ! g = k} = {g. g < length calls \<and> k = calls ! g}" using assms by auto
  then show ?thesis by (simp add: recorded_def count_list_eq_length_filter length_filter_conv_card)
qed

text \<open>
  C34. However the goroutines that record upstream results and failures interleave in \<^verbatim>\<open>counter\<close> and \<^verbatim>\<open>Add\<close>, as long as the
  process has not failed each counter equals the number of finished calls for it, modulo 2^64: no increment is lost, and no call
  increments a counter that another insertion has replaced. At most one goroutine is between \<^verbatim>\<open>Lock\<close> and
  \<^verbatim>\<open>Unlock\<close>. The calls cannot block one another: together they take at most eight steps each, and when none can move
  all have finished, with the counters the calls would leave if they ran one after the other through
  \<^verbatim>\<open>RecordUpstreamResult\<close> and \<^verbatim>\<open>RecordUpstreamFailure\<close> on new metrics, or the process has failed. It fails only by the
  overlap of an unguarded lookup of one call with the insertion of another call's missing counter into the same map.
\<close>

theorem counters_exact:
  assumes run: "counter_run calls gs counters_init = Some s"
  shows "(\<not> cn_fault s \<longrightarrow> value_of s k = of_nat (recorded calls s k))
    \<and> (\<forall>g h. g < length calls \<longrightarrow> h < length calls \<longrightarrow> in_section (cn_pos s g) \<longrightarrow> in_section (cn_pos s h) \<longrightarrow> g = h)
    \<and> length gs \<le> 8 * length calls
    \<and> ((\<forall>g<length calls. counter_step calls g s = None) \<longrightarrow> \<not> cn_fault s \<longrightarrow>
        (\<forall>g<length calls. cn_pos s g = Recorded)
        \<and> (\<forall>addrs. (\<forall>c\<in>set (k # calls). upstream_of c < length addrs) \<longrightarrow>
             value_of s k = metric_at (fold record_call calls (Metrics_New addrs)) k))
    \<and> (cn_fault s \<longrightarrow> overlap calls s)"
proof (intro conjI impI allI)
  have reach: "counter_reach calls s" by (rule counter_run_reach [OF counter_reach.init run])
  note d = counters_invD [OF counters_inv_reach [OF reach]]
  show val: "value_of s k = of_nat (recorded calls s k)" by (rule d(6))
  show "g = h" if "g < length calls" "h < length calls" "in_section (cn_pos s g)" "in_section (cn_pos s h)" for g h
    using that d(3) by (metis option.inject)
  show "length gs \<le> 8 * length calls" by (rule counter_run_bounded [OF run])
  show "overlap calls s" if "cn_fault s" by (rule fault_overlap [OF reach that])
  assume stuck: "\<forall>g<length calls. counter_step calls g s = None" and ok: "\<not> cn_fault s"
  show all: "cn_pos s g = Recorded" if "g < length calls" for g by (rule stuck_recorded [OF reach stuck that ok])
  show "value_of s k = metric_at (fold record_call calls (Metrics_New addrs)) k"
    if "\<forall>c\<in>set (k # calls). upstream_of c < length addrs" for addrs
    using that val all by (simp add: recorded_all metric_at_fold metric_at_New)
qed

text \<open>The overlap happens: two calls for one map, both of whose counters are missing, can end the process.\<close>

lemma counter_data_race:
  fixes a b :: gostring
  defines "calls \<equiv> [Slot (Results 0) a, Slot (Results 0) b]"
  shows "\<exists>s. counter_run calls [1, 1, 1, 1, 1, 0] counters_init = Some s \<and> cn_fault s"
proof -
  have "case counter_run calls [1, 1, 1, 1, 1, 0] counters_init of None \<Rightarrow> False | Some s \<Rightarrow> cn_fault s"
    by (simp add: calls_def counters_init_def counter_step_def move_def at_map_def Let_def)
  then show ?thesis by (cases "counter_run calls [1, 1, 1, 1, 1, 0] counters_init") simp_all
qed

definition sample_calls :: "slot list" where
  "sample_calls = [Slot (Results 0) ''noerror'', Slot (Failures 0) ''timeout'', Slot (Results 0) ''noerror'']"

theorem counters_exact_witness:
  "\<exists>s. counter_run sample_calls [0, 2, 2, 0, 1, 1, 0, 0, 0, 0, 0, 2, 2, 0, 2, 2, 1, 1, 1, 1, 1, 1] counters_init = Some s
    \<and> value_of s (Slot (Results 0) ''noerror'') = 2"
proof -
  let ?gs = "[0, 2, 2, 0, 1, 1, 0, 0, 0, 0, 0, 2, 2, 0, 2, 2, 1, 1, 1, 1, 1, 1]"
  have "case counter_run sample_calls ?gs counters_init of None \<Rightarrow> False
      | Some s \<Rightarrow> \<not> cn_fault s \<and> (\<forall>g<length sample_calls. cn_pos s g = Recorded)"
    by (simp add: sample_calls_def counters_init_def counter_step_def move_def at_map_def Let_def numeral_2_eq_2 All_less_Suc)
  then obtain s where s: "counter_run sample_calls ?gs counters_init = Some s" and ok: "\<not> cn_fault s"
    and all: "\<forall>g<length sample_calls. cn_pos s g = Recorded"
    by (auto split: option.splits)
  have "value_of s (Slot (Results 0) ''noerror'') = of_nat (recorded sample_calls s (Slot (Results 0) ''noerror''))"
    using counters_exact [OF s] ok by blast
  then show ?thesis using s recorded_all [OF all] by (simp add: sample_calls_def)
qed

end
