(* ===== verification/Observed.thy ===== *)
theory Observed
  imports MainProg
begin

text \<open>
  What a scrape of the running program tells of its resolutions: the fan-outs of theory Engine report every
  outcome they receive to the callback of \<^verbatim>\<open>main\<close>, the callback counts it, and \<^verbatim>\<open>Write\<close> exports the counter. The
  resolutions run concurrently, so that their reports interleave, and may start before or after a reload.
\<close>

section \<open>The resolutions of a program\<close>

definition program_fan :: "running_program \<Rightarrow> fan \<Rightarrow> bool" where
  "program_fan p f \<longleftrightarrow> fan_engine f = UpdateAssets (rp_engine p) (fan_assets f)"

text \<open>The outcome of upstream \<open>i\<close> as the callback gets it.\<close>

definition report_of :: "fan \<Rightarrow> nat \<Rightarrow> nat \<times> State \<times> gostring" where
  "report_of f i = (i, res_state (fan_answer f i), ErrCategory (fan_answer f i))"

definition observed_inv :: "fan \<Rightarrow> fan_state \<Rightarrow> bool" where
  "observed_inv f s \<longleftrightarrow>
     (\<exists>order. distinct order \<and> set order \<inter> running s = {} \<and> set order \<union> running s = {0..<fan_n f}
        \<and> on_result s @ map (\<lambda>oc. (oc_idx oc, res_state (oc_result oc), ErrCategory (oc_result oc))) (chan s) = map (report_of f) order
        \<and> results s @ map oc_result (chan s) = map (fan_answer f) order)"

lemma observed_inv_reach:
  assumes "fan_reach f s" "en_onresult (fan_engine f)"
  shows "observed_inv f s"
  using assms(1)
proof (induction rule: fan_reach.induct)
  case init
  show ?case by (auto simp: observed_inv_def fan_init_def)
next
  case (step s c s')
  then obtain order where o: "distinct order" "set order \<inter> running s = {}" "set order \<union> running s = {0..<fan_n f}"
    "on_result s @ map (\<lambda>oc. (oc_idx oc, res_state (oc_result oc), ErrCategory (oc_result oc))) (chan s) = map (report_of f) order"
    "results s @ map oc_result (chan s) = map (fan_answer f) order"
    by (auto simp: observed_inv_def)
  show ?case
  proof (cases c)
    case (Finish i l)
    with step.hyps(2) o show ?thesis
      by (auto simp: observed_inv_def report_of_def split: if_splits intro!: exI [of _ "order @ [i]"])
  next
    case Receive
    with step.hyps(2) o show ?thesis
      by (auto simp: observed_inv_def receive_def Let_def assms(2) split: option.splits list.splits intro!: exI [of _ order])
  next
    case CtxDone
    with step.hyps(2) o show ?thesis by (auto simp: observed_inv_def split: option.splits intro!: exI [of _ order])
  qed
qed

lemma observed_order:
  assumes "fan_reach f s" "en_onresult (fan_engine f)"
  obtains order where "distinct order" "set order \<subseteq> {0..<fan_n f}" "on_result s = map (report_of f) order" "results s = map (fan_answer f) order"
proof -
  obtain order where o: "distinct order" "set order \<subseteq> {0..<fan_n f}"
    "on_result s @ map (\<lambda>oc. (oc_idx oc, res_state (oc_result oc), ErrCategory (oc_result oc))) (chan s) = map (report_of f) order"
    "results s @ map oc_result (chan s) = map (fan_answer f) order"
    using observed_inv_reach [OF assms] by (auto simp: observed_inv_def)
  have len: "length (results s) = length (on_result s)"
    using arg_cong [OF o(3), of length] arg_cong [OF o(4), of length] by simp
  show thesis
  proof (rule that [of "take (length (on_result s)) order"])
    show "on_result s = map (report_of f) (take (length (on_result s)) order)"
      unfolding take_map [symmetric] o(3) [symmetric] by simp
    show "results s = map (fan_answer f) (take (length (on_result s)) order)"
      unfolding take_map [symmetric] o(4) [symmetric] by (simp add: len [symmetric])
  qed (use o(1,2) in \<open>auto dest: in_set_takeD\<close>)
qed

section \<open>Categories\<close>

lemma Category_ascii: "ascii (Category e)"
  by (cases e) (simp_all add: ascii_def)

lemma chase_loop_category:
  assumes "\<And>c. ascii (rcode_string lib c)" "ascii (ErrCategory res)"
  shows "ascii (ErrCategory (fst (chase_loop env lib a res t cl pending seen lookups asked)))"
  using assms
proof (induction env lib a res t cl pending seen lookups asked rule: chase_loop.induct)
  case (2 env lib a res t cl cur pending seen lookups asked)
  have lit: "ascii ''timeout''" "ascii ''cname-maxdepth''" "ascii ''rcode-''" by (simp_all add: ascii_def)
  have reply: "ascii (ErrCategory r)" if "hop_reply lib (ca_qtype a) cur res resp = Inl r" for resp r
    using that 2(3,4) lit by (auto simp: hop_reply_def Let_def split: if_splits prod.splits)
  show ?case
    using 2 lit Category_ascii by (auto simp: failed_def chase_loop.simps(2) dest: reply split: option.splits prod.splits sum.splits)
qed simp

lemma fan_answer_category:
  assumes "\<And>c. ascii (rcode_string (fan_lib f) c)"
  shows "ascii (ErrCategory (fan_answer f i))"
  unfolding fan_answer_def ask_upstream_def Let_def Chase_def
  using chase_loop_category [OF assms, of "empty_result _"] by (simp add: empty_result_def ascii_def)

lemma fan_answer_Server [simp]: "Server (fan_answer f i) = ap_addr (up_addr (en_upstreams (fan_engine f) ! i))"
  by (simp add: fan_answer_def ask_upstream_def Let_def)

section \<open>Counting the reports\<close>

lemma log_count_mset: "mset log = mset log' \<Longrightarrow> log_count log i st = log_count log' i st"
  unfolding log_count_def by (metis mset_filter size_mset)

lemma log_count_concat: "log_count (concat ls) i st = (\<Sum>l\<leftarrow>ls. log_count l i st)"
  by (induction ls) (simp_all add: log_count_def)

lemma sum_list_indicator: "(\<Sum>x\<leftarrow>xs. if P x then 1 else 0 :: nat) = length (filter P xs)"
  by (induction xs) simp_all

text \<open>Among the reports of a resolution is one of this state from this server.\<close>

definition reported :: "fan_state \<Rightarrow> addr \<Rightarrow> State \<Rightarrow> bool" where
  "reported s srv st \<longleftrightarrow> list_ex (\<lambda>r. rep_server r = srv \<and> rep_state r = st) (reports s)"

lemma program_fan_engine:
  assumes "start_program decode frac files stat_ok fs now path = Inr (cfg, p)" "program_fan p f"
  shows "en_onresult (fan_engine f)" "en_upstreams (fan_engine f) = rp_upstreams p"
  using start_program_parts(2) [OF assms(1)] assms(2) by (auto simp: program_fan_def UpdateAssets_def Engine_New_def)

lemma upstream_addrs_distinct:
  assumes "start_program decode frac files stat_ok fs now path = Inr (cfg, p)"
  shows "distinct (map (ap_addr \<circ> up_addr) (rp_upstreams p))"
proof -
  have "distinct (map cu_addr (Upstreams cfg))"
    using loadConfig_valid [OF start_program_parts(1) [OF assms]] by (simp add: valid_config_def valid_sources_def)
  then show ?thesis using arg_cong [OF rp_metrics_ups(3) [OF assms], of "map ap_addr"] by (simp add: comp_def)
qed

lemma resolution_count:
  assumes start: "start_program decode frac files stat_ok fs now path = Inr (cfg, p)"
    and f: "program_fan p f" and reach: "fan_reach f s" and i: "i < length (rp_upstreams p)"
  shows "log_count (on_result s) i st = (if reported s (ap_addr (up_addr (rp_upstreams p ! i))) st then 1 else 0)"
proof -
  note eng = program_fan_engine [OF start f]
  obtain order where o: "distinct order" "set order \<subseteq> {0..<fan_n f}" "on_result s = map (report_of f) order" "results s = map (fan_answer f) order"
    by (rule observed_order [OF reach eng(1)])
  have "map (\<lambda>r. (rep_server r, rep_state r)) (reports s) = map (\<lambda>r. (Server r, res_state r)) (results s)"
    using arg_cong [OF conjunct1 [OF fan_logged_reach [OF reach, unfolded fan_logged_def]], of "map (\<lambda>(a, b, c). (a, b))"]
    by (simp add: comp_def)
  moreover have "reported s srv st \<longleftrightarrow> (srv, st) \<in> set (map (\<lambda>r. (rep_server r, rep_state r)) (reports s))" for srv
    by (auto simp: reported_def list_ex_iff)
  ultimately have "reported s srv st \<longleftrightarrow> (\<exists>j\<in>set order. ap_addr (up_addr (rp_upstreams p ! j)) = srv \<and> res_state (fan_answer f j) = st)" for srv
    by (auto simp: o(4) eng(2))
  moreover have "ap_addr (up_addr (rp_upstreams p ! j)) = ap_addr (up_addr (rp_upstreams p ! i)) \<longleftrightarrow> j = i" if "j \<in> set order" for j
    using nth_eq_iff_index_eq [OF upstream_addrs_distinct [OF start], of j i] that o(2) i by (auto simp: eng(2))
  ultimately have "reported s (ap_addr (up_addr (rp_upstreams p ! i))) st \<longleftrightarrow> i \<in> set order \<and> res_state (fan_answer f i) = st" by auto
  moreover have "log_count (on_result s) i st = length (filter (\<lambda>j. j = i \<and> res_state (fan_answer f i) = st) order)"
    unfolding log_count_def o(3) by (auto simp: filter_map comp_def report_of_def intro!: arg_cong [of _ _ length] filter_cong)
  moreover have "length (filter (\<lambda>j. j = i) order) = (if i \<in> set order then 1 else 0)"
    using distinct_length_filter [OF o(1), of "\<lambda>j. j = i"] by simp
  ultimately show ?thesis by simp
qed

lemma resolutions_log:
  assumes start: "start_program decode frac files stat_ok fs now path = Inr (cfg, p)"
    and runs: "\<forall>(f, s)\<in>set runs. program_fan p f \<and> fan_reach f s"
    and log: "mset log = mset (concat (map (on_result \<circ> snd) runs))" and i: "i < length (rp_upstreams p)"
  shows "log_count log i st = length (filter (\<lambda>x. reported (snd x) (ap_addr (up_addr (rp_upstreams p ! i))) st) runs)"
proof -
  have "log_count log i st = (\<Sum>x\<leftarrow>runs. log_count (on_result (snd x)) i st)"
    unfolding log_count_mset [OF log] log_count_concat by (simp add: comp_def)
  also have "\<dots> = (\<Sum>x\<leftarrow>runs. if reported (snd x) (ap_addr (up_addr (rp_upstreams p ! i))) st then 1 else 0)"
    by (rule arg_cong [of _ _ sum_list], rule map_cong) (use runs resolution_count [OF start _ _ i] in auto)
  finally show ?thesis unfolding sum_list_indicator .
qed

lemma resolutions_log_fields:
  assumes start: "start_program decode frac files stat_ok fs now path = Inr (cfg, p)"
    and runs: "\<forall>(f, s)\<in>set runs. program_fan p f \<and> fan_reach f s" "\<forall>(f, s)\<in>set runs. \<forall>c. ascii (rcode_string (fan_lib f) c)"
    and log: "mset log = mset (concat (map (on_result \<circ> snd) runs))" and x: "x \<in> set log"
  shows "fst x < length (rp_upstreams p) \<and> ascii (snd (snd x))"
proof -
  obtain f s where fs: "(f, s) \<in> set runs" "x \<in> set (on_result s)" using x unfolding mset_eq_setD [OF log] by auto
  then have f: "program_fan p f" "fan_reach f s" "\<And>c. ascii (rcode_string (fan_lib f) c)" using runs by auto
  note eng = program_fan_engine [OF start f(1)]
  obtain order where "set order \<subseteq> {0..<fan_n f}" "on_result s = map (report_of f) order"
    by (rule observed_order [OF f(2) eng(1)])
  then show ?thesis using fs(2) fan_answer_category [OF f(3)] by (auto simp: report_of_def eng(2))
qed

end
