(* ===== verification/Served.thy ===== *)
theory Served
  imports Resolve
begin

text \<open>
  What a caller of \<^verbatim>\<open>Service.Lookup\<close> is served, across \<^verbatim>\<open>internal/resolve\<close>, \<^verbatim>\<open>internal/cache\<close> and
  \<^verbatim>\<open>internal/engine\<close>: every value comes from a run of the engine for a name with the same cache key and
  for the same type, whether it was computed for this call, shared in a flight or taken from the cache.
  Here an engine run is tied to the question of the call that starts it.
\<close>

section \<open>Flights carry values of their key\<close>

text \<open>The key and the flight a caller has joined.\<close>

fun joined :: "caller \<Rightarrow> (CacheKey \<times> nat) option" where
  "joined (Leading k f) = Some (k, f)"
| "joined (Closing k f v) = Some (k, f)"
| "joined (Waiting k f) = Some (k, f)"
| "joined _ = None"

text \<open>A property of the values that callers are about to return with or can pick up.\<close>

fun holds_for :: "(CacheKey \<Rightarrow> Value \<Rightarrow> bool) \<Rightarrow> flight_state \<Rightarrow> caller \<Rightarrow> bool" where
  "holds_for P fs (Closing k f v) \<longleftrightarrow> P k v"
| "holds_for P fs (Waiting k f) \<longleftrightarrow> (fl_done fs f \<longrightarrow> P k (fl_value fs f))"
| "holds_for P fs _ \<longleftrightarrow> True"

definition shares :: "(CacheKey \<Rightarrow> Value \<Rightarrow> bool) \<Rightarrow> flight_state \<Rightarrow> bool" where
  "shares P fs \<longleftrightarrow> (\<forall>i. holds_for P fs (callers fs i))
     \<and> (\<forall>i j k k' f. joined (callers fs i) = Some (k, f) \<longrightarrow> joined (callers fs j) = Some (k', f) \<longrightarrow> k = k')"

lemma shares_key: "shares P fs \<Longrightarrow> joined (callers fs i) = Some (k, f) \<Longrightarrow> joined (callers fs j) = Some (k', f) \<Longrightarrow> k = k'"
  unfolding shares_def by blast

lemma joined_bound: "caller_ok fs c \<Longrightarrow> joined c = Some (k, f) \<Longrightarrow> f < fl_next fs"
  by (cases c) auto

lemma holds_for_cong:
  assumes "holds_for P fs c" "caller_ok fs c"
    and "\<And>f. f < fl_next fs \<Longrightarrow> fl_done fs' f \<Longrightarrow> fl_done fs f \<and> fl_value fs' f = fl_value fs f"
  shows "holds_for P fs' c"
proof (cases c)
  case (Waiting k f)
  then show ?thesis using assms by auto
qed (use assms(1) in auto)

lemma shares_init: "shares P (flight_init c)"
  by (simp add: shares_def flight_init_def)

lemma shares_move:
  assumes "shares P fs" "flight_inv fs" "callers fs' = (callers fs)(i := c)" "holds_for P fs' c"
    and "\<And>f. f < fl_next fs \<Longrightarrow> fl_done fs' f \<Longrightarrow> fl_done fs f \<and> fl_value fs' f = fl_value fs f"
    and "\<And>k k' f j. joined c = Some (k, f) \<Longrightarrow> j \<noteq> i \<Longrightarrow> joined (callers fs j) = Some (k', f) \<Longrightarrow> k = k'"
  shows "shares P fs'"
proof -
  have "holds_for P fs' (callers fs' j)" for j
    using assms(1,3,4) holds_for_cong [OF _ inv_caller [OF assms(2), of j] assms(5)] by (auto simp: shares_def)
  moreover have "k = k'" if h: "joined (callers fs' a) = Some (k, f)" "joined (callers fs' b) = Some (k', f)" for a b k k' f
  proof -
    have old: "joined (callers fs a) = Some (k, f) \<Longrightarrow> joined (callers fs b) = Some (k', f) \<Longrightarrow> k = k'"
      by (rule shares_key [OF assms(1)])
    consider "a = i" "b = i" | "a = i" "b \<noteq> i" | "a \<noteq> i" "b = i" | "a \<noteq> i" "b \<noteq> i" by blast
    then show ?thesis
      using h old assms(3) assms(6) [of k f b k'] assms(6) [of k' f a k] by cases simp_all
  qed
  ultimately show ?thesis unfolding shares_def by blast
qed

text \<open>What a step must not break: the value a function returns has the property.\<close>

definition returns_ok :: "(CacheKey \<Rightarrow> Value \<Rightarrow> bool) \<Rightarrow> flight_op \<Rightarrow> flight_state \<Rightarrow> bool" where
  "returns_ok P x fs \<longleftrightarrow> (\<forall>i v b k f. x = FnReturns i v b \<longrightarrow> callers fs i = Leading k f \<longrightarrow> P k v)"

lemma shares_Enter [inv_intros]:
  assumes "flight_inv fs" "shares P fs" "do_step (Enter i k) fs = Some fs'"
  shows "shares P fs'"
proof (cases "flights (fl_cache fs) k")
  case None
  have fresh: "joined (callers fs j) \<noteq> Some (k', fl_next fs)" for j k'
    using joined_bound [OF inv_caller [OF assms(1), of j]] by fastforce
  show ?thesis
    by (rule shares_move [OF assms(2,1), where i = i and c = "Leading k (fl_next fs)"])
      (use assms(3) None fresh in \<open>auto simp: Let_def split: if_splits\<close>)
next
  case (Some f)
  obtain l where l: "callers fs l = Leading k f" using inv_leader [OF assms(1) Some] by blast
  then have live: "\<not> fl_done fs f" using inv_caller [OF assms(1), of l] by simp
  have key: "k = k'" if "joined (callers fs j) = Some (k', f)" for j k'
    using shares_key [OF assms(2), of l k f j k'] l that by simp
  show ?thesis
    by (rule shares_move [OF assms(2,1), where i = i and c = "Waiting k f"])
      (use assms(3) Some live key in \<open>auto split: if_splits\<close>)
qed

lemma shares_FnReturns [inv_intros]:
  assumes "flight_inv fs" "shares P fs" "returns_ok P (FnReturns i v b) fs" "do_step (FnReturns i v b) fs = Some fs'"
  shows "shares P fs'"
proof -
  obtain k f c where lead: "callers fs i = Leading k f"
    and fs': "fs' = fs\<lparr>fl_value := (fl_value fs)(f := v), fl_cache := c, callers := (callers fs)(i := Closing k f v)\<rparr>"
    using do_step_FnReturns [OF assms(4)] by metis
  have live: "\<not> fl_done fs f" using inv_caller [OF assms(1), of i] lead by simp
  have key: "k = k'" if "joined (callers fs j) = Some (k', f)" for j k'
    using shares_key [OF assms(2), of i k f j k'] lead that by simp
  show ?thesis
    by (rule shares_move [OF assms(2,1), where i = i and c = "Closing k f v"])
      (use assms(3) lead live key in \<open>auto simp: fs' returns_ok_def\<close>)
qed

lemma shares_CloseDone [inv_intros]:
  assumes "flight_inv fs" "shares P fs" "do_step (CloseDone i) fs = Some fs'"
  shows "shares P fs'"
proof -
  obtain k f v where cl: "callers fs i = Closing k f v"
    and fs': "fs' = fs\<lparr>fl_done := (fl_done fs)(f := True), callers := (callers fs)(i := Finished k f (Inr v))\<rparr>"
    using assms(3) by (auto split: caller.splits)
  have v: "fl_value fs f = v" "P k v"
    using inv_caller [OF assms(1), of i] assms(2) cl by (auto simp: shares_def dest: spec [of _ i])
  have key: "k = k'" if "joined (callers fs j) = Some (k', f)" for j k'
    using shares_key [OF assms(2), of i k f j k'] cl that by simp
  have "holds_for P fs' (callers fs' j)" for j
  proof (cases "j = i")
    case False
    have "holds_for P fs (callers fs j)" using assms(2) by (simp add: shares_def)
    then show ?thesis
      using False v key [of j] by (cases "(P, fs, callers fs j)" rule: holds_for.cases) (auto simp: fs')
  qed (simp add: fs' v)
  moreover have "joined (callers fs' j) = Some (k', f') \<Longrightarrow> joined (callers fs j) = Some (k', f')" for j k' f'
    by (auto simp: fs' split: if_splits)
  ultimately show ?thesis using assms(2) unfolding shares_def by metis
qed

lemma shares_leave:
  assumes "flight_inv fs" "shares P fs"
  shows "shares P (fs\<lparr>callers := (callers fs)(i := Finished k f r)\<rparr>)"
  by (rule shares_move [OF assms(2,1), where i = i and c = "Finished k f r"]) auto

lemma shares_Wake [inv_intros]: "flight_inv fs \<Longrightarrow> shares P fs \<Longrightarrow> do_step (Wake i) fs = Some fs' \<Longrightarrow> shares P fs'"
  by (auto split: caller.splits if_splits intro: shares_leave)

lemma shares_GiveUp [inv_intros]: "flight_inv fs \<Longrightarrow> shares P fs \<Longrightarrow> do_step (GiveUp i e) fs = Some fs' \<Longrightarrow> shares P fs'"
  by (auto split: caller.splits intro: shares_leave)

lemma shares_cache [simp]: "shares P (fs\<lparr>fl_cache := c\<rparr>) = shares P fs"
proof -
  have "holds_for P (fs\<lparr>fl_cache := c\<rparr>) x = holds_for P fs x" for x
    by (cases "(P, fs, x)" rule: holds_for.cases) simp_all
  then show ?thesis by (simp add: shares_def)
qed

lemma shares_step:
  assumes "flight_inv fs" "shares P fs" "returns_ok P x fs" "do_step x fs = Some fs'"
  shows "shares P fs'"
proof (cases x)
  case (Other op)
  then obtain c where "fs' = fs\<lparr>fl_cache := c\<rparr>" using assms(4) by (auto simp del: cache_do.simps split: option.splits)
  then show ?thesis using assms(2) by simp
qed (use assms in \<open>auto simp del: do_step.simps intro: inv_intros\<close>)

lemma joined_step:
  assumes "do_step y fs = Some fs'" "joined (callers fs' j) = Some (k, f)"
  shows "joined (callers fs j) = Some (k, f) \<or> y = Enter j k"
proof (cases y)
  case (FnReturns i v b)
  obtain k' f' c where "callers fs i = Leading k' f'"
    "fs' = fs\<lparr>fl_value := (fl_value fs)(f' := v), fl_cache := c, callers := (callers fs)(i := Closing k' f' v)\<rparr>"
    using do_step_FnReturns [OF assms(1) [unfolded FnReturns]] by metis
  then show ?thesis using assms(2) by (auto split: if_splits)
next
  case (Other op)
  then show ?thesis using assms by (auto simp del: cache_do.simps split: option.splits)
qed (use assms in \<open>auto simp: Let_def split: if_splits option.splits caller.splits\<close>)

section \<open>Where served values come from\<close>

text \<open>The question a call is working on.\<close>

fun asks :: "call \<Rightarrow> (gostring \<times> u16) option" where
  "asks (Asked q t) = Some (q, t)"
| "asks (InDo q t) = Some (q, t)"
| "asks (Direct q t) = Some (q, t)"
| "asks _ = None"

text \<open>
  \<open>G q t res\<close> says that the engine can return \<open>res\<close> for the question \<open>(q, t)\<close>. The closure that
  \<^verbatim>\<open>Lookup\<close> passes to \<^verbatim>\<open>Do\<close> calls \<^verbatim>\<open>Engine.Resolve\<close> with the question of its own call.
\<close>

definition tied :: "(gostring \<Rightarrow> u16 \<Rightarrow> Result \<Rightarrow> bool) \<Rightarrow> service_op \<Rightarrow> service_state \<Rightarrow> bool" where
  "tied G x st \<longleftrightarrow> (\<forall>i res. x = EngineOp i res \<longrightarrow> (\<exists>q t. asks (ss_call st i) = Some (q, t) \<and> G q t res))"

inductive served_reach :: "Service \<Rightarrow> Cache \<Rightarrow> (gostring \<Rightarrow> u16 \<Rightarrow> Result \<Rightarrow> bool) \<Rightarrow> service_state \<Rightarrow> bool" for s c G where
  init: "served_reach s c G (service_init c)"
| step: "served_reach s c G st \<Longrightarrow> tied G x st \<Longrightarrow> svc_step s x st = Some st' \<Longrightarrow> served_reach s c G st'"

definition same_answer :: "Value \<Rightarrow> Value \<Rightarrow> bool" where
  "same_answer v w \<longleftrightarrow> v\<lparr>v_ttl := 0, v_expires := 0\<rparr> = w\<lparr>v_ttl := 0, v_expires := 0\<rparr>"

definition from_run :: "(gostring \<Rightarrow> u16 \<Rightarrow> Result \<Rightarrow> bool) \<Rightarrow> CacheKey \<Rightarrow> Value \<Rightarrow> bool" where
  "from_run G k v \<longleftrightarrow> (\<exists>q t res. lookup_key q t = k \<and> G q t res \<and> same_answer v (fromEngine res))"

lemma from_run_cong:
  assumes "from_run G k v0" "v\<lparr>v_expires := 0\<rparr> = v0\<lparr>v_ttl := v_ttl v\<rparr>"
  shows "from_run G k v"
proof -
  have "same_answer v v0"
    using arg_cong [OF assms(2), of "\<lambda>w. w\<lparr>v_ttl := 0, v_expires := 0\<rparr>"] by (simp add: same_answer_def)
  then show ?thesis using assms(1) by (auto simp: from_run_def same_answer_def)
qed

lemma from_run_expires [simp]: "from_run G k (v\<lparr>v_expires := n\<rparr>) = from_run G k v"
  by (simp add: from_run_def same_answer_def)

lemma service_resolve_same: "same_answer (fst (service_resolve s res)) (fromEngine res)"
  by (auto simp: service_resolve_def same_answer_def Let_def split: option.splits)

definition linked :: "service_state \<Rightarrow> bool" where
  "linked st \<longleftrightarrow> (\<forall>i k f. joined (callers (ss_flight st) i) = Some (k, f) \<longrightarrow>
     (\<exists>q t. ss_call st i = InDo q t \<and> lookup_key q t = k))"

definition served_inv :: "(gostring \<Rightarrow> u16 \<Rightarrow> Result \<Rightarrow> bool) \<Rightarrow> service_state \<Rightarrow> bool" where
  "served_inv G st \<longleftrightarrow> do_inv (ss_flight st) \<and> lru.holds_only (from_run G) (fl_cache (ss_flight st))
     \<and> shares (from_run G) (ss_flight st) \<and> linked st"

lemma served_flight:
  assumes "served_inv G st" "do_step y (ss_flight st) = Some fs" "returns_ok (from_run G) y (ss_flight st)"
    and "\<And>k v ttl. y \<noteq> Other (OpSet k v ttl)"
  shows "do_inv fs \<and> lru.holds_only (from_run G) (fl_cache fs) \<and> shares (from_run G) fs"
proof -
  have i: "do_inv (ss_flight st)" "flight_inv (ss_flight st)" "lru.holds_only (from_run G) (fl_cache (ss_flight st))"
    "shares (from_run G) (ss_flight st)"
    using assms(1) by (simp_all add: served_inv_def do_inv_def)
  have "lru.holds_only (from_run G) (fl_cache fs)"
    by (rule do_step_safe [OF i(1,3) assms(2)]) (use assms(3,4) in \<open>auto simp: returns_ok_def\<close>)
  then show ?thesis
    using do_inv_step [OF i(1) assms(2)] shares_step [OF i(2,4) assms(3,2)] by blast
qed

text \<open>A step of a flight that is not the return of a function, made for one call.\<close>

lemma served_quiet:
  assumes "served_inv G st" "do_step y (ss_flight st) = Some (ss_flight st')" "linked st'"
    and "\<And>i v b. y \<noteq> FnReturns i v b" "\<And>k v ttl. y \<noteq> Other (OpSet k v ttl)"
  shows "served_inv G st'"
  using served_flight [OF assms(1,2) _ assms(5)] assms(3,4) by (simp add: served_inv_def returns_ok_def)

lemma linked_step:
  assumes "linked st" "do_step y (ss_flight st) = Some (ss_flight st')"
    and "\<And>j k. y = Enter j k \<Longrightarrow> \<exists>q t. ss_call st' j = InDo q t \<and> lookup_key q t = k"
    and "\<And>j k f. joined (callers (ss_flight st') j) = Some (k, f) \<Longrightarrow> (\<forall>k. y \<noteq> Enter j k) \<Longrightarrow> ss_call st' j = ss_call st j"
  shows "linked st'"
  unfolding linked_def
proof (intro allI impI)
  fix j k f
  assume h: "joined (callers (ss_flight st') j) = Some (k, f)"
  show "\<exists>q t. ss_call st' j = InDo q t \<and> lookup_key q t = k"
  proof (cases "y = Enter j k")
    case False
    then have old: "joined (callers (ss_flight st) j) = Some (k, f)" using joined_step [OF assms(2) h] by blast
    then obtain q t where "ss_call st j = InDo q t" "lookup_key q t = k" using assms(1) unfolding linked_def by blast
    moreover have "ss_call st' j = ss_call st j"
    proof (cases "\<exists>k'. y = Enter j k'")
      case True
      then show ?thesis using assms(2) old by (auto split: if_splits)
    qed (use assms(4) [OF h] in blast)
    ultimately show ?thesis by simp
  qed (use assms(3) in blast)
qed

lemma finish_call_calls:
  "ss_call (finish_call i st fs) = (case callers fs i of Finished k f r \<Rightarrow> (ss_call st)(i := Answered r) | _ \<Rightarrow> ss_call st)"
  by (simp add: finish_call_def split: caller.splits)

lemma linked_finish:
  assumes "linked st" "do_step y (ss_flight st) = Some fs" "\<And>j k. y \<noteq> Enter j k"
  shows "linked (finish_call i st fs)"
  by (rule linked_step [OF assms(1), where y = y])
    (use assms(2,3) in \<open>auto simp: finish_call_calls split: caller.splits\<close>)

lemma served_Lookup [inv_intros]:
  assumes "served_inv G st" "svc_step s (LookupOp i q t) st = Some st'"
  shows "served_inv G st'"
proof -
  have inv: "do_inv (ss_flight st)" "flight_inv (ss_flight st)" "lru.holds_only (from_run G) (fl_cache (ss_flight st))"
    "shares (from_run G) (ss_flight st)" "linked st"
    using assms(1) by (simp_all add: served_inv_def do_inv_def)
  obtain c pos where b: "Lookup_begin s (fl_cache (ss_flight st)) q t = (c, pos)" by fastforce
  have st': "st' = st\<lparr>ss_flight := (ss_flight st)\<lparr>fl_cache := c\<rparr>, ss_call := (ss_call st)(i := pos)\<rparr>" "ss_call st i = NotStarted"
    using assms(2) b by (auto split: call.splits)
  have "linked st'" using inv(5) st'(2) by (fastforce simp: linked_def st'(1))
  then show ?thesis
    using Lookup_begin_safe [OF inv(3) b] flight_inv_cache [OF inv(2), of c] inv(4)
    by (simp add: served_inv_def do_inv_def st'(1) lru.holds_only_def)
qed

lemma served_Engine [inv_intros]:
  assumes "served_inv G st" "tied G (EngineOp i res) st" "svc_step s (EngineOp i res) st = Some st'"
  shows "served_inv G st'"
proof (cases "ss_call st i")
  case (InDo q t)
  obtain v b where r: "service_resolve s res = (v, b)" by fastforce
  have st': "do_step (FnReturns i v b) (ss_flight st) = Some (ss_flight st')" "ss_call st' = ss_call st"
    using assms(3) InDo r by (auto simp del: do_step.simps)
  have G: "G q t res" "same_answer v (fromEngine res)"
    using assms(2) InDo service_resolve_same [of s res] r by (auto simp: tied_def)
  have "returns_ok (from_run G) (FnReturns i v b) (ss_flight st)"
  proof -
    have "lookup_key q t = k" if "callers (ss_flight st) i = Leading k f" for k f
      using assms(1) that InDo by (auto simp: served_inv_def linked_def dest!: spec [of _ i])
    then show ?thesis using G by (auto simp: returns_ok_def from_run_def)
  qed
  moreover have "linked st'"
    by (rule linked_step [OF _ st'(1)]) (use assms(1) st'(2) in \<open>auto simp: served_inv_def\<close>)
  ultimately show ?thesis using served_flight [OF assms(1) st'(1)] by (simp add: served_inv_def)
next
  case (Direct q t)
  then have "ss_flight st' = ss_flight st" "linked st'"
    using assms(1,3) by (auto simp: served_inv_def linked_def) fastforce
  then show ?thesis using assms(1) by (simp add: served_inv_def)
qed (use assms(3) in auto)

lemma served_Enter [inv_intros]:
  assumes "served_inv G st" "svc_step s (EnterOp i) st = Some st'"
  shows "served_inv G st'"
proof -
  obtain q t where a: "ss_call st i = Asked q t" "do_step (Enter i (lookup_key q t)) (ss_flight st) = Some (ss_flight st')"
    "ss_call st' = (ss_call st)(i := InDo q t)"
    using assms(2) by (auto simp del: do_step.simps split: call.splits)
  have "linked st'"
    by (rule linked_step [OF _ a(2)]) (use assms(1) a(3) in \<open>auto simp: served_inv_def split: if_splits\<close>)
  then show ?thesis by (rule served_quiet [OF assms(1) a(2)]) simp_all
qed

lemma served_finish [inv_intros]:
  assumes "served_inv G st" "do_step y (ss_flight st) = Some fs"
    and "\<And>i v b. y \<noteq> FnReturns i v b" "\<And>k v ttl. y \<noteq> Other (OpSet k v ttl)" "\<And>j k. y \<noteq> Enter j k"
  shows "served_inv G (finish_call i st fs)"
proof -
  have "linked (finish_call i st fs)" using linked_finish [OF _ assms(2,5)] assms(1) by (simp add: served_inv_def)
  then show ?thesis using served_quiet [OF assms(1) _ _ assms(3,4)] assms(2) by simp
qed

lemma served_step:
  assumes "served_inv G st" "tied G x st" "svc_step s x st = Some st'"
  shows "served_inv G st'"
proof (cases "x = FlushOp \<or> x = SweepOp")
  case True
  then obtain op where op: "do_step (Other op) (ss_flight st) = Some (ss_flight st')" "ss_call st' = ss_call st"
    "op = OpFlush \<or> op = OpSweep"
    using assms(3) by (auto simp del: do_step.simps)
  have "linked st'" by (rule linked_step [OF _ op(1)]) (use assms(1) op(2) in \<open>auto simp: served_inv_def\<close>)
  then show ?thesis by (rule served_quiet [OF assms(1) op(1)]) (use op(3) in auto)
next
  case False
  then show ?thesis
  proof (cases x)
    case (LookupOp i q t)
    then show ?thesis using assms by (auto simp del: svc_step.simps intro: inv_intros)
  next
    case (EngineOp i res)
    then show ?thesis using assms by (auto simp del: svc_step.simps intro: inv_intros)
  next
    case (EnterOp i)
    then show ?thesis using assms by (auto simp del: svc_step.simps intro: inv_intros)
  qed (use assms(1,3) False in \<open>auto simp del: do_step.simps intro: inv_intros\<close>)
qed

lemma served_inv_reach:
  assumes "served_reach s (Cache_New n now) G st" "0 \<le> n" "mono now"
  shows "served_inv G st"
  using assms(1)
proof (induction rule: served_reach.induct)
  case init
  have c: "flights (Cache_New n now) = Map.empty" "held (Cache_New n now) = {}"
    by (simp_all add: Cache_New_def held_def entries_def)
  have "do_inv (flight_init (Cache_New n now))"
    using do_inv_reach [OF do_reach.init] cache_ok_New [OF assms(2,3)] c(1) by blast
  then show ?case
    using c(2) cache_ok_New [OF assms(2,3)]
    by (simp add: served_inv_def service_init_def lru.holds_only_def shares_init linked_def) (simp add: flight_init_def)
next
  case (step st x st')
  then show ?case using served_step by blast
qed

text \<open>
  A flush empties the cache. What is served afterwards for a key that nobody was asking for at the flush does
  not depend on the runs before it: \<open>after K G\<close> lets the calls for the keys in \<open>K\<close> return anything.
\<close>

definition under_way :: "service_state \<Rightarrow> CacheKey set" where
  "under_way st = {k. \<exists>i q t. asks (ss_call st i) = Some (q, t) \<and> lookup_key q t = k}"

definition after :: "CacheKey set \<Rightarrow> (gostring \<Rightarrow> u16 \<Rightarrow> Result \<Rightarrow> bool) \<Rightarrow> gostring \<Rightarrow> u16 \<Rightarrow> Result \<Rightarrow> bool" where
  "after K G q t res \<longleftrightarrow> lookup_key q t \<in> K \<or> G q t res"

lemma from_run_after: "from_run (after K G) k v \<Longrightarrow> k \<notin> K \<Longrightarrow> from_run G k v"
  by (auto simp: from_run_def after_def)

lemma flushed_inv:
  assumes "served_inv G st" "svc_step s FlushOp st = Some st0"
  shows "served_inv (after (under_way st) G') st0"
proof -
  let ?P = "from_run G" and ?Q = "from_run (after (under_way st) G')"
  have inv: "shares ?P (ss_flight st)" "linked st" using assms(1) by (simp_all add: served_inv_def)
  have old: "served_inv G st0" by (rule served_step [OF assms(1) _ assms(2)]) (simp add: tied_def)
  have st0: "st0 = st\<lparr>ss_flight := (ss_flight st)\<lparr>fl_cache := Flush (fl_cache (ss_flight st))\<rparr>\<rparr>"
    using assms(2) by auto
  have weak: "?P k v \<Longrightarrow> k \<in> under_way st \<Longrightarrow> ?Q k v" for k v by (auto simp: from_run_def after_def)
  have "k \<in> under_way st" if "joined (callers (ss_flight st) i) = Some (k, f)" for i k f
    using inv(2) that unfolding linked_def under_way_def by (metis (mono_tags, lifting) asks.simps(2) mem_Collect_eq)
  then have "holds_for ?Q (ss_flight st) (callers (ss_flight st) i)" for i
    using inv(1) weak unfolding shares_def by (cases "callers (ss_flight st) i") (metis holds_for.simps joined.simps)+
  then have "shares ?Q (ss_flight st0)" using inv(1) by (simp add: st0 shares_def [of _ "ss_flight st"])
  moreover have "held (fl_cache (ss_flight st0)) = {}" by (simp add: st0 Flush_def held_def entries_def)
  ultimately show ?thesis
    using old by (simp add: served_inv_def lru.holds_only_def)
qed

text \<open>The states that follow a given one.\<close>

inductive served_from :: "Service \<Rightarrow> (gostring \<Rightarrow> u16 \<Rightarrow> Result \<Rightarrow> bool) \<Rightarrow> service_state \<Rightarrow> service_state \<Rightarrow> bool" for s G st0 where
  refl: "served_from s G st0 st0"
| step: "served_from s G st0 st \<Longrightarrow> tied G x st \<Longrightarrow> svc_step s x st = Some st' \<Longrightarrow> served_from s G st0 st'"

lemma served_inv_from: "served_from s G st0 st \<Longrightarrow> served_inv G st0 \<Longrightarrow> served_inv G st"
  by (induction rule: served_from.induct) (use served_step in blast)+

text \<open>The three ways a call gets its value.\<close>

lemma answered_from_cache:
  assumes "served_inv G st" "svc_step s (LookupOp i q t) st = Some st'" "ss_call st' i = Answered (Inr v)"
  shows "from_run G (lookup_key q t) v"
proof -
  have hold: "lru.holds_only (from_run G) (fl_cache (ss_flight st))" using assms(1) by (simp add: served_inv_def)
  obtain c w ok where g: "Cache_Get (fl_cache (ss_flight st)) (lookup_key q t) = (c, w, ok)" by (metis prod_cases3)
  have "ok" "w = v" using assms(2,3) g by (auto simp: Lookup_begin_def split: call.splits if_splits)
  then show ?thesis using lru.get_safe(2) [OF hold g] from_run_cong by blast
qed

lemma answered_directly:
  assumes "served_inv G st" "tied G (EngineOp j res) st" "svc_step s (EngineOp j res) st = Some st'"
    and "ss_call st' i = Answered (Inr v)" "ss_call st i \<noteq> Answered (Inr v)" "asks (ss_call st i) = Some (q, t)"
  shows "from_run G (lookup_key q t) v"
proof (cases "ss_call st j")
  case (Direct q' t')
  then have "i = j" "v = fst (service_resolve s res)" using assms(3-5) by (auto split: if_splits)
  then show ?thesis
    using assms(2,6) service_resolve_same [of s res] by (auto simp: tied_def from_run_def)
next
  case (InDo q' t')
  then have "ss_call st' = ss_call st" using assms(3) by (auto simp del: do_step.simps split: prod.splits)
  then show ?thesis using assms(4,5) by simp
qed (use assms(3) in auto)

lemma answered_in_flight:
  assumes "served_inv G st" "served_inv G (finish_call j st fs)" "do_step y (ss_flight st) = Some fs"
    and "y = CloseDone j \<or> y = Wake j \<or> (\<exists>e. y = GiveUp j e)"
    and "ss_call (finish_call j st fs) i = Answered (Inr v)" "ss_call st i \<noteq> Answered (Inr v)"
    and "asks (ss_call st i) = Some (q, t)"
  shows "from_run G (lookup_key q t) v"
proof -
  obtain k f where fin: "callers fs i = Finished k f (Inr v)" "i = j"
    using assms(5,6) by (auto simp: finish_call_calls split: caller.splits if_splits)
  have "joined (callers (ss_flight st) i) = Some (k, f)"
    using assms(3,4) fin by (auto split: caller.splits if_splits)
  then have "lookup_key q t = k" using assms(1,7) by (auto simp: served_inv_def linked_def dest!: spec [of _ i])
  moreover have "holds_for (from_run G) (ss_flight st) (callers (ss_flight st) i)" using assms(1) by (auto simp: served_inv_def shares_def)
  then have "from_run G k v" using assms(3,4) fin by (auto split: caller.splits if_splits)
  ultimately show ?thesis by simp
qed

lemma answered_from_run:
  assumes "served_inv G st" "tied G x st" "svc_step s x st = Some st'"
    and "ss_call st' i = Answered (Inr v)" "ss_call st i \<noteq> Answered (Inr v)"
    and "x = LookupOp i q t \<or> asks (ss_call st i) = Some (q, t)"
  shows "from_run G (lookup_key q t) v"
proof -
  have inv': "served_inv G st'" by (rule served_step [OF assms(1-3)])
  have ans: "asks (ss_call st i) = Some (q, t)" if "x \<noteq> LookupOp i q t" using assms(6) that by blast
  show ?thesis
  proof (cases x)
    case (LookupOp j q' t')
    then have "ss_call st j = NotStarted" "i = j" using assms(3-5) by (auto split: call.splits prod.splits if_splits)
    then have "x = LookupOp i q t" using assms(6) by auto
    then show ?thesis using answered_from_cache assms(1,3,4) by blast
  next
    case (EngineOp j res)
    then show ?thesis using answered_directly assms(1-5) ans by blast
  next
    case (EnterOp j)
    then show ?thesis using assms(3-5) by (auto simp del: do_step.simps split: call.splits if_splits)
  next
    case (CloseOp j)
    then obtain fs where "do_step (CloseDone j) (ss_flight st) = Some fs" "st' = finish_call j st fs"
      using assms(3) by (auto simp del: do_step.simps)
    then show ?thesis using answered_in_flight [OF assms(1)] inv' assms(4,5) ans CloseOp by blast
  next
    case (WakeOp j)
    then obtain fs where "do_step (Wake j) (ss_flight st) = Some fs" "st' = finish_call j st fs"
      using assms(3) by (auto simp del: do_step.simps)
    then show ?thesis using answered_in_flight [OF assms(1)] inv' assms(4,5) ans WakeOp by blast
  next
    case (GiveUpOp j e)
    then obtain fs where "do_step (GiveUp j e) (ss_flight st) = Some fs" "st' = finish_call j st fs"
      using assms(3) by (auto simp del: do_step.simps)
    then show ?thesis using answered_in_flight [OF assms(1)] inv' assms(4,5) ans GiveUpOp by blast
  qed (use assms(3-5) in \<open>auto simp del: do_step.simps\<close>)
qed

section \<open>Where cached values come from\<close>

text \<open>A value that the service hands to the cache for a key: what it makes of the result of an engine run for that key.\<close>

definition stored_from :: "Service \<Rightarrow> (gostring \<Rightarrow> u16 \<Rightarrow> Result \<Rightarrow> bool) \<Rightarrow> CacheKey \<Rightarrow> Value \<Rightarrow> bool" where
  "stored_from s G k v \<longleftrightarrow> (\<exists>q t res. lookup_key q t = k \<and> G q t res \<and> service_resolve s res = (v, True))"

lemma service_resolve_expires: "service_resolve s res = (v, b) \<Longrightarrow> v\<lparr>v_expires := 0\<rparr> = v"
  by (auto simp: service_resolve_def fromEngine_def Let_def split: if_splits option.splits)

lemma stored_step:
  assumes "served_inv G st" "lru.holds_only (stored_from s G) (fl_cache (ss_flight st))" "tied G x st" "svc_step s x st = Some st'"
  shows "lru.holds_only (stored_from s G) (fl_cache (ss_flight st'))"
proof -
  have inv: "do_inv (ss_flight st)" using assms(1) by (simp add: served_inv_def)
  show ?thesis
  proof (cases x)
    case (LookupOp i q t)
    obtain c pos where b: "Lookup_begin s (fl_cache (ss_flight st)) q t = (c, pos)" by fastforce
    then have "fl_cache (ss_flight st') = c" using assms(4) LookupOp by (auto split: call.splits)
    then show ?thesis using Lookup_begin_safe(1) [OF assms(2) b] by simp
  next
    case (EngineOp i res)
    show ?thesis
    proof (cases "ss_call st i")
      case (InDo q t)
      obtain v b where r: "service_resolve s res = (v, b)" by fastforce
      have st': "do_step (FnReturns i v b) (ss_flight st) = Some (ss_flight st')"
        using assms(4) EngineOp InDo r by (auto simp del: do_step.simps)
      have "lookup_key q t = k" if "callers (ss_flight st) i = Leading k f" for k f
        using assms(1) that InDo by (auto simp: served_inv_def linked_def dest!: spec [of _ i])
      moreover have "G q t res" using assms(3) EngineOp InDo by (simp add: tied_def)
      ultimately show ?thesis
        using service_resolve_expires [OF r] r by (intro do_step_safe [OF inv assms(2) st']) (auto simp: stored_from_def)
    next
      case (Direct q t)
      then show ?thesis using assms(2,4) EngineOp by auto
    qed (use assms(4) EngineOp in auto)
  qed (use assms(4) svc_step_flight [OF assms(4)] do_step_safe [OF inv assms(2)] in \<open>simp del: svc_step.simps; metis\<close>)+
qed

lemma stored_reach:
  assumes "served_reach s (Cache_New n now) G st" "0 \<le> n" "mono now"
  shows "lru.holds_only (stored_from s G) (fl_cache (ss_flight st))"
  using assms(1)
proof (induction rule: served_reach.induct)
  case init
  have "held (Cache_New n now) = {}" by (simp add: Cache_New_def held_def entries_def)
  then show ?case
    using cache_ok_New [OF assms(2,3)] by (simp add: service_init_def lru.holds_only_def) (simp add: flight_init_def)
next
  case (step st x st')
  then show ?case using stored_step served_inv_reach [OF _ assms(2,3)] by blast
qed

section \<open>Every call can be answered\<close>

text \<open>A call is inside \<^verbatim>\<open>Do\<close> exactly while its caller has joined a flight.\<close>

fun in_step :: "call \<Rightarrow> caller \<Rightarrow> bool" where
  "in_step (InDo q t) c \<longleftrightarrow> joined c \<noteq> None"
| "in_step (Answered r) c \<longleftrightarrow> joined c = None"
| "in_step _ c \<longleftrightarrow> c = Idle"

definition matched :: "service_state \<Rightarrow> bool" where
  "matched st \<longleftrightarrow> (\<forall>i. in_step (ss_call st i) (callers (ss_flight st) i))"

fun actor :: "flight_op \<Rightarrow> nat option" where
  "actor (Enter i k) = Some i"
| "actor (FnReturns i v b) = Some i"
| "actor (CloseDone i) = Some i"
| "actor (Wake i) = Some i"
| "actor (GiveUp i e) = Some i"
| "actor (Other op) = None"

lemma do_step_others:
  assumes "do_step y fs = Some fs'" "actor y \<noteq> Some j"
  shows "callers fs' j = callers fs j"
proof (cases y)
  case (FnReturns i v b)
  obtain k f c where "fs' = fs\<lparr>fl_value := (fl_value fs)(f := v), fl_cache := c, callers := (callers fs)(i := Closing k f v)\<rparr>"
    using do_step_FnReturns [OF assms(1) [unfolded FnReturns]] by metis
  then show ?thesis using assms(2) FnReturns by auto
next
  case (Other op)
  then show ?thesis using assms(1) by (auto simp del: cache_do.simps split: option.splits)
qed (use assms in \<open>auto simp: Let_def split: if_splits option.splits caller.splits\<close>)

lemma matched_move:
  assumes "matched st" "do_step y (ss_flight st) = Some (ss_flight st')"
    and "\<And>i. actor y \<noteq> Some i \<Longrightarrow> ss_call st' i = ss_call st i"
    and "\<And>i. actor y = Some i \<Longrightarrow> in_step (ss_call st' i) (callers (ss_flight st') i)"
  shows "matched st'"
  unfolding matched_def
proof
  fix i
  show "in_step (ss_call st' i) (callers (ss_flight st') i)"
    using assms do_step_others [OF assms(2), of i] by (cases "actor y = Some i") (auto simp: matched_def)
qed

lemma matched_finish:
  assumes "matched st" "do_step y (ss_flight st) = Some fs" "y = CloseDone j \<or> y = Wake j \<or> (\<exists>e. y = GiveUp j e)"
  shows "matched (finish_call j st fs)"
proof (rule matched_move [OF assms(1), where y = y])
  obtain k f r where fin: "callers fs j = Finished k f r"
    using assms(2,3) by (auto split: caller.splits if_splits)
  show "in_step (ss_call (finish_call j st fs) i) (callers (ss_flight (finish_call j st fs)) i)" if "actor y = Some i" for i
    using that assms(3) fin by (auto simp: finish_call_calls)
  show "ss_call (finish_call j st fs) i = ss_call st i" if "actor y \<noteq> Some i" for i
    using that assms(3) by (auto simp: finish_call_calls split: caller.splits)
qed (simp add: assms(2))

lemma matched_other:
  assumes "matched st" "do_step (Other op) (ss_flight st) = Some fs"
  shows "matched (st\<lparr>ss_flight := fs\<rparr>)"
  by (rule matched_move [OF assms(1), where y = "Other op"]) (use assms(2) in \<open>simp_all del: do_step.simps\<close>)

lemma Enter_joins: "do_step (Enter i k) fs = Some fs' \<Longrightarrow> \<exists>f. joined (callers fs' i) = Some (k, f)"
  by (auto simp: Let_def split: if_splits option.splits)

lemma matched_step:
  assumes "matched st" "svc_step s x st = Some st'"
  shows "matched st'"
proof (cases x)
  case (LookupOp i q t)
  obtain c pos where b: "Lookup_begin s (fl_cache (ss_flight st)) q t = (c, pos)" by fastforce
  have st': "st' = st\<lparr>ss_flight := (ss_flight st)\<lparr>fl_cache := c\<rparr>, ss_call := (ss_call st)(i := pos)\<rparr>" "ss_call st i = NotStarted"
    using assms(2) LookupOp b by (auto split: call.splits)
  have "callers (ss_flight st) i = Idle" using assms(1) st'(2) by (metis matched_def in_step.simps(3))
  moreover have "in_step pos Idle" using b by (auto simp: Lookup_begin_def split: if_splits prod.splits)
  ultimately show ?thesis using assms(1) by (simp add: matched_def st'(1))
next
  case (EnterOp i)
  then obtain q t where a: "do_step (Enter i (lookup_key q t)) (ss_flight st) = Some (ss_flight st')"
    "ss_call st' = (ss_call st)(i := InDo q t)"
    using assms(2) by (auto simp del: do_step.simps split: call.splits)
  have "joined (callers (ss_flight st') i) \<noteq> None"
    using Enter_joins [OF a(1)] by auto
  then show ?thesis by (intro matched_move [OF assms(1) a(1)]) (auto simp: a(2))
next
  case (EngineOp i res)
  show ?thesis
  proof (cases "ss_call st i")
    case (InDo q t)
    obtain v b where r: "service_resolve s res = (v, b)" by fastforce
    have st': "do_step (FnReturns i v b) (ss_flight st) = Some (ss_flight st')" "ss_call st' = ss_call st"
      using assms(2) EngineOp InDo r by (auto simp del: do_step.simps)
    have "joined (callers (ss_flight st') i) \<noteq> None"
      by (rule do_step_FnReturns [OF st'(1)]) simp
    then show ?thesis by (intro matched_move [OF assms(1) st'(1)]) (auto simp: st'(2) InDo)
  next
    case (Direct q t)
    then have "callers (ss_flight st) i = Idle" using assms(1) by (metis matched_def in_step.simps(5))
    then show ?thesis using assms EngineOp Direct by (auto simp: matched_def)
  qed (use assms(2) EngineOp in auto)
qed (use assms in \<open>auto simp del: do_step.simps intro!: matched_finish matched_other\<close>)

lemma matched_reach: "served_reach s c G st \<Longrightarrow> matched st"
proof (induction rule: served_reach.induct)
  case init
  then show ?case by (simp add: matched_def service_init_def flight_init_def)
qed (rule matched_step)

text \<open>A state that satisfies \<open>P\<close> lies at most \<open>n\<close> steps ahead.\<close>

definition ahead :: "Service \<Rightarrow> Cache \<Rightarrow> (gostring \<Rightarrow> u16 \<Rightarrow> Result \<Rightarrow> bool) \<Rightarrow> nat \<Rightarrow> (service_state \<Rightarrow> bool) \<Rightarrow> service_state \<Rightarrow> bool" where
  "ahead s c G n P st \<longleftrightarrow> (\<exists>xs st'. length xs \<le> n \<and> svc_run s xs st = Some st' \<and> served_reach s c G st' \<and> P st')"

lemma ahead_now: "served_reach s c G st \<Longrightarrow> P st \<Longrightarrow> ahead s c G n P st"
  unfolding ahead_def by (rule exI [of _ "[]"]) simp

lemma ahead_step:
  assumes "served_reach s c G st" "tied G x st" "svc_step s x st = Some st1" "served_reach s c G st1 \<Longrightarrow> ahead s c G n P st1"
  shows "ahead s c G (Suc n) P st"
proof -
  have "served_reach s c G st1" using assms(1-3) by (rule served_reach.step)
  then obtain xs st' where "length xs \<le> n" "svc_run s xs st1 = Some st'" "served_reach s c G st'" "P st'"
    using assms(4) by (auto simp: ahead_def)
  then show ?thesis
    unfolding ahead_def using assms(3) by (intro exI [of _ "x # xs"] exI [of _ st']) (simp del: svc_step.simps)
qed

lemma ahead_mono: "ahead s c G m P st \<Longrightarrow> m \<le> n \<Longrightarrow> ahead s c G n P st"
  unfolding ahead_def by (meson order_trans)

definition answered :: "nat \<Rightarrow> service_state \<Rightarrow> bool" where
  "answered i st \<longleftrightarrow> (\<exists>v. ss_call st i = Answered (Inr v))"

text \<open>The steps that bring a flight to its end.\<close>

lemma engine_step:
  assumes "do_inv (ss_flight st)" "ss_call st j = InDo q t" "callers (ss_flight st) j = Leading k f"
  obtains st1 v where "svc_step s (EngineOp j res) st = Some st1" "ss_call st1 = ss_call st"
    "callers (ss_flight st1) = (callers (ss_flight st))(j := Closing k f v)"
proof -
  obtain v b where r: "service_resolve s res = (v, b)" by fastforce
  define c0 where "c0 = (fl_cache (ss_flight st))\<lparr>flights := (flights (fl_cache (ss_flight st)))(k := None)\<rparr>"
  have "cache_ok c0" using assms(1) by (simp add: do_inv_def c0_def)
  then obtain c where c: "(if b then setLocked c0 k v else Some c0) = Some c" using cache_put_law by (metis option.exhaust)
  have "do_step (FnReturns j v b) (ss_flight st) = Some ((ss_flight st)\<lparr>fl_value := (fl_value (ss_flight st))(f := v),
      fl_cache := c, callers := (callers (ss_flight st))(j := Closing k f v)\<rparr>)"
    by (simp only: do_step.simps assms(3) caller.case Let_def c0_def [symmetric] c option.case)
  then show thesis using that assms(2) r by (simp del: do_step.simps)
qed

lemma close_step:
  assumes "callers (ss_flight st) j = Closing k f v"
  obtains st1 where "svc_step s (CloseOp j) st = Some st1" "ss_call st1 = (ss_call st)(j := Answered (Inr v))"
    "callers (ss_flight st1) = (callers (ss_flight st))(j := Finished k f (Inr v))" "fl_done (ss_flight st1) f"
  using assms that by (simp add: finish_call_def)

lemma wake_step:
  assumes "callers (ss_flight st) i = Waiting k f" "fl_done (ss_flight st) f"
  obtains st1 where "svc_step s (WakeOp i) st = Some st1" "answered i st1"
  using assms that by (simp add: finish_call_def answered_def)

lemma not_engine_tied: "(\<And>i res. x \<noteq> EngineOp i res) \<Longrightarrow> tied G x st"
  by (simp add: tied_def)

text \<open>A caller that has joined a flight: its leader finishes, then the caller itself.\<close>

lemma closing_ahead:
  assumes "served_reach s c G st" "callers (ss_flight st) j = Closing k f v"
    and "i = j \<or> callers (ss_flight st) i = Waiting k' f"
  shows "ahead s c G 2 (answered i) st"
proof -
  obtain st1 where st1: "svc_step s (CloseOp j) st = Some st1" "ss_call st1 = (ss_call st)(j := Answered (Inr v))"
    "callers (ss_flight st1) = (callers (ss_flight st))(j := Finished k f (Inr v))" "fl_done (ss_flight st1) f"
    by (rule close_step [OF assms(2)])
  have "ahead s c G 1 (answered i) st1" if r: "served_reach s c G st1"
  proof (cases "i = j")
    case True
    then show ?thesis using r st1(2) by (intro ahead_now) (simp_all add: answered_def)
  next
    case False
    then have w: "callers (ss_flight st1) i = Waiting k' f" using assms(3) st1(3) by simp
    obtain st2 where "svc_step s (WakeOp i) st1 = Some st2" "answered i st2" by (rule wake_step [OF w st1(4)])
    then show ?thesis
      using ahead_step [OF r not_engine_tied, of "WakeOp i" st2 0 "answered i"] ahead_now [of s c G st2 "answered i" 0]
      by (simp del: svc_step.simps)
  qed
  then show ?thesis
    using ahead_step [OF assms(1) not_engine_tied st1(1), of 1] by (simp add: numeral_2_eq_2)
qed

lemma leading_ahead:
  assumes "served_reach s c G st" "do_inv (ss_flight st)" "linked st" "\<forall>q t. \<exists>res. G q t res"
    and "callers (ss_flight st) j = Leading k f" "i = j \<or> callers (ss_flight st) i = Waiting k' f"
  shows "ahead s c G 3 (answered i) st"
proof -
  obtain q t where q: "ss_call st j = InDo q t" using assms(3,5) by (auto simp: linked_def dest!: spec [of _ j])
  obtain res where res: "G q t res" using assms(4) by blast
  obtain st1 v where st1: "svc_step s (EngineOp j res) st = Some st1"
    "callers (ss_flight st1) = (callers (ss_flight st))(j := Closing k f v)"
    by (rule engine_step [OF assms(2) q assms(5)])
  have "tied G (EngineOp j res) st" using q res by (simp add: tied_def)
  moreover have "ahead s c G 2 (answered i) st1" if r: "served_reach s c G st1"
    by (rule closing_ahead [OF r, of j k f v i k']) (use st1(2) assms(5,6) in auto)
  ultimately show ?thesis
    using ahead_step [OF assms(1) _ st1(1), of 2] by (simp add: numeral_3_eq_3 numeral_2_eq_2)
qed

lemma joined_ahead:
  assumes "served_reach s c G st" "do_inv (ss_flight st)" "linked st" "\<forall>q t. \<exists>res. G q t res"
    and "joined (callers (ss_flight st) i) \<noteq> None"
  shows "ahead s c G 3 (answered i) st"
proof (cases "callers (ss_flight st) i")
  case (Leading k f)
  then show ?thesis using leading_ahead [OF assms(1-4)] by blast
next
  case (Closing k f v)
  then show ?thesis using closing_ahead [OF assms(1) Closing] ahead_mono by fastforce
next
  case (Waiting k f)
  show ?thesis
  proof (cases "fl_done (ss_flight st) f")
    case True
    obtain st1 where "svc_step s (WakeOp i) st = Some st1" "answered i st1" by (rule wake_step [OF Waiting True])
    then have "ahead s c G 1 (answered i) st"
      using ahead_step [OF assms(1) not_engine_tied, of "WakeOp i" st1 0 "answered i"] ahead_now [of s c G st1 "answered i" 0]
      by (simp del: svc_step.simps)
    then show ?thesis by (rule ahead_mono) simp
  next
    case False
    then obtain j where j: "owns (callers (ss_flight st) j) k f"
      using inv_caller [of "ss_flight st" i] assms(2) Waiting by (auto simp: do_inv_def)
    show ?thesis
    proof (cases "callers (ss_flight st) j")
      case (Leading k' f')
      then show ?thesis using leading_ahead [OF assms(1-4), of j k f i k] Waiting j by simp
    next
      case (Closing k' f' v)
      then have "ahead s c G 2 (answered i) st" using closing_ahead [OF assms(1), of j k f v i k] Waiting j by simp
      then show ?thesis by (rule ahead_mono) simp
    qed (use j in auto)
  qed
qed (use assms(5) in auto)

section \<open>Properties\<close>

text \<open>A sample: the engine runs of theory Resolve, for the question they were made for.\<close>

definition engine_runs :: "fan set \<Rightarrow> gostring \<Rightarrow> u16 \<Rightarrow> Result \<Rightarrow> bool" where
  "engine_runs F q t res \<longleftrightarrow> (\<exists>f\<in>F. \<exists>s. fan_qname f = q \<and> fan_qtype f = t \<and> fan_reach f s \<and> returned s = Some res)"

lemma served_quiet_run:
  "served_reach s c G st \<Longrightarrow> \<forall>x\<in>set xs. \<forall>i res. x \<noteq> EngineOp i res \<Longrightarrow> svc_run s xs st = Some st' \<Longrightarrow> served_reach s c G st'"
proof (induction xs arbitrary: st)
  case (Cons x xs)
  then obtain st1 where "svc_step s x st = Some st1" "svc_run s xs st1 = Some st'"
    by (auto simp del: svc_step.simps split: option.splits)
  moreover have "tied G x st" using Cons.prems(2) by (simp add: tied_def)
  ultimately show ?case using Cons served_reach.step [of s c G st x st1] by simp
qed simp

lemma sample_runs: "engine_runs {sample_fan2} ''a.'' TypeA sample_engine_result"
proof -
  have "case fan_run sample_fan2 sample_full (fan_init sample_fan2) of None \<Rightarrow> False | Some s \<Rightarrow> returned s \<noteq> None"
    by code_simp
  then obtain s r where s: "fan_run sample_fan2 sample_full (fan_init sample_fan2) = Some s" "returned s = Some r"
    by (auto split: option.splits)
  moreover have "fan_qname sample_fan2 = ''a.''" "fan_qtype sample_fan2 = TypeA"
    by (simp_all add: sample_fan2_def sample_fan_def fan_start_def)
  ultimately show ?thesis
    using fan_run_reach [OF fan_reach.init s(1)] by (auto simp: engine_runs_def sample_engine_result_def)
qed

lemma sample_served:
  obtains st st' v where "served_reach sample_service (Cache_New 2 (\<lambda>n. int n * 10500000000)) (engine_runs {sample_fan2}) st"
    "svc_step sample_service (LookupOp 1 ''A'' TypeA) st = Some st'" "ss_call st 1 = NotStarted" "ss_call st' 1 = Answered (Inr v)"
proof -
  have "case svc_run sample_service (take 2 sample_service_run) (service_init sample_cache) of None \<Rightarrow> False
    | Some st \<Rightarrow> asks (ss_call st 0) = Some (''a.'', TypeA)
       \<and> (case svc_step sample_service (EngineOp 0 sample_engine_result) st of None \<Rightarrow> False
          | Some st1 \<Rightarrow> (case svc_run sample_service [CloseOp 0] st1 of None \<Rightarrow> False
             | Some st2 \<Rightarrow> (case svc_step sample_service (LookupOp 1 ''A'' TypeA) st2 of None \<Rightarrow> False
                | Some st3 \<Rightarrow> (case ss_call st2 1 of NotStarted \<Rightarrow> True | _ \<Rightarrow> False)
                    \<and> (case ss_call st3 1 of Answered (Inr v) \<Rightarrow> True | _ \<Rightarrow> False))))"
    by code_simp
  then obtain st st1 st2 st3 v where st: "svc_run sample_service (take 2 sample_service_run) (service_init sample_cache) = Some st"
    "asks (ss_call st 0) = Some (''a.'', TypeA)" "svc_step sample_service (EngineOp 0 sample_engine_result) st = Some st1"
    "svc_run sample_service [CloseOp 0] st1 = Some st2" "svc_step sample_service (LookupOp 1 ''A'' TypeA) st2 = Some st3"
    "ss_call st2 1 = NotStarted" "ss_call st3 1 = Answered (Inr v)"
    by (auto simp del: svc_step.simps svc_run.simps split: option.splits call.splits sum.splits)
  let ?R = "served_reach sample_service sample_cache (engine_runs {sample_fan2})"
  have "?R st" by (rule served_quiet_run [OF served_reach.init _ st(1)]) (simp add: sample_service_run_def)
  then have "?R st1" by (rule served_reach.step [OF _ _ st(3)]) (use st(2) sample_runs in \<open>simp add: tied_def\<close>)
  then have "?R st2" by (rule served_quiet_run [OF _ _ st(4)]) simp
  then show thesis using that st(5-7) by (simp add: sample_cache_def)
qed

text \<open>Some engine run exists for every question: the context may end at once.\<close>

lemma engine_runs_total: "\<exists>res. engine_runs UNIV q t res"
proof -
  define f where "f = sample_fan2\<lparr>fan_qname := q, fan_qtype := t\<rparr>"
  obtain s res where "fan_reach f s" "returned s = Some res"
  proof (cases "returned (fan_init f)")
    case (Some res)
    then show thesis using that fan_reach.init by blast
  next
    case None
    then have "fan_do f CtxDone (fan_init f) = Some ((fan_init f)\<lparr>returned := Some (finalize (fan_assets f) (fan_qname f)
        (results (fan_init f)) (reports (fan_init f)) False)\<rparr>)" by simp
    from fan_reach.step [OF fan_reach.init this] show thesis using that by fastforce
  qed
  moreover have "fan_qname f = q" "fan_qtype f = t" by (simp_all add: f_def)
  ultimately show ?thesis by (auto simp: engine_runs_def)
qed

text \<open>
  C3. A call of \<^verbatim>\<open>Lookup\<close> is never served another name's or another type's answer: in every
  interleaving of lookups, engine runs, flights, flushes and sweeps, the value a call returns with is,
  up to its TTL, the result of an engine run for a name with the same cache key and for the same type,
  whether it was computed for this call, shared with it in a flight or taken from the cache.
\<close>

theorem Lookup_answers_own_question:
  assumes "served_reach s (Cache_New n now) G st" "0 \<le> n" "mono now"
    and "tied G x st" "svc_step s x st = Some st'" "ss_call st' i = Answered (Inr v)" "ss_call st i \<noteq> Answered (Inr v)"
    and "x = LookupOp i q t \<or> asks (ss_call st i) = Some (q, t)"
  shows "\<exists>q' res. lookup_key q' t = lookup_key q t \<and> G q' t res \<and> same_answer v (fromEngine res)"
proof -
  have "from_run G (lookup_key q t) v"
    by (rule answered_from_run [OF served_inv_reach [OF assms(1-3)] assms(4-8)])
  then show ?thesis by (auto simp: from_run_def lookup_key_def)
qed

theorem Lookup_answers_own_question_witness:
  "\<exists>st st' v q res. svc_step sample_service (LookupOp 1 ''A'' TypeA) st = Some st' \<and> ss_call st' 1 = Answered (Inr v)
     \<and> lookup_key q TypeA = lookup_key ''A'' TypeA \<and> engine_runs {sample_fan2} q TypeA res \<and> same_answer v (fromEngine res)"
proof -
  obtain st st' v where st: "served_reach sample_service (Cache_New 2 (\<lambda>n. int n * 10500000000)) (engine_runs {sample_fan2}) st"
    "svc_step sample_service (LookupOp 1 ''A'' TypeA) st = Some st'" "ss_call st 1 = NotStarted" "ss_call st' 1 = Answered (Inr v)"
    by (rule sample_served)
  have "mono (\<lambda>n. int n * 10500000000)" by (simp add: mono_def)
  then have "\<exists>q res. lookup_key q TypeA = lookup_key ''A'' TypeA \<and> engine_runs {sample_fan2} q TypeA res \<and> same_answer v (fromEngine res)"
    using Lookup_answers_own_question [OF st(1) _ _ not_engine_tied st(2,4), of "''A''" TypeA] st(3) by simp
  then show ?thesis using st(2,4) by blast
qed

text \<open>
  C14. With ordered TTL bounds, in every interleaving of lookups, engine runs, flushes and sweeps, each value in the cache is that of a complete
  engine run, for a name with the same cache key and for the same type, among the runs that took place; never of
  an early answer or of a SERVFAIL. It is an answer with addresses and NOERROR, its TTL the run's own within the
  configured bounds, or a denial with its SOA, its TTL the least of the SOA's two within the bounds for denials. Apart from its TTL
  it is what the run returned. The cache is sound and within its capacity.
\<close>

theorem service_caches_only_final:
  assumes "served_reach s (Cache_New n now) G st" "bounds_ok s" "0 \<le> n" "mono now" "\<forall>q t res. G q t res \<longrightarrow> engine_result res"
  shows "cache_ok (fl_cache (ss_flight st))
    \<and> (\<forall>(k, v)\<in>held (fl_cache (ss_flight st)). \<exists>q t res. lookup_key q t = k \<and> G q t res
        \<and> Complete res \<and> eng_rcode res \<noteq> RcodeServerFailure \<and> v\<lparr>v_ttl := 0\<rparr> = (fromEngine res)\<lparr>v_ttl := 0\<rparr>
        \<and> (if v_addrs v \<noteq> []
           then v_rcode v = RcodeSuccess \<and> sv_MinTTL s \<le> v_ttl v \<and> v_ttl v \<le> sv_MaxTTL s
             \<and> (sv_MinTTL s \<le> eng_ttl res \<and> eng_ttl res \<le> sv_MaxTTL s \<longrightarrow> v_ttl v = eng_ttl res)
           else v_rcode v \<in> {RcodeSuccess, RcodeNameError} \<and> (\<exists>soa. v_soa v = Some soa
             \<and> v_ttl v = max (sv_NegMinTTL s) (min (sv_NegMaxTTL s) (min (hdr_ttl (soa_hdr soa)) (soa_minttl soa))))))"
proof -
  have hold: "lru.holds_only (stored_from s G) (fl_cache (ss_flight st))" by (rule stored_reach [OF assms(1,3,4)])
  have "Complete res \<and> eng_rcode res \<noteq> RcodeServerFailure \<and> v\<lparr>v_ttl := 0\<rparr> = (fromEngine res)\<lparr>v_ttl := 0\<rparr>
      \<and> (if v_addrs v \<noteq> []
         then v_rcode v = RcodeSuccess \<and> sv_MinTTL s \<le> v_ttl v \<and> v_ttl v \<le> sv_MaxTTL s
           \<and> (sv_MinTTL s \<le> eng_ttl res \<and> eng_ttl res \<le> sv_MaxTTL s \<longrightarrow> v_ttl v = eng_ttl res)
         else v_rcode v \<in> {RcodeSuccess, RcodeNameError} \<and> (\<exists>soa. v_soa v = Some soa
           \<and> v_ttl v = max (sv_NegMinTTL s) (min (sv_NegMaxTTL s) (min (hdr_ttl (soa_hdr soa)) (soa_minttl soa)))))"
    if r: "service_resolve s res = (v, True)" "G q t res" for q t res v
  proof -
    have shape: "eng_addrs res \<noteq> [] \<longrightarrow> eng_rcode res = RcodeSuccess" "eng_rcode res \<in> {RcodeSuccess, RcodeNameError, RcodeServerFailure}"
      using engine_result_shape assms(5) r(2) by blast+
    have "clamp x l h = max l (min h x)" if "l \<le> h" for x l h using that by (auto simp: clamp_def max_def min_def)
    then show ?thesis
      using resolve_decides_caching [OF assms(2) r(1)] shape assms(2) r(1)
      by (auto simp: service_resolve_def fromEngine_def bounds_ok_def Let_def min_def split: if_splits option.splits)
  qed
  then show ?thesis using hold unfolding lru.holds_only_def stored_from_def by fast
qed

theorem service_caches_only_final_witness:
  "\<exists>st v. served_reach sample_service (Cache_New 2 (\<lambda>n. int n * 10500000000)) (engine_runs {sample_fan2}) st
     \<and> (lookup_key ''A'' TypeA, v) \<in> held (fl_cache (ss_flight st))
     \<and> (\<exists>q t res. lookup_key q t = lookup_key ''A'' TypeA \<and> engine_runs {sample_fan2} q t res \<and> Complete res)"
proof -
  obtain st st' v where st: "served_reach sample_service (Cache_New 2 (\<lambda>n. int n * 10500000000)) (engine_runs {sample_fan2}) st"
    "svc_step sample_service (LookupOp 1 ''A'' TypeA) st = Some st'" "ss_call st 1 = NotStarted" "ss_call st' 1 = Answered (Inr v)"
    by (rule sample_served)
  have mono: "mono (\<lambda>n. int n * 10500000000)" by (simp add: mono_def)
  have runs: "\<forall>q t res. engine_runs {sample_fan2} q t res \<longrightarrow> engine_result res" by (auto simp: engine_runs_def engine_result_def)
  note final = service_caches_only_final [OF st(1) sample_bounds _ mono runs]
  obtain c w ok where g: "Cache_Get (fl_cache (ss_flight st)) (lookup_key ''A'' TypeA) = (c, w, ok)" by (metis prod_cases3)
  have "ok" using st(2,4) g by (auto simp: Lookup_begin_def split: call.splits if_splits)
  then obtain v0 where v0: "(lookup_key ''A'' TypeA, v0) \<in> held (fl_cache (ss_flight st))"
    using cache_get_law [OF _ g] final by auto
  then have "\<exists>q t res. lookup_key q t = lookup_key ''A'' TypeA \<and> engine_runs {sample_fan2} q t res \<and> Complete res"
    using final by fastforce
  then show ?thesis using st(1) v0 by blast
qed

text \<open>
  C5. No lookup is stuck: from every reachable state each call that is under way can be brought to its
  answer in at most four steps, provided the engine returns, whatever it returns. Nobody waits for a
  flight without a leader, and no step on the way panics.
\<close>

theorem Lookup_can_finish:
  assumes "served_reach s (Cache_New n now) G st" "0 \<le> n" "mono now" "\<forall>q t. \<exists>res. G q t res"
    and "asks (ss_call st i) = Some (q, t)"
  shows "ahead s (Cache_New n now) G 4 (answered i) st"
proof -
  note reach = assms(1)
  have inv: "do_inv (ss_flight st)" "linked st" using served_inv_reach [OF assms(1-3)] by (simp_all add: served_inv_def)
  show ?thesis
  proof (cases "ss_call st i")
    case (Asked q' t')
    have "callers (ss_flight st) i = Idle" using matched_reach [OF reach] Asked by (metis matched_def in_step.simps(4))
    then obtain fs where fs: "do_step (Enter i (lookup_key q' t')) (ss_flight st) = Some fs"
      by (cases "flights (fl_cache (ss_flight st)) (lookup_key q' t')") (auto simp: Let_def)
    define st1 where "st1 = st\<lparr>ss_flight := fs, ss_call := (ss_call st)(i := InDo q' t')\<rparr>"
    have st1: "svc_step s (EnterOp i) st = Some st1" "do_step (Enter i (lookup_key q' t')) (ss_flight st) = Some (ss_flight st1)"
      using Asked fs by (simp_all add: st1_def del: do_step.simps)
    have "ahead s (Cache_New n now) G 3 (answered i) st1" if r: "served_reach s (Cache_New n now) G st1"
      using joined_ahead [OF r _ _ assms(4)] served_inv_reach [OF r assms(2,3)] Enter_joins [OF st1(2)]
      by (auto simp: served_inv_def)
    then show ?thesis using ahead_step [OF reach not_engine_tied st1(1), of 3] by (simp add: eval_nat_numeral)
  next
    case (InDo q' t')
    then have "joined (callers (ss_flight st) i) \<noteq> None"
      using matched_reach [OF reach] by (metis matched_def in_step.simps(1))
    then have "ahead s (Cache_New n now) G 3 (answered i) st" by (rule joined_ahead [OF reach inv assms(4)])
    then show ?thesis by (rule ahead_mono) simp
  next
    case (Direct q' t')
    obtain res where res: "G q' t' res" using assms(4) by blast
    have "ahead s (Cache_New n now) G 1 (answered i) st"
      unfolding One_nat_def
    proof (rule ahead_step [OF reach])
      show "tied G (EngineOp i res) st" using Direct res by (simp add: tied_def)
      show "svc_step s (EngineOp i res) st = Some (st\<lparr>ss_call := (ss_call st)(i := Answered (Inr (fst (service_resolve s res))))\<rparr>)"
        using Direct by simp
    qed (simp add: ahead_now answered_def)
    then show ?thesis by (rule ahead_mono) simp
  qed (use assms(5) in auto)
qed

theorem Lookup_can_finish_witness:
  "\<exists>st. svc_run sample_service [LookupOp 0 ''a.'' TypeA, EnterOp 0, LookupOp 1 ''A'' TypeA, EnterOp 1] (service_init sample_cache) = Some st
     \<and> ahead sample_service sample_cache (engine_runs UNIV) 4 (answered 1) st"
proof -
  let ?xs = "[LookupOp 0 ''a.'' TypeA, EnterOp 0, LookupOp 1 ''A'' TypeA, EnterOp 1]"
  have "case svc_run sample_service ?xs (service_init sample_cache) of None \<Rightarrow> False
    | Some st \<Rightarrow> asks (ss_call st 1) = Some (''A'', TypeA)"
    by code_simp
  then obtain st where st: "svc_run sample_service ?xs (service_init sample_cache) = Some st" "asks (ss_call st 1) = Some (''A'', TypeA)"
    by (auto simp del: svc_run.simps split: option.splits)
  have "served_reach sample_service sample_cache (engine_runs UNIV) st"
    by (rule served_quiet_run [OF served_reach.init _ st(1)]) simp
  moreover have "mono (\<lambda>n. int n * 10500000000)" by (simp add: mono_def)
  ultimately have "ahead sample_service (Cache_New 2 (\<lambda>n. int n * 10500000000)) (engine_runs UNIV) 4 (answered 1) st"
    using Lookup_can_finish [OF _ _ _ _ st(2)] engine_runs_total by (simp add: sample_cache_def)
  then show ?thesis using st(1) by (simp add: sample_cache_def)
qed

end
