(* ===== verification/Reload.thy ===== *)
theory Reload
  imports MainProg Served
begin

text \<open>
  Reloads of a running program (\<^verbatim>\<open>handleReloads\<close> in \<^verbatim>\<open>cmd/chn-resolver/main.go\<close>) beside the lookups of \<^verbatim>\<open>internal/resolve\<close>.
  The goroutine that waits for signals loads the assets, swaps them in the engine and flushes the cache, in three steps; an engine run
  takes the assets that are current when it begins. Lookups, runs and sweeps interleave with these steps.
\<close>

section \<open>The goroutines\<close>

text \<open>The position of the reloading goroutine, with the assets it has loaded.\<close>

datatype reload_pos = AwaitSignal | Loaded Assets | Swapped Assets

text \<open>\<^verbatim>\<open>lv_run\<close>: the assets that the engine run of a call has taken at its start.\<close>

record live =
  lv_engine :: Engine
  lv_state :: service_state
  lv_run :: "nat \<Rightarrow> Assets option"
  lv_reload :: reload_pos

text \<open>A signal: files that cannot be loaded leave the program as it is.\<close>

definition reload_signal :: "(gostring \<Rightarrow> reader option) \<Rightarrow> Config \<Rightarrow> live \<Rightarrow> live option" where
  "reload_signal fs cfg L =
     (if lv_reload L \<noteq> AwaitSignal then None
      else case loadAssets fs cfg of
             Inl e \<Rightarrow> Some L
           | Inr assets \<Rightarrow> Some (L\<lparr>lv_reload := Loaded assets\<rparr>))"

text \<open>The rest of the loop body of \<^verbatim>\<open>handleReloads\<close>.\<close>

definition handleReloads :: "Service \<Rightarrow> live \<Rightarrow> live option" where
  "handleReloads s L =
     (case lv_reload L of
        AwaitSignal \<Rightarrow> None
      | Loaded assets \<Rightarrow> Some (L\<lparr>lv_engine := UpdateAssets (lv_engine L) assets, lv_reload := Swapped assets\<rparr>)
      | Swapped assets \<Rightarrow> map_option (\<lambda>st. L\<lparr>lv_state := st, lv_reload := AwaitSignal\<rparr>) (svc_step s FlushOp (lv_state L)))"

text \<open>The calls that run the engine: the leader of a flight, or any call when the cache is off.\<close>

definition runs_engine :: "service_state \<Rightarrow> nat \<Rightarrow> bool" where
  "runs_engine st i \<longleftrightarrow>
     (case ss_call st i of
        Direct q t \<Rightarrow> True
      | InDo q t \<Rightarrow> (case callers (ss_flight st) i of Leading k f \<Rightarrow> True | _ \<Rightarrow> False)
      | _ \<Rightarrow> False)"

datatype live_op = Serve service_op | BeginRun nat | Signal "gostring \<Rightarrow> reader option" | ReloadStep

fun live_step :: "Config \<Rightarrow> Service \<Rightarrow> live_op \<Rightarrow> live \<Rightarrow> live option" where
  "live_step cfg s (Serve x) L =
     (case x of
        FlushOp \<Rightarrow> None
      | EngineOp i res \<Rightarrow>
          (if lv_run L i = None then None
           else map_option (\<lambda>st. L\<lparr>lv_state := st, lv_run := (lv_run L)(i := None)\<rparr>) (svc_step s x (lv_state L)))
      | _ \<Rightarrow> map_option (\<lambda>st. L\<lparr>lv_state := st\<rparr>) (svc_step s x (lv_state L)))"
| "live_step cfg s (BeginRun i) L =
     (if runs_engine (lv_state L) i \<and> lv_run L i = None
      then Some (L\<lparr>lv_run := (lv_run L)(i := Some (en_assets (lv_engine L)))\<rparr>) else None)"
| "live_step cfg s (Signal fs) L = reload_signal fs cfg L"
| "live_step cfg s ReloadStep L = handleReloads s L"

definition live_init :: "running_program \<Rightarrow> live" where
  "live_init p = \<lparr>lv_engine = rp_engine p, lv_state = service_init (rp_cache p), lv_run = (\<lambda>_. None), lv_reload = AwaitSignal\<rparr>"

text \<open>The fan-outs of an engine under given assets, and what they can return.\<close>

definition fans_with :: "Engine \<Rightarrow> Assets \<Rightarrow> fan set" where
  "fans_with e a = {f. fan_engine f = UpdateAssets e a \<and> fan_assets f = a}"

definition runs_with :: "Engine \<Rightarrow> Assets set \<Rightarrow> gostring \<Rightarrow> u16 \<Rightarrow> Result \<Rightarrow> bool" where
  "runs_with e A q t res \<longleftrightarrow> (\<exists>a\<in>A. engine_runs (fans_with e a) q t res)"

text \<open>An engine run returns a result for its call's question and the assets it took.\<close>

definition live_possible :: "live_op \<Rightarrow> live \<Rightarrow> bool" where
  "live_possible x L \<longleftrightarrow> (\<forall>i res. x = Serve (EngineOp i res) \<longrightarrow>
     (\<exists>q t a. asks (ss_call (lv_state L) i) = Some (q, t) \<and> lv_run L i = Some a \<and> engine_runs (fans_with (lv_engine L) a) q t res))"

text \<open>The runs of the program from one state to another in which the engine's assets always lie in \<open>A\<close>.\<close>

inductive live_path :: "Config \<Rightarrow> Service \<Rightarrow> Assets set \<Rightarrow> live \<Rightarrow> live \<Rightarrow> bool" for cfg s A L0 where
  refl: "en_assets (lv_engine L0) \<in> A \<Longrightarrow> live_path cfg s A L0 L0"
| step: "live_path cfg s A L0 L \<Longrightarrow> live_possible x L \<Longrightarrow> live_step cfg s x L = Some L' \<Longrightarrow> en_assets (lv_engine L') \<in> A \<Longrightarrow> live_path cfg s A L0 L'"

section \<open>Invariants\<close>

lemma UpdateAssets_twice [simp]: "UpdateAssets (UpdateAssets e a) b = UpdateAssets e b"
  by (simp add: UpdateAssets_def)

lemma UpdateAssets_assets [simp]: "en_assets (UpdateAssets e a) = a"
  by (simp add: UpdateAssets_def)

lemma UpdateAssets_same [simp]: "UpdateAssets e (en_assets e) = e"
  by (simp add: UpdateAssets_def)

text \<open>Only the reloading goroutine changes the engine, and only its assets.\<close>

definition engine_ok :: "Engine \<Rightarrow> live \<Rightarrow> bool" where
  "engine_ok e L \<longleftrightarrow> lv_engine L = UpdateAssets e (en_assets (lv_engine L))
     \<and> (\<forall>a. lv_reload L = Swapped a \<longrightarrow> en_assets (lv_engine L) = a)"

lemma live_step_engine:
  assumes "live_step cfg s x L = Some L'" "x \<noteq> ReloadStep"
  shows "lv_engine L' = lv_engine L"
  using assms by (cases x) (auto simp: reload_signal_def simp del: svc_step.simps split: if_splits service_op.splits sum.splits)

lemma engine_ok_step:
  assumes "engine_ok e L" "live_step cfg s x L = Some L'"
  shows "engine_ok e L'"
proof (cases x)
  case ReloadStep
  consider "\<exists>a. lv_reload L = Loaded a" | "\<exists>a. lv_reload L = Swapped a"
    using assms(2) ReloadStep by (cases "lv_reload L") (auto simp: handleReloads_def)
  then show ?thesis
  proof cases
    case 1
    then obtain a where "L' = L\<lparr>lv_engine := UpdateAssets (lv_engine L) a, lv_reload := Swapped a\<rparr>"
      using assms(2) ReloadStep by (auto simp: handleReloads_def)
    moreover have "UpdateAssets (lv_engine L) a = UpdateAssets e a" using assms(1) by (metis engine_ok_def UpdateAssets_twice)
    ultimately show ?thesis by (simp add: engine_ok_def)
  next
    case 2
    then show ?thesis using assms ReloadStep by (auto simp: handleReloads_def engine_ok_def)
  qed
next
  case (Signal fs)
  then show ?thesis using assms by (auto simp: engine_ok_def reload_signal_def split: if_splits sum.splits)
next
  case (Serve y)
  then show ?thesis
    using assms by (auto simp: engine_ok_def simp del: svc_step.simps split: if_splits service_op.splits)
next
  case (BeginRun i)
  then show ?thesis using assms by (auto simp: engine_ok_def split: if_splits)
qed

text \<open>A call that runs the engine keeps doing so until the engine returns.\<close>

lemma runs_engine_step:
  assumes "matched st" "svc_step s x st = Some st'" "runs_engine st i" "\<And>res. x \<noteq> EngineOp i res"
  shows "runs_engine st' i \<and> ss_call st' i = ss_call st i"
proof -
  have run: "(\<exists>q t. ss_call st i = Direct q t) \<and> callers (ss_flight st) i = Idle
      \<or> (\<exists>q t k f. ss_call st i = InDo q t \<and> callers (ss_flight st) i = Leading k f)"
    using assms(1,3) spec [OF assms(1) [unfolded matched_def], of i]
    by (auto simp: runs_engine_def split: call.splits caller.splits)
  have keep: ?thesis if "ss_call st' i = ss_call st i" "callers (ss_flight st') i = callers (ss_flight st) i"
    using that assms(3) unfolding runs_engine_def by (simp only: that)
  have fin: ?thesis if h: "do_step y (ss_flight st) = Some fs" "st' = finish_call j st fs"
    "y = CloseDone j \<or> y = Wake j \<or> (\<exists>e. y = GiveUp j e)" for y fs j
  proof -
    have "i \<noteq> j" using h(1,3) run by (auto split: caller.splits if_splits)
    then have "callers fs i = callers (ss_flight st) i" by (intro do_step_others [OF h(1)]) (use h(3) in auto)
    then show ?thesis using \<open>i \<noteq> j\<close> h(2) by (intro keep) (auto simp: finish_call_calls split: caller.splits)
  qed
  show ?thesis
  proof (cases x)
    case (LookupOp j q t)
    then show ?thesis using assms(2) run by (intro keep) (auto split: call.splits prod.splits)
  next
    case (EnterOp j)
    then obtain q t fs where e: "ss_call st j = Asked q t" "do_step (Enter j (lookup_key q t)) (ss_flight st) = Some fs"
      "st' = st\<lparr>ss_flight := fs, ss_call := (ss_call st)(j := InDo q t)\<rparr>"
      using assms(2) by (auto simp del: do_step.simps split: call.splits)
    then have "i \<noteq> j" using run by auto
    then show ?thesis using do_step_others [OF e(2), of i] by (intro keep) (auto simp: e(3))
  next
    case (EngineOp j res)
    then have ij: "i \<noteq> j" using assms(4) by blast
    show ?thesis
    proof (cases "ss_call st j")
      case (InDo q t)
      obtain v b where r: "service_resolve s res = (v, b)" by fastforce
      have st': "do_step (FnReturns j v b) (ss_flight st) = Some (ss_flight st')" "ss_call st' = ss_call st"
        using assms(2) EngineOp InDo r by (auto simp del: do_step.simps)
      show ?thesis using do_step_others [OF st'(1), of i] ij by (intro keep) (auto simp: st'(2))
    next
      case (Direct q t)
      then show ?thesis using assms(2) EngineOp ij by (intro keep) auto
    qed (use assms(2) EngineOp in auto)
  next
    case (CloseOp j)
    then show ?thesis using assms(2) fin by (auto simp del: do_step.simps)
  next
    case (WakeOp j)
    then show ?thesis using assms(2) fin by (auto simp del: do_step.simps)
  next
    case (GiveUpOp j e)
    then show ?thesis using assms(2) fin by (auto simp del: do_step.simps)
  next
    case FlushOp
    then obtain fs where fs: "do_step (Other OpFlush) (ss_flight st) = Some fs" "st' = st\<lparr>ss_flight := fs\<rparr>"
      using assms(2) by (auto simp del: do_step.simps)
    show ?thesis using do_step_others [OF fs(1), of i] by (intro keep) (auto simp: fs(2))
  next
    case SweepOp
    then obtain fs where fs: "do_step (Other OpSweep) (ss_flight st) = Some fs" "st' = st\<lparr>ss_flight := fs\<rparr>"
      using assms(2) by (auto simp del: do_step.simps)
    show ?thesis using do_step_others [OF fs(1), of i] by (intro keep) (auto simp: fs(2))
  qed
qed

lemma runs_engine_asks: "runs_engine st i \<Longrightarrow> asks (ss_call st i) \<noteq> None"
  by (auto simp: runs_engine_def split: call.splits)

text \<open>
  Values come from runs with assets in \<open>A\<close>, except for the keys in \<open>K\<close>, and so will those of the runs under way.
\<close>

definition live_inv :: "Engine \<Rightarrow> CacheKey set \<Rightarrow> Assets set \<Rightarrow> live \<Rightarrow> bool" where
  "live_inv e K A L \<longleftrightarrow> engine_ok e L \<and> matched (lv_state L) \<and> served_inv (after K (runs_with e A)) (lv_state L)
     \<and> (\<forall>i a. lv_run L i = Some a \<longrightarrow> runs_engine (lv_state L) i
         \<and> (\<forall>q t. asks (ss_call (lv_state L) i) = Some (q, t) \<longrightarrow> lookup_key q t \<in> K \<or> a \<in> A))"

lemma fans_with_engine: "engine_ok e L \<Longrightarrow> fans_with (lv_engine L) a = fans_with e a"
  unfolding fans_with_def engine_ok_def by (metis UpdateAssets_twice)

lemma live_tied:
  assumes "live_inv e K A L" "live_possible (Serve x) L"
  shows "tied (after K (runs_with e A)) x (lv_state L)"
  unfolding tied_def
proof (intro allI impI)
  fix i res
  assume "x = EngineOp i res"
  then obtain q t a where q: "asks (ss_call (lv_state L) i) = Some (q, t)" "lv_run L i = Some a" "engine_runs (fans_with (lv_engine L) a) q t res"
    using assms(2) by (auto simp: live_possible_def)
  moreover have "lookup_key q t \<in> K \<or> a \<in> A" using assms(1) q(1,2) unfolding live_inv_def by blast
  moreover have "engine_runs (fans_with e a) q t res" using q(3) fans_with_engine [of e L a] assms(1) by (simp add: live_inv_def)
  ultimately show "\<exists>q t. asks (ss_call (lv_state L) i) = Some (q, t) \<and> after K (runs_with e A) q t res"
    by (auto simp: after_def runs_with_def)
qed

text \<open>A step that changes the service, for one call or for all.\<close>

lemma live_inv_serve:
  assumes "live_inv e K A L" "svc_step s x (lv_state L) = Some st" "tied (after K (runs_with e A)) x (lv_state L)"
    and "engine_ok e L'" "lv_state L' = st" "\<And>i. lv_run L' i \<noteq> None \<Longrightarrow> lv_run L' i = lv_run L i \<and> (\<forall>res. x \<noteq> EngineOp i res)"
  shows "live_inv e K A L'"
proof -
  have inv: "matched (lv_state L)" "served_inv (after K (runs_with e A)) (lv_state L)" using assms(1) by (simp_all add: live_inv_def)
  have run: "runs_engine st i \<and> (\<forall>q t. asks (ss_call st i) = Some (q, t) \<longrightarrow> lookup_key q t \<in> K \<or> a \<in> A)"
    if h: "lv_run L' i = Some a" for i a
  proof -
    have "lv_run L i = Some a" "\<And>res. x \<noteq> EngineOp i res" using assms(6) [of i] h by auto
    then show ?thesis using runs_engine_step [OF inv(1) assms(2), of i] assms(1) unfolding live_inv_def by metis
  qed
  show ?thesis
    unfolding live_inv_def using assms(4,5) matched_step [OF inv(1) assms(2)] served_step [OF inv(2) assms(3,2)] run by simp
qed

lemma live_inv_step:
  assumes "live_inv e K A L" "live_possible x L" "live_step cfg s x L = Some L'" "en_assets (lv_engine L') \<in> A"
  shows "live_inv e K A L'"
proof -
  have ok: "engine_ok e L'" using engine_ok_step [OF _ assms(3)] assms(1) by (simp add: live_inv_def)
  show ?thesis
  proof (cases x)
    case (Serve y)
    then have tied: "tied (after K (runs_with e A)) y (lv_state L)" using live_tied [OF assms(1)] assms(2) by simp
    obtain st where st: "svc_step s y (lv_state L) = Some st" "lv_state L' = st"
      using assms(3) Serve by (auto simp del: svc_step.simps split: service_op.splits if_splits)
    show ?thesis
      by (rule live_inv_serve [OF assms(1) st(1) tied ok st(2)])
        (use assms(3) Serve in \<open>auto simp del: svc_step.simps split: service_op.splits if_splits\<close>)
  next
    case (BeginRun i)
    then have L': "L' = L\<lparr>lv_run := (lv_run L)(i := Some (en_assets (lv_engine L)))\<rparr>" "runs_engine (lv_state L) i"
      using assms(3) by (auto split: if_splits)
    then show ?thesis using assms(1,4) ok unfolding live_inv_def by auto
  next
    case (Signal fs)
    then have "lv_state L' = lv_state L" "lv_run L' = lv_run L"
      using assms(3) by (auto simp: reload_signal_def split: if_splits sum.splits)
    then show ?thesis using assms(1) ok by (simp add: live_inv_def)
  next
    case ReloadStep
    show ?thesis
    proof (cases "\<exists>a. lv_reload L = Loaded a")
      case True
      then have "lv_state L' = lv_state L" "lv_run L' = lv_run L" using assms(3) ReloadStep by (auto simp: handleReloads_def)
      then show ?thesis using assms(1) ok by (simp add: live_inv_def)
    next
      case False
      then obtain st where st: "svc_step s FlushOp (lv_state L) = Some st" "lv_state L' = st" "lv_run L' = lv_run L"
        using assms(3) ReloadStep by (cases "lv_reload L") (auto simp: handleReloads_def simp del: svc_step.simps)
      show ?thesis by (rule live_inv_serve [OF assms(1) st(1) not_engine_tied ok st(2)]) (simp_all add: st(3))
    qed
  qed
qed

lemma live_inv_path: "live_path cfg s A L0 L \<Longrightarrow> live_inv e K A L0 \<Longrightarrow> live_inv e K A L"
  by (induction rule: live_path.induct) (use live_inv_step in blast)+

lemma live_inv_init:
  assumes "rp_cache p = Cache_New n now" "0 \<le> n" "mono now"
  shows "live_inv (rp_engine p) {} UNIV (live_init p)"
proof -
  let ?G = "after {} (runs_with (rp_engine p) UNIV)"
  have r: "served_reach s (Cache_New n now) ?G (service_init (Cache_New n now))" for s by (rule served_reach.init)
  show ?thesis
    using served_inv_reach [OF r assms(2,3)] matched_reach [OF r]
    by (simp add: live_inv_def live_init_def assms(1) engine_ok_def)
qed

text \<open>The end of a reload: the keys that nobody asks for start afresh under the new assets.\<close>

lemma live_inv_flushed:
  assumes "live_inv e {} UNIV L0" "lv_reload L0 \<in> {Loaded a, Swapped a}" "handleReloads s L0 = Some L1" "lv_reload L1 = AwaitSignal" "a \<in> A"
  shows "live_inv e (under_way (lv_state L0)) A L1 \<and> en_assets (lv_engine L1) = a"
proof -
  have sw: "lv_reload L0 = Swapped a" using assms(2-4) by (auto simp: handleReloads_def)
  then obtain st where st: "svc_step s FlushOp (lv_state L0) = Some st" "L1 = L0\<lparr>lv_state := st, lv_reload := AwaitSignal\<rparr>"
    using assms(3) by (auto simp: handleReloads_def simp del: svc_step.simps)
  have eng: "engine_ok e L0" using assms(1) by (simp add: live_inv_def)
  then have eng': "engine_ok e L1" "en_assets (lv_engine L1) = a" using sw unfolding engine_ok_def st(2) by auto
  have calls: "ss_call st = ss_call (lv_state L0)" "callers (ss_flight st) = callers (ss_flight (lv_state L0))" using st(1) by auto
  have run: "runs_engine st i \<and> (\<forall>q t. asks (ss_call st i) = Some (q, t) \<longrightarrow> lookup_key q t \<in> under_way (lv_state L0))"
    if "lv_run L0 i = Some b" for i b
  proof -
    have "runs_engine (lv_state L0) i" using that assms(1) by (auto simp: live_inv_def)
    then show ?thesis unfolding runs_engine_def calls under_way_def by blast
  qed
  have "served_inv (after (under_way (lv_state L0)) (runs_with e A)) st"
    by (rule flushed_inv [where G = "after {} (runs_with e UNIV)", OF _ st(1)]) (use assms(1) in \<open>simp add: live_inv_def\<close>)
  then show ?thesis
    using run eng' matched_step [OF _ st(1)] assms(1) by (simp add: live_inv_def st(2))
qed

text \<open>Where an answer comes from.\<close>

lemma live_answer:
  assumes "live_inv e K A L" "live_possible x L" "live_step cfg s x L = Some L'"
    and "ss_call (lv_state L') i = Answered (Inr v)" "ss_call (lv_state L) i \<noteq> Answered (Inr v)"
    and "x = Serve (LookupOp i q t) \<or> asks (ss_call (lv_state L) i) = Some (q, t)" "lookup_key q t \<notin> K"
  shows "from_run (runs_with e A) (lookup_key q t) v"
proof -
  obtain y where y: "x = Serve y"
  proof (cases x)
    case ReloadStep
    then have "ss_call (lv_state L') = ss_call (lv_state L)"
      using assms(3) by (auto simp: handleReloads_def split: reload_pos.splits)
    then show ?thesis using assms(4,5) by simp
  qed (use assms(3-5) in \<open>auto simp: reload_signal_def split: if_splits sum.splits\<close>)
  obtain st where st: "svc_step s y (lv_state L) = Some st" "lv_state L' = st"
    using assms(3) y by (auto simp del: svc_step.simps split: service_op.splits if_splits)
  have "from_run (after K (runs_with e A)) (lookup_key q t) v"
    by (rule answered_from_run [OF _ live_tied [OF assms(1)] st(1)])
      (use assms(1,2,4-6) y st(2) in \<open>auto simp: live_inv_def\<close>)
  then show ?thesis using from_run_after assms(7) by blast
qed

text \<open>A run of the service without engine runs and flushes is one of the program.\<close>

lemma live_quiet_run:
  assumes "live_path cfg s A L0 L" "list_all (\<lambda>x. x \<noteq> FlushOp \<and> (\<forall>i res. x \<noteq> EngineOp i res)) xs" "svc_run s xs (lv_state L) = Some st"
  shows "live_path cfg s A L0 (L\<lparr>lv_state := st\<rparr>)"
  using assms
proof (induction xs arbitrary: L)
  case (Cons x xs)
  then obtain u where u: "svc_step s x (lv_state L) = Some u" "svc_run s xs u = Some st" by (auto simp del: svc_step.simps split: option.splits)
  have "live_step cfg s (Serve x) L = Some (L\<lparr>lv_state := u\<rparr>)"
    using u(1) Cons.prems(2) by (cases x) (simp_all del: svc_step.simps)
  moreover have "en_assets (lv_engine L) \<in> A" using Cons.prems(1) by (cases rule: live_path.cases) auto
  ultimately have "live_path cfg s A L0 (L\<lparr>lv_state := u\<rparr>)"
    using live_path.step [OF Cons.prems(1), of "Serve x"] Cons.prems(2) by (simp add: live_possible_def del: live_step.simps)
  from Cons.IH [OF this] Cons.prems(2) u(2) show ?case by simp
qed auto

text \<open>Files that cannot be loaded change nothing.\<close>

lemma reload_failure: "loadAssets fs cfg = Inl err \<Longrightarrow> live_step cfg s (Signal fs) L = Some L' \<Longrightarrow> L' = L"
  by (auto simp: reload_signal_def split: if_splits)

end
