(* ===== verification/SharedClient.thy ===== *)
theory SharedClient
  imports Upstream
begin

text \<open>
  The \<^verbatim>\<open>dns.Client\<close> that concurrent queries to one upstream share. \<^verbatim>\<open>exchangeNet\<close> writes its field \<^verbatim>\<open>Timeout\<close> and then calls
  the client, which reads the field; theory Upstream takes both as one step. Here the write and the read are two steps of each
  query, in any interleaving: a query runs with the budget of some query that has begun, so that a bound on all budgets
  bounds every exchange, but not always with its own. What theory Upstream shows holds for every network, and so for one whose
  exchanges end early or late for this reason.
\<close>

datatype sending = Unsent | Sending | Sent int

record shared =
  sh_client :: dns_client
  sh_pos :: "nat \<Rightarrow> sending"

text \<open>One step of query \<open>g\<close>: set the field, then start the exchange with the value found there.\<close>

definition shared_step :: "nat \<Rightarrow> int \<Rightarrow> shared \<Rightarrow> shared option" where
  "shared_step g budget s =
     (case sh_pos s g of
        Unsent \<Rightarrow> Some (s\<lparr>sh_client := (sh_client s)\<lparr>cl_timeout := budget\<rparr>, sh_pos := (sh_pos s)(g := Sending)\<rparr>)
      | Sending \<Rightarrow> Some (s\<lparr>sh_pos := (sh_pos s)(g := Sent (cl_timeout (sh_client s)))\<rparr>)
      | Sent b \<Rightarrow> None)"

definition shared_init :: "dns_client \<Rightarrow> shared" where
  "shared_init cl = \<lparr>sh_client = cl, sh_pos = (\<lambda>_. Unsent)\<rparr>"

fun shared_run :: "int list \<Rightarrow> nat list \<Rightarrow> shared \<Rightarrow> shared option" where
  "shared_run budgets [] s = Some s"
| "shared_run budgets (g # gs) s =
     (if g < length budgets
      then (case shared_step g (budgets ! g) s of None \<Rightarrow> None | Some s' \<Rightarrow> shared_run budgets gs s') else None)"

section \<open>The budget of an exchange\<close>

definition shared_inv :: "int list \<Rightarrow> shared \<Rightarrow> bool" where
  "shared_inv budgets s \<longleftrightarrow>
     (\<forall>g. sh_pos s g \<noteq> Unsent \<longrightarrow> cl_timeout (sh_client s) \<in> set budgets) \<and> (\<forall>g b. sh_pos s g = Sent b \<longrightarrow> b \<in> set budgets)"

lemma shared_inv_step:
  assumes "shared_inv budgets s" "g < length budgets" "shared_step g (budgets ! g) s = Some s'"
  shows "shared_inv budgets s'"
  using assms by (cases "sh_pos s g") (auto simp: shared_step_def shared_inv_def split: if_splits)

lemma shared_inv_run: "shared_inv budgets s \<Longrightarrow> shared_run budgets gs s = Some s' \<Longrightarrow> shared_inv budgets s'"
  by (induction gs arbitrary: s) (auto split: if_splits option.splits dest: shared_inv_step)

lemma shared_budget_bounds:
  assumes "shared_run budgets gs (shared_init cl) = Some s" "sh_pos s g = Sent b"
    and "\<forall>x\<in>set budgets. 0 < x \<and> x \<le> attempt"
  shows "0 < b \<and> b \<le> attempt"
proof -
  have "shared_inv budgets (shared_init cl)" by (simp add: shared_inv_def shared_init_def)
  then show ?thesis using shared_inv_run [OF _ assms(1)] assms(2,3) by (auto simp: shared_inv_def)
qed

text \<open>The budgets that \<^verbatim>\<open>Chase\<close> passes are positive and at most the timeout of an attempt.\<close>

lemma hopBudget_bounds: "0 < attempt \<Longrightarrow> fst (hopBudget env t attempt) \<le> attempt \<and> 0 \<le> fst (hopBudget env t attempt)"
  by (simp add: hopBudget_def Let_def split: option.splits)

text \<open>A query with no other at the same time runs with its own budget, as in \<^const>\<open>exchangeNet\<close>.\<close>

lemma shared_alone:
  "shared_run [budget] [0, 0] (shared_init cl) = Some s \<Longrightarrow> sh_pos s 0 = Sent (cl_timeout (fst (exchangeNet env t cl addr q budget)))"
  by (auto simp: shared_step_def shared_init_def exchangeNet_def Let_def)

section \<open>Observations\<close>

text \<open>Of two queries at the same time the first can run with the budget of the second.\<close>

lemma shared_budget_mixed: "\<exists>s. shared_run [a, b] [0, 1, 0] (shared_init cl) = Some s \<and> sh_pos s 0 = Sent b"
  by (simp add: shared_step_def shared_init_def)

end
