(* ===== verification/TestDns.thy ===== *)
theory TestDns
  imports Upstream GoFmt
begin

text \<open>
  Package \<^verbatim>\<open>internal/testdns\<close>: the programmable upstream that the repository's tests run against, and what
  \<^verbatim>\<open>Chase\<close> finds in it. A zone on a network that loses nothing is an environment of theory Upstream;
  the statements say for every zone what the tests try on a few.
\<close>

section \<open>fake.go\<close>

text \<open>
  A missing key and a nil value of the Go maps are \<^const>\<open>None\<close>; an empty slice that is not nil is
  \<open>Some []\<close>. The counter \<^verbatim>\<open>hits\<close> is an atomic, the mutex guards the read of \<^verbatim>\<open>Records\<close>.
\<close>

record Zone =
  Records :: "gostring \<rightharpoonup> (u16 \<rightharpoonup> rr list)"
  Delay :: int
  DelayNames :: "gostring \<rightharpoonup> int"
  TruncateUDP :: bool
  DropUDP :: bool
  hits :: int

definition Hits :: "Zone \<Rightarrow> int" where
  "Hits z = hits z"

definition delayFor :: "Zone \<Rightarrow> gostring \<Rightarrow> int" where
  "delayFor z name = (case DelayNames z (to_lower name) of Some d \<Rightarrow> d | None \<Rightarrow> Delay z)"

definition zone_soa :: "Zone \<Rightarrow> gostring \<Rightarrow> soa_rr" where
  "zone_soa z name = \<lparr>soa_hdr = \<lparr>hdr_name = ''example.'', hdr_rrtype = TypeSOA, hdr_class = ClassINET, hdr_ttl = 3600\<rparr>,
     soa_mname = ''ns1.example.'', soa_mbox = ''hostmaster.example.'', soa_serial = 1, soa_refresh = 7200, soa_retry = 3600,
     soa_expire = 1209600, soa_minttl = 300\<rparr>"

text \<open>One call of the handler: the reply it writes, if any, and how long it sleeps before.\<close>

definition zone_handler :: "dns_lib \<Rightarrow> Zone \<Rightarrow> bool \<Rightarrow> msg \<Rightarrow> Zone \<times> int \<times> msg option" where
  "zone_handler lib z0 isUDP r =
     (let z = z0\<lparr>hits := hits z0 + 1\<rparr>; m = set_reply lib new_msg r
      in if length (m_question r) \<noteq> 1 then (z, 0, Some (m\<lparr>m_rcode := RcodeServerFailure\<rparr>))
         else let q = hd (m_question r); name = to_lower (q_name q); d = max 0 (delayFor z name)
              in if isUDP \<and> DropUDP z then (z, d, None)
                 else if isUDP \<and> TruncateUDP z then (z, d, Some (m\<lparr>m_truncated := True\<rparr>))
                 else (z, d, Some (case Records z name of
                    None \<Rightarrow> m\<lparr>m_rcode := RcodeNameError, m_ns := m_ns m @ [RR_SOA (zone_soa z name)]\<rparr>
                  | Some byType \<Rightarrow>
                      (case byType (q_type q) of
                         Some rrs \<Rightarrow> m\<lparr>m_answer := m_answer m @ rrs\<rparr>
                       | None \<Rightarrow> m\<lparr>m_ns := m_ns m @ [RR_SOA (zone_soa z name)]\<rparr>))))"

text \<open>
  \<^verbatim>\<open>Start\<close> binds UDP to a free port of the loopback address and TCP to the same port; the listen functions are
  arguments. A test that cannot bind fails.
\<close>

datatype net_addr = UDPAddr addr int | TCPAddr addr int | OtherAddr

fun PortOf :: "net_addr \<Rightarrow> int" where
  "PortOf (UDPAddr ip port) = port"
| "PortOf (TCPAddr ip port) = port"
| "PortOf OtherAddr = 0"

record 'h test_server =
  ts_UDPAddr :: net_addr
  ts_TCPAddr :: net_addr
  ts_handler :: 'h
  ts_udp_running :: bool
  ts_tcp_running :: bool

datatype test_fatal = ListenUDPFatal | ListenTCPFatal | NotUDPAddr

definition Start :: "(gostring \<Rightarrow> net_addr option) \<Rightarrow> (gostring \<Rightarrow> net_addr option) \<Rightarrow> 'h \<Rightarrow> test_fatal + 'h test_server" where
  "Start listenPacket listen h =
     (case listenPacket ''127.0.0.1:0'' of
        None \<Rightarrow> Inl ListenUDPFatal
      | Some (UDPAddr ip port) \<Rightarrow>
          (case listen (''127.0.0.1:'' @ itoa port) of
             None \<Rightarrow> Inl ListenTCPFatal
           | Some ln \<Rightarrow> Inr \<lparr>ts_UDPAddr = UDPAddr ip port, ts_TCPAddr = ln, ts_handler = h, ts_udp_running = True, ts_tcp_running = True\<rparr>)
      | Some _ \<Rightarrow> Inl NotUDPAddr)"

definition StartZone :: "dns_lib \<Rightarrow> (gostring \<Rightarrow> net_addr option) \<Rightarrow> (gostring \<Rightarrow> net_addr option) \<Rightarrow> Zone
    \<Rightarrow> test_fatal + (bool \<Rightarrow> msg \<Rightarrow> Zone \<times> int \<times> msg option) test_server" where
  "StartZone lib listenPacket listen z = Start listenPacket listen (zone_handler lib z)"

definition Server_Close :: "'h test_server \<Rightarrow> 'h test_server" where
  "Server_Close s = s\<lparr>ts_udp_running := False, ts_tcp_running := False\<rparr>"

text \<open>A client can retry over TCP at the port it used over UDP.\<close>

lemma Start_shares_port:
  assumes "Start listenPacket listen h = Inr s" "\<And>port a. listen (''127.0.0.1:'' @ itoa port) = Some a \<Longrightarrow> PortOf a = port"
  shows "PortOf (ts_TCPAddr s) = PortOf (ts_UDPAddr s) \<and> ts_handler s = h"
  using assms by (auto simp: Start_def split: option.splits net_addr.splits)

section \<open>A zone as an upstream\<close>

text \<open>
  The network between a client and the zone: a reply arrives after the zone's delay unless the client's
  timeout comes first; a query that is never answered times out. The context does not end.
\<close>

definition zone_env :: "dns_lib \<Rightarrow> Zone \<Rightarrow> query_env" where
  "zone_env lib z = \<lparr>ctx_err = (\<lambda>_. None), ctx_until = (\<lambda>_. None),
     net_exchange = (\<lambda>_ cl _ q.
       case zone_handler lib z (cl_net cl = ''udp'') q of (_, d, reply) \<Rightarrow>
         (case reply of
            Some m \<Rightarrow> (if d < cl_timeout cl then Inr m else Inl NetTimeout)
          | None \<Rightarrow> Inl NetTimeout))\<rparr>"

text \<open>A zone that answers within the time of an attempt.\<close>

definition prompt :: "Zone \<Rightarrow> int \<Rightarrow> bool" where
  "prompt z timeout \<longleftrightarrow> \<not> DropUDP z \<and> 0 < timeout \<and> (\<forall>name. delayFor z name < timeout)"

text \<open>What the records hold for a question, as a reply built on \<open>m\<close>.\<close>

definition zone_content :: "Zone \<Rightarrow> u16 \<Rightarrow> gostring \<Rightarrow> msg \<Rightarrow> msg" where
  "zone_content z qtype name m =
     (case Records z (to_lower name) of
        None \<Rightarrow> m\<lparr>m_rcode := RcodeNameError, m_ns := m_ns m @ [RR_SOA (zone_soa z name)]\<rparr>
      | Some byType \<Rightarrow>
          (case byType qtype of
             Some rrs \<Rightarrow> m\<lparr>m_answer := m_answer m @ rrs\<rparr>
           | None \<Rightarrow> m\<lparr>m_ns := m_ns m @ [RR_SOA (zone_soa z name)]\<rparr>))"

definition zone_reply :: "dns_lib \<Rightarrow> Zone \<Rightarrow> chase_args \<Rightarrow> gostring \<Rightarrow> msg" where
  "zone_reply lib z a name =
     zone_content z (ca_qtype a) name (set_reply lib new_msg (chase_query lib name (ca_qtype a) (ca_udpSize a)))"

lemma chase_query_question:
  assumes "question_law lib" "edns_law lib"
  shows "m_question (chase_query lib cur qtype sz) = [\<lparr>q_name = cur, q_type = qtype, q_class = ClassINET\<rparr>]"
proof -
  let ?m = "(set_question lib new_msg cur qtype)\<lparr>m_rd := True\<rparr>"
  have q: "m_question ?m = [\<lparr>q_name = cur, q_type = qtype, q_class = ClassINET\<rparr>]" "m_extra ?m = []"
    using assms(1) by (simp_all add: question_law_def)
  then have "is_edns0 lib ?m = None" using assms(2) by (simp add: edns_law_def)
  then obtain h where "set_edns0 lib ?m sz False = ?m\<lparr>m_extra := m_extra ?m @ [RR_OPT h]\<rparr>"
    using assms(2) unfolding edns_law_def by blast
  then show ?thesis using q(1) by (simp add: chase_query_def)
qed

lemma zone_handler_query:
  assumes "m_question r = [q]"
  shows "snd (zone_handler lib z isUDP r) =
    (max 0 (delayFor z (to_lower (q_name q))),
     if isUDP \<and> DropUDP z then None
     else if isUDP \<and> TruncateUDP z then Some ((set_reply lib new_msg r)\<lparr>m_truncated := True\<rparr>)
     else Some (zone_content z (q_type q) (q_name q) (set_reply lib new_msg r)))"
proof -
  have "delayFor (z\<lparr>hits := n\<rparr>) = delayFor z" for n by (simp add: delayFor_def fun_eq_iff split: option.split)
  then show ?thesis
    using assms by (simp add: zone_handler_def zone_content_def zone_soa_def Let_def split: option.split)
qed

lemma zone_exchange:
  assumes "m_question r = [q]"
  shows "net_exchange (zone_env lib z) t cl addr r =
    (if (cl_net cl = ''udp'' \<and> DropUDP z) \<or> cl_timeout cl \<le> max 0 (delayFor z (to_lower (q_name q))) then Inl NetTimeout
     else if cl_net cl = ''udp'' \<and> TruncateUDP z then Inr ((set_reply lib new_msg r)\<lparr>m_truncated := True\<rparr>)
     else Inr (zone_content z (q_type q) (q_name q) (set_reply lib new_msg r)))"
  using zone_handler_query [OF assms, of lib z "cl_net cl = ''udp''"]
  by (cases "zone_handler lib z (cl_net cl = ''udp'') r") (auto simp: zone_env_def not_le)

lemma zone_content_untruncated [simp]: "m_truncated (zone_content z qtype name m) = m_truncated m"
  by (simp add: zone_content_def split: option.splits)

text \<open>A prompt zone serves its records, truncating or not.\<close>

lemma zone_serves:
  assumes "question_law lib" "edns_law lib" "reply_law lib" "prompt z (ca_attemptTimeout a)"
  shows "serves (zone_env lib z) lib a (zone_reply lib z a)"
proof -
  have env: "ctx_err (zone_env lib z) t = None" "ctx_until (zone_env lib z) t = None" for t by (simp_all add: zone_env_def)
  have "snd (snd (Exchange (zone_env lib z) t cl (ca_addr a) (chase_query lib name (ca_qtype a) (ca_udpSize a)) (ca_attemptTimeout a)))
      = Inr (zone_reply lib z a name)" if "transports cl" for t cl name
  proof -
    have "\<not> m_truncated (set_reply lib new_msg r)" for r using assms(3) by (simp add: reply_law_def Let_def)
    moreover have "\<not> ca_attemptTimeout a \<le> max 0 (delayFor z n)" for n using assms(4) by (auto simp: prompt_def not_le)
    ultimately show ?thesis
      using that assms(4) zone_exchange [OF chase_query_question [OF assms(1,2)], of lib z]
      by (simp add: Exchange_def exchangeNet_def env transports_def prompt_def zone_reply_def Let_def)
  qed
  then show ?thesis
    using assms(4) env by (auto simp: serves_def hopBudget_def prompt_def Let_def)
qed

lemma zone_reply_cong: "Records z = Records z' \<Longrightarrow> zone_reply lib z a = zone_reply lib z' a"
  by (simp add: zone_reply_def zone_content_def zone_soa_def fun_eq_iff split: option.splits)

section \<open>What a zone says about a name\<close>

text \<open>The zone stores one record for the name and type: an alias of another name.\<close>

definition zone_alias :: "Zone \<Rightarrow> u16 \<Rightarrow> gostring \<Rightarrow> gostring \<Rightarrow> bool" where
  "zone_alias z qtype x y \<longleftrightarrow>
     (case Records z (to_lower x) of
        Some byType \<Rightarrow> (case byType qtype of
            Some [RR_CNAME h target] \<Rightarrow> hdr_rrtype h \<noteq> qtype \<and> equal_fold (hdr_name h) x \<and> chase_normalize target = y
          | _ \<Rightarrow> False)
      | None \<Rightarrow> False)"

fun zone_chain :: "Zone \<Rightarrow> u16 \<Rightarrow> gostring list \<Rightarrow> bool" where
  "zone_chain z qtype (x # y # ns) \<longleftrightarrow> zone_alias z qtype x y \<and> zone_chain z qtype (y # ns)"
| "zone_chain z qtype ns \<longleftrightarrow> True"

text \<open>The records of the name and type hold no alias.\<close>

definition zone_terminal :: "Zone \<Rightarrow> u16 \<Rightarrow> gostring \<Rightarrow> bool" where
  "zone_terminal z qtype name \<longleftrightarrow>
     (\<forall>byType rrs. Records z (to_lower name) = Some byType \<longrightarrow> byType qtype = Some rrs \<longrightarrow> (\<forall>h t. RR_CNAME h t \<notin> set rrs))"

text \<open>The outcome a resolver should report for such a name.\<close>

definition zone_outcome :: "Zone \<Rightarrow> u16 \<Rightarrow> policy_result \<Rightarrow> gostring \<Rightarrow> policy_result" where
  "zone_outcome z qtype r0 name =
     (case Records z (to_lower name) of
        None \<Rightarrow> r0\<lparr>res_state := StateNXDomain, res_soa := Some (zone_soa z name)\<rparr>
      | Some byType \<Rightarrow>
          (case byType qtype of
             None \<Rightarrow> r0\<lparr>res_state := StateNoData, res_soa := Some (zone_soa z name)\<rparr>
           | Some rrs \<Rightarrow>
               (if filter (usable qtype) rrs \<noteq> []
                then r0\<lparr>res_state := StateAnswer, res_addrs := dedupAddrs (map (fst \<circ> rrAddr) (filter (usable qtype) rrs)),
                        MinTTL := snd (answer_addrs qtype rrs [] 0)\<rparr>
                else r0\<lparr>res_state := StateNoData, res_soa := None\<rparr>)))"

lemma reply_blank:
  assumes "reply_law lib"
  shows "m_rcode (set_reply lib new_msg r) = RcodeSuccess" "m_answer (set_reply lib new_msg r) = []" "m_ns (set_reply lib new_msg r) = []"
  using assms by (simp_all add: reply_law_def Let_def)

lemma alias_link:
  assumes "reply_law lib" "zone_alias z (ca_qtype a) x y"
  shows "cname_link (ca_qtype a) (zone_reply lib z a x) x y"
  using assms(2) reply_blank [OF assms(1)]
  by (auto simp: zone_alias_def cname_link_def zone_reply_def zone_content_def split: option.splits list.splits rr.splits)

lemma zone_chain_links: "reply_law lib \<Longrightarrow> zone_chain z (ca_qtype a) ns \<Longrightarrow> cname_chain (ca_qtype a) (zone_reply lib z a) ns"
  by (induction z "ca_qtype a" ns rule: zone_chain.induct) (auto simp: alias_link)

lemma no_targets: "\<forall>h t. RR_CNAME h t \<notin> set rs \<Longrightarrow> cname_targets cur rs ts seen = ts"
  by (induction cur rs ts seen rule: cname_targets.induct) (auto split: rr.splits)

lemma terminal_outcome:
  assumes "reply_law lib" "zone_terminal z (ca_qtype a) name"
  shows "hop_reply lib (ca_qtype a) name r0 (zone_reply lib z a name) = Inl (zone_outcome z (ca_qtype a) r0 name)"
proof (cases "Records z (to_lower name)")
  case None
  then show ?thesis
    using reply_blank [OF assms(1)]
    by (simp add: hop_reply_def zone_reply_def zone_content_def zone_outcome_def extractSOA_def go_consts)
next
  case (Some byType)
  show ?thesis
  proof (cases "byType (ca_qtype a)")
    case None
    then show ?thesis
      using Some reply_blank [OF assms(1)]
      by (simp add: hop_reply_def zone_reply_def zone_content_def zone_outcome_def extractSOA_def)
  next
    case rrs: (Some rrs)
    have "cname_targets name rrs [] {} = []"
      using assms(2) Some rrs by (intro no_targets) (auto simp: zone_terminal_def)
    then show ?thesis
      using Some rrs reply_blank [OF assms(1)] answer_addrs_fst [of "ca_qtype a" rrs "[]" 0]
      by (cases "answer_addrs (ca_qtype a) rrs [] 0")
        (auto simp: hop_reply_def zone_reply_def zone_content_def zone_outcome_def extractSOA_def Let_def)
  qed
qed

text \<open>A sample zone: an alias and two records of one address behind it.\<close>

definition sample_zone :: Zone where
  "sample_zone = \<lparr>Records = [''a.example.'' \<mapsto> [TypeA \<mapsto> [RR_CNAME \<lparr>hdr_name = ''a.example.'', hdr_rrtype = TypeCNAME,
       hdr_class = ClassINET, hdr_ttl = 60\<rparr> ''B.example'']],
     ''b.example.'' \<mapsto> [TypeA \<mapsto> [sample_a 300 4, sample_a 60 4]]],
     Delay = 20, DelayNames = Map.empty, TruncateUDP = False, DropUDP = False, hits = 0\<rparr>"

section \<open>Properties\<close>

text \<open>
  Transport and timing do not change a resolution: against two prompt zones with the same records,
  one of which may truncate every UDP answer and so force TCP, and which may delay each name as they
  like below the attempt timeout, \<^verbatim>\<open>Chase\<close> returns the same result.
\<close>

theorem Chase_ignores_transport:
  assumes "question_law lib" "edns_law lib" "reply_law lib" "transports cl"
    and "prompt z (ca_attemptTimeout a)" "prompt z' (ca_attemptTimeout a)" "Records z = Records z'"
  shows "fst (Chase (zone_env lib z) lib a cl qname) = fst (Chase (zone_env lib z') lib a cl qname)"
  unfolding Chase_def
  by (rule serves_same_loop [OF zone_serves [OF assms(1-3,5)] _ assms(4,4)])
    (use zone_serves [OF assms(1-3,6)] zone_reply_cong [OF assms(7)] in simp)

text \<open>
  C17. Resolution is correct for every zone: against a zone that answers every name within the attempt timeout and
  drops no UDP query, with or without truncation, and with a hop limit that is not negative, take any chain of different names in which each is
  an alias of the next. If it fits in the hop limit and its last name has no alias, the result is that name's outcome: its
  addresses without duplicates, NXDOMAIN with the zone's SOA when the zone does not have the name, and
  NODATA when it has no address of the type. If it fits and its last name is an alias of a name of the chain, a cycle, the
  result is NODATA without SOA. If it is longer than the limit, the result is the failure \<^verbatim>\<open>cname-maxdepth\<close>, after as
  many queries as the limit. The names asked are those of the chain, in order and once each.
\<close>

theorem Chase_resolves_zone:
  assumes "question_law lib" "edns_law lib" "reply_law lib" "transports cl" "prompt z (ca_attemptTimeout a)" "0 \<le> ca_maxHops a"
    and "names \<noteq> []" "hd names = chase_normalize qname" "distinct names" "zone_chain z (ca_qtype a) names"
  defines "r0 \<equiv> empty_result (ap_addr (ca_addr a))"
  shows "case Chase (zone_env lib z) lib a cl qname of (r, cl', t', asked) \<Rightarrow>
    (int (length names) \<le> ca_maxHops a \<longrightarrow>
       (zone_terminal z (ca_qtype a) (last names) \<longrightarrow> r = zone_outcome z (ca_qtype a) r0 (last names) \<and> asked = names)
       \<and> (\<forall>x\<in>set names. zone_alias z (ca_qtype a) (last names) x \<longrightarrow>
            res_state r = StateNoData \<and> res_soa r = None \<and> res_addrs r = [] \<and> asked = names))
    \<and> (ca_maxHops a < int (length names) \<longrightarrow>
         res_state r = StateFailure \<and> ErrCategory r = ''cname-maxdepth'' \<and> asked = take (nat (ca_maxHops a)) names)"
proof -
  note chain = Chase_follows_chain [OF zone_serves [OF assms(1-3,5)] assms(6-9) zone_chain_links [OF assms(3,10)] assms(4), folded r0_def]
  obtain r cl' t' asked where run: "Chase (zone_env lib z) lib a cl qname = (r, cl', t', asked)" by (metis prod_cases4)
  note ch = chain [unfolded run Let_def prod.case]
  have r0: "res_soa r0 = None" "res_addrs r0 = []" by (simp_all add: r0_def empty_result_def)
  have "r = r0\<lparr>res_state := StateNoData\<rparr> \<and> asked = names"
    if "int (length names) \<le> ca_maxHops a" "x \<in> set names" "zone_alias z (ca_qtype a) (last names) x" for x
    using bspec [OF conjunct2 [OF mp [OF conjunct1 [OF ch] that(1)]] that(2)] alias_link [OF assms(3) that(3)] by simp
  moreover have "r = zone_outcome z (ca_qtype a) r0 (last names) \<and> asked = names"
    if "int (length names) \<le> ca_maxHops a" "zone_terminal z (ca_qtype a) (last names)"
    using ch that(1) terminal_outcome [OF assms(3) that(2)] by blast
  moreover have "r = failed r0 ''cname-maxdepth'' \<and> asked = take (nat (ca_maxHops a)) names" if "ca_maxHops a < int (length names)"
    using ch that by blast
  ultimately show ?thesis unfolding run prod.case using r0 by (simp add: failed_def)
qed

text \<open>Sample zones with a cycle, and sample arguments with a limit of one hop.\<close>

definition sample_loop_zone :: Zone where
  "sample_loop_zone = sample_zone\<lparr>Records := [''a.example.'' \<mapsto> [TypeA \<mapsto> [RR_CNAME \<lparr>hdr_name = ''a.example.'', hdr_rrtype = TypeCNAME,
       hdr_class = ClassINET, hdr_ttl = 60\<rparr> ''B.example'']],
     ''b.example.'' \<mapsto> [TypeA \<mapsto> [RR_CNAME \<lparr>hdr_name = ''b.example.'', hdr_rrtype = TypeCNAME,
       hdr_class = ClassINET, hdr_ttl = 60\<rparr> ''a.example.'']]]\<rparr>"

theorem Chase_resolves_zone_witness:
  "(case Chase (zone_env ref_lib (sample_zone\<lparr>TruncateUDP := True\<rparr>)) ref_lib sample_args (NewClient 1232) ''A.example'' of (r, cl', t', asked) \<Rightarrow>
      asked = [''a.example.'', ''b.example.''] \<and> res_addrs r = [Addr4 0x01020304] \<and> MinTTL r = 60)
   \<and> (case Chase (zone_env ref_lib sample_loop_zone) ref_lib sample_args (NewClient 1232) ''A.example'' of (r, cl', t', asked) \<Rightarrow>
      asked = [''a.example.'', ''b.example.''] \<and> res_state r = StateNoData \<and> res_soa r = None)
   \<and> (case Chase (zone_env ref_lib sample_loop_zone) ref_lib (sample_args\<lparr>ca_maxHops := 1\<rparr>) (NewClient 1232) ''A.example'' of (r, cl', t', asked) \<Rightarrow>
      asked = [''a.example.''] \<and> res_state r = StateFailure \<and> ErrCategory r = ''cname-maxdepth'')"
proof -
  let ?z = "sample_zone\<lparr>TruncateUDP := True\<rparr>" and ?ns = "[''a.example.'', ''b.example.'']"
  let ?short = "sample_args\<lparr>ca_maxHops := 1\<rparr>"
  have p: "prompt ?z (ca_attemptTimeout sample_args)" "prompt sample_loop_zone (ca_attemptTimeout sample_args)"
    "prompt sample_loop_zone (ca_attemptTimeout ?short)"
    by (simp_all add: prompt_def sample_zone_def sample_loop_zone_def sample_args_def delayFor_def)
  have c: "zone_chain ?z (ca_qtype sample_args) ?ns" "zone_chain sample_loop_zone (ca_qtype sample_args) ?ns"
    "zone_chain sample_loop_zone (ca_qtype ?short) ?ns"
    and n: "?ns \<noteq> []" "hd ?ns = chase_normalize ''A.example''" "distinct ?ns"
    and h: "0 \<le> ca_maxHops sample_args" "0 \<le> ca_maxHops ?short" "int (length ?ns) \<le> ca_maxHops sample_args" "ca_maxHops ?short < int (length ?ns)"
    and l: "zone_alias sample_loop_zone (ca_qtype sample_args) (last ?ns) ''a.example.''"
    by code_simp+
  have t: "zone_terminal ?z (ca_qtype sample_args) (last ?ns)"
    by (simp add: zone_terminal_def sample_zone_def sample_a_def to_lower_def lower_char_def sample_args_def)
  have out: "res_addrs (zone_outcome ?z (ca_qtype sample_args) (empty_result (ap_addr (ca_addr sample_args))) (last ?ns)) = [Addr4 0x01020304]"
    "MinTTL (zone_outcome ?z (ca_qtype sample_args) (empty_result (ap_addr (ca_addr sample_args))) (last ?ns)) = 60"
    by code_simp+
  note zone = Chase_resolves_zone [OF ref_lib_laws(3,2,1) NewClient_transports]
  have "take (nat (ca_maxHops ?short)) ?ns = [''a.example.'']" by (simp add: sample_args_def)
  then show ?thesis
    using zone [OF p(1) h(1) n c(1), of 1232] zone [OF p(2) h(1) n c(2), of 1232] zone [OF p(3) h(2) n c(3), of 1232] h(3,4) t l out
    by (auto simp del: prod.case_eq_if split: prod.splits)
qed

text \<open>
  C18. An upstream that does not answer in time is a timeout: when the zone drops UDP queries, or delays
  the name by the attempt timeout or longer, \<^verbatim>\<open>Chase\<close> fails in the category \<^verbatim>\<open>timeout\<close> after the one query.
\<close>

theorem Chase_times_out:
  assumes "question_law lib" "edns_law lib" "transports cl" "0 < ca_maxHops a" "0 < ca_attemptTimeout a"
    and "DropUDP z \<or> ca_attemptTimeout a \<le> delayFor z (chase_normalize qname)"
  shows "\<exists>cl' t'. Chase (zone_env lib z) lib a cl qname =
    (failed (empty_result (ap_addr (ca_addr a))) ''timeout'', cl', t', [chase_normalize qname])"
proof -
  let ?n = "chase_normalize qname"
  let ?q = "chase_query lib ?n (ca_qtype a) (ca_udpSize a)"
  have env: "ctx_err (zone_env lib z) t = None" "ctx_until (zone_env lib z) t = None" for t by (simp_all add: zone_env_def)
  have hb: "hopBudget (zone_env lib z) (Suc 0) (ca_attemptTimeout a) = (ca_attemptTimeout a, Suc (Suc 0))"
    using assms(5) env by (simp add: hopBudget_def)
  have "delayFor z (to_lower ?n) = delayFor z ?n" by (simp add: delayFor_def)
  then have net: "net_exchange (zone_env lib z) t ((cl_udp cl)\<lparr>cl_timeout := ca_attemptTimeout a\<rparr>) (ca_addr a) ?q = Inl NetTimeout" for t
    using zone_exchange [OF chase_query_question [OF assms(1,2)], of lib z] assms(3,6) by (auto simp: transports_def)
  obtain cl' t' where "Exchange (zone_env lib z) (Suc (Suc 0)) cl (ca_addr a) ?q (ca_attemptTimeout a) = (cl', t', Inl ErrTimeout)"
    using net by (simp add: Exchange_def exchangeNet_def env Let_def)
  from chase_loop_hop [OF env(1) _ _ hb this] show ?thesis
    using assms(4,5) by (simp add: Chase_def)
qed

theorem Chase_times_out_witness:
  "\<exists>cl' t'. Chase (zone_env ref_lib (sample_zone\<lparr>DropUDP := True\<rparr>)) ref_lib sample_args (NewClient 1232) ''a'' =
     (failed (empty_result (Addr4 0x08080808)) ''timeout'', cl', t', [''a.''])"
proof -
  have "chase_normalize ''a'' = ''a.''" by code_simp
  then show ?thesis
    using Chase_times_out [OF ref_lib_laws(3,2) NewClient_transports, of sample_args "sample_zone\<lparr>DropUDP := True\<rparr>" "''a''" 1232]
    by (simp add: sample_args_def)
qed

end
