(* ===== verification/Spec2Isabelle.thy ===== *)
theory Spec2Isabelle
  imports Command Counters Observed Reload Served SharedClient TestDns
begin

text \<open>
  \<^bold>\<open>What this development is.\<close> A model of \<^verbatim>\<open>chn-resolver\<close>, a split-horizon DNS resolver written in Go, and
  the theorems that make it correct. The resolver asks several upstream servers at once, some inside
  and some outside a region given by prefix files, and picks among their answers: names on an
  override list get addresses outside the region from servers outside it; other names get addresses
  inside it from servers inside it, where there are any.

  \<^bold>\<open>The program and its theories.\<close> File names are relative to \<^verbatim>\<open>src/\<close>.

  \<^item> Theory Prelude: word abbreviations, proof collections, list lemmas, the contract
    \<^verbatim>\<open>stable_dedup\<close> of the two functions that drop duplicates.
  \<^item> Theories GoStrings and GoNet: what the sources use of Go's \<^verbatim>\<open>strings\<close>, \<^verbatim>\<open>bufio.Scanner\<close>, \<^verbatim>\<open>strconv\<close>,
    \<^verbatim>\<open>sort.Search\<close> and \<^verbatim>\<open>net/netip\<close>, with the contract \<^verbatim>\<open>name_normalizer\<close> of the three name normalizers.
    Theories GoFmt and GoQuote: the text Go prints for numbers, addresses, address-port pairs, quoted strings and
    durations; the parsers read addresses, pairs and ASCII literals back.
  \<^item> Theory China (\<^verbatim>\<open>internal/china/index.go\<close>): \<^verbatim>\<open>Build\<close> with its merge of spans, \<^verbatim>\<open>Contains\<close> by binary search,
    the byte loops of \<^verbatim>\<open>lastAddr\<close> and \<^verbatim>\<open>nextAddr\<close>. Theories AssetLines and ChinaLoader
    (\<^verbatim>\<open>internal/china/loader.go\<close>): line syntax, scanning, errors, \<^verbatim>\<open>Load\<close> and \<^verbatim>\<open>LoadFrom\<close>; \<^verbatim>\<open>entry_line\<close> says without the
    parser what text writes a prefix.
  \<^item> Theory Overrides (\<^verbatim>\<open>internal/overrides/overrides.go\<close>): exact and wildcard entries, file syntax, \<^verbatim>\<open>Match\<close>.
  \<^item> Theory Dns: the data of the DNS library, which is not part of the repository. Its functions are the
    fields of a record \<^verbatim>\<open>dns_lib\<close> passed to the definitions; \<^verbatim>\<open>reply_law\<close>, \<^verbatim>\<open>edns_law\<close>, \<^verbatim>\<open>question_law\<close> (and
    \<^verbatim>\<open>truncate_law\<close> in Server) state what its documentation promises, and \<^verbatim>\<open>ref_lib\<close> satisfies them.
  \<^item> Theory Policy (\<^verbatim>\<open>internal/policy/policy.go\<close>): \<^verbatim>\<open>Select\<close>, \<^verbatim>\<open>FinalizeNegative\<close>, \<^verbatim>\<open>SelectTTL\<close>.
  \<^item> Theory Upstream (\<^verbatim>\<open>internal/upstream/client.go\<close>, \<^verbatim>\<open>chase.go\<close>): one exchange with its retry over TCP, and
    the walk along a CNAME chain. Theory SharedClient: the client that concurrent queries to one upstream share.
  \<^item> Theory Engine (\<^verbatim>\<open>internal/engine/engine.go\<close>): the fan-out \<^verbatim>\<open>Resolve\<close>, early answers, \<^verbatim>\<open>finalize\<close>,
    \<^verbatim>\<open>UpdateAssets\<close>.
  \<^item> Theories Cache and Flight (\<^verbatim>\<open>internal/cache/cache.go\<close>, \<^verbatim>\<open>flight.go\<close>): the LRU cache with expiry, and
    the coalescing of concurrent lookups of one key.
  \<^item> Theory TestDns (\<^verbatim>\<open>internal/testdns/fake.go\<close>): the programmable upstream of the repository's tests, as an
    environment in which \<^verbatim>\<open>Chase\<close> runs.
  \<^item> Theory Resolve (\<^verbatim>\<open>internal/resolve/service.go\<close>): \<^verbatim>\<open>Lookup\<close> and the decision what is cached. Theory Served
    adds no code: it follows the values through the cache and the flights from the engine runs that computed
    them to the lookups that are answered with them and to the entries that are stored.
  \<^item> Theories Metrics and Exposition (\<^verbatim>\<open>internal/metrics/metrics.go\<close>): the counters, the operations that change
    them, and \<^verbatim>\<open>Write\<close> with a scraper for its text. Theory Counters: the creation of a counter and its increment, as
    goroutines interleave them around the mutex, with the failure that a lookup without it can cause.
  \<^item> Theory Config (\<^verbatim>\<open>internal/config/config.go\<close>): defaults, validation, \<^verbatim>\<open>time.ParseDuration\<close>.
  \<^item> Theory Server (\<^verbatim>\<open>internal/server/handler.go\<close>, \<^verbatim>\<open>forward.go\<close>, \<^verbatim>\<open>server.go\<close>): dispatch, synthesis, relaying,
    datagrams, TCP connections, the two intake loops step by step and the drain. Theory Listen (\<^verbatim>\<open>server.go\<close>): \<^verbatim>\<open>ListenAndServe\<close>
    from binding to return.
  \<^item> Theories MainProg, Command and Reload (\<^verbatim>\<open>cmd/chn-resolver/main.go\<close>): configuration discovery, assets,
    classification of upstreams, wiring, the metrics callback; \<^verbatim>\<open>main\<close> with its flags, the summary of
    \<^verbatim>\<open>-check\<close>, the panic of the janitor, the exit status, the page and the life of the metrics server; \<^verbatim>\<open>handleReloads\<close> step by step
    beside the lookups and engine runs. Theory Observed adds no code: it follows the outcomes of the fan-outs through the callback
    into the counters.
  \<^item> This theory: the guarantee from the files to the answer of a resolution and of a lookup, also across a
    reload, and from the resolutions to what a scrape tells of them.

  \<^bold>\<open>How state and effects are modelled.\<close> Structs are records, error returns are sums, machine integers are
  words where their width matters, times and durations are integers of nanoseconds, with the 64-bit
  wrap-around (\<^verbatim>\<open>int64\<close>) written out where the code adds or multiplies durations. What a goroutine observes of the outside (network replies, the context, the
  clock) is an environment: a function of the number of observations made so far. A statement for all
  environments holds for every network and every timing. Concurrency is interleaving: the fan-out
  (\<^verbatim>\<open>fan_do\<close>), the flights (\<^verbatim>\<open>do_step\<close>), the service (\<^verbatim>\<open>svc_step\<close>), the intake (\<^verbatim>\<open>intake_step\<close>), the
  server around it (\<^verbatim>\<open>life_step\<close>), the program with its reloads (\<^verbatim>\<open>live_step\<close>), the counters (\<^verbatim>\<open>counter_step\<close>), the shared client (\<^verbatim>\<open>shared_step\<close>) and the metrics
  server (\<^verbatim>\<open>serveMetrics\<close>) are step functions whose transitions are the critical sections, channel operations and external events of
  the code, with an inductive reachability predicate or a run function each. The cache keeps an explicit heap of list
  elements, because its map and its list share them.

  \<^bold>\<open>No fuel and no bounds.\<close> Every loop of the model terminates by a measure: the chase by the hop limit and
  the pending names, the connection loop by the bytes left to read, the scanner by its input.

  \<^bold>\<open>Contracts.\<close> \<^verbatim>\<open>stable_dedup\<close> is interpreted for \<^verbatim>\<open>policy.dedup\<close> and \<^verbatim>\<open>upstream.dedupAddrs\<close>;
  \<^verbatim>\<open>name_normalizer\<close> for the normalizers of overrides, upstream and resolve; \<^verbatim>\<open>attempts\<close>, what the engine needs
  of one attempt, for \<^verbatim>\<open>Chase\<close>; \<^verbatim>\<open>value_store\<close>, what the service needs of its cache, for the LRU cache.

  \<^bold>\<open>What is proved.\<close> The result of a program started from its files honours the rule it names, and so does
  every answer a lookup hands out, led, shared or cached (this theory; prefix files must not list IPv6 prefixes that end in
  an IPv4-mapped address, which the index mishandles, and answers for the root are left out); such an answer was computed for the
  lookup's own question, and no lookup is ever stranded (Served). After a reload and its flush answers are computed with the
  new assets, except for the questions that were under way (this theory, on Reload). The index holds exactly the addresses of
  the listed prefixes, as sorted spans between any two of which an address is missing; files load all or nothing with the first bad line reported. Selection
  applies its rules, keeps their promises, does not depend on the order of answers, and an early answer is
  what waiting would have led to. The fan-out terminates in every interleaving without a blocked goroutine,
  keeps partial success and reports one outcome per upstream. The chase follows chains, stops at cycles and
  limits, finds in any prompt zone of the fake upstream what the zone holds, over either transport, and times out on
  one that is silent. The cache refines a recency list, its operations keep it within capacity; flights run a
  function once per key and share its value; what the cache holds comes from runs that had heard all upstreams, within the TTL bounds (Served).
  Replies carry the addresses, the denial or the failure of their lookup, fit the client's datagram size, and
  TCP framing is undone by reading; relaying returns the first success. Binding is all or nothing, the slots are never exceeded wherever the loops are, and
  shutdown ends in a bounded number of steps. What a scraper reads are the counters; as long as no unguarded lookup overlaps an
  insertion, no interleaving loses an increment, and per upstream they count the
  fan-outs with a report of each state. Validation accepts
  exactly the documented inputs, \<^verbatim>\<open>-check\<close> tells what a start would use and whether it would come to serving, and files that cannot be loaded at
  a reload change nothing.

  \<^bold>\<open>Parameters.\<close> The DNS library (above); the TOML decoder; the fraction of a duration literal, which Go
  computes in floating point (\<^verbatim>\<open>frac\<close>); the file system; the clock; the network; the listen functions of package
  \<^verbatim>\<open>net\<close>; the order in which Go visits a map, the rounded uptime and the quoting of bytes outside ASCII; the identifiers
  of messages: those of relayed queries are an argument (\<^verbatim>\<open>ids\<close>), those that \<^verbatim>\<open>SetQuestion\<close> draws at random are the library's
  choice, fixed by the question in the model and read by nothing in it.

  \<^bold>\<open>Not modelled.\<close> Log output, the flag parser, the delivery of signals, the HTTP protocol of the metrics
  server, and the serve loops of the DNS library that the fake upstream runs: they are input and output
  only, or code outside the repository. Non-ASCII case folding is outside the model. The clients' timeout
  field, which concurrent queries race on, is threaded per attempt in theory Upstream; SharedClient shows what the race can do.
\<close>

section \<open>The split-horizon guarantee\<close>

text \<open>Whether an address lies in a prefix that a line of the configured prefix files writes.\<close>

definition listed :: "(gostring \<Rightarrow> reader option) \<Rightarrow> Config \<Rightarrow> addr \<Rightarrow> bool" where
  "listed fs cfg a \<longleftrightarrow>
     (\<exists>path\<in>set (PrefixFiles cfg). \<exists>l\<in>set (file_lines fs path). \<exists>p. entry_line l p \<and> in_prefix p (unmap a))"

text \<open>Prefix files without IPv6 prefixes that end in an IPv4-mapped address, which the index mishandles.\<close>

definition plain_prefixes :: "(gostring \<Rightarrow> reader option) \<Rightarrow> Config \<Rightarrow> bool" where
  "plain_prefixes fs cfg \<longleftrightarrow>
     (\<forall>path\<in>set (PrefixFiles cfg). \<forall>l\<in>set (file_lines fs path). \<forall>p. entry_line l p \<longrightarrow> \<not> mapped_top p)"

lemma assets_listed:
  assumes "loadAssets fs cfg = Inr assets" "plain_prefixes fs cfg" "addr_zone a = []"
  shows "Contains (as_china assets) a \<longleftrightarrow> listed fs cfg a"
proof -
  let ?ps = "concat (map (file_prefixes fs) (PrefixFiles cfg))"
  have "China_Load fs (PrefixFiles cfg) = Inr (as_china assets)"
    using assms(1) by (auto simp: loadAssets_def split: sum.splits if_splits)
  then have ix: "as_china assets = Build ?ps" and ok: "\<And>path. path \<in> set (PrefixFiles cfg) \<Longrightarrow> file_ok fs path"
    by (auto simp: China_Load_Inr list_all_iff)
  have ps: "p \<in> set ?ps \<longleftrightarrow> (\<exists>path\<in>set (PrefixFiles cfg). \<exists>l\<in>set (file_lines fs path). entry_line l p)" for p
    using file_prefixes_entries [OF ok] by auto
  have "\<forall>p\<in>set ?ps. searchable p"
  proof
    fix p assume p: "p \<in> set ?ps"
    then have "valid_prefix p" using file_prefixes_valid by auto
    moreover have "\<not> mapped_top p" using p assms(2) unfolding ps plain_prefixes_def by blast
    ultimately show "searchable p" by (simp add: searchable_def)
  qed
  then show ?thesis using Contains_Build [OF _ assms(3), of ?ps] ps unfolding ix listed_def by blast
qed

lemma sample_plain: "plain_prefixes sample_disk sample_cfg"
proof -
  have "p = \<lparr>p_addr = Addr4 0x01000100, p_bits = 24\<rparr>" if "l \<in> set (file_lines sample_disk ''cn.txt'')" "entry_line l p" for l p
    using file_prefixes_entries [OF sample_disk_file(2), of p] that by (auto simp: sample_disk_file(1))
  then show ?thesis by (fastforce simp: plain_prefixes_def sample_cfg_files mapped_top_def)
qed

text \<open>Where an address of a result comes from, under the rule the result names.\<close>

lemma fan_answer_class: "ServerChina (fan_answer f i) = InChina (en_upstreams (fan_engine f) ! i)"
  by (simp add: fan_answer_def ask_upstream_def Let_def)

lemma result_promise:
  assumes "fan_reach f s" "returned s = Some r" "a \<in> set (eng_addrs r)"
  shows "eng_policy r \<in> {PolicyPreferChina, PolicyOverride, PolicyFallbackChina, PolicyAllNonChina}
    \<and> (eng_policy r = PolicyPreferChina \<longrightarrow> Contains (as_china (fan_assets f)) a
      \<and> (\<exists>i<fan_n f. InChina (en_upstreams (fan_engine f) ! i) \<and> a \<in> set (res_addrs (fan_answer f i))))
    \<and> (eng_policy r = PolicyOverride \<longrightarrow> \<not> Contains (as_china (fan_assets f)) a \<and> Match (as_overrides (fan_assets f)) (fan_qname f)
      \<and> (\<exists>i<fan_n f. \<not> InChina (en_upstreams (fan_engine f) ! i) \<and> a \<in> set (res_addrs (fan_answer f i))))
    \<and> (eng_policy r = PolicyFallbackChina \<longrightarrow> Contains (as_china (fan_assets f)) a)
    \<and> (eng_policy r = PolicyAllNonChina \<longrightarrow> \<not> Contains (as_china (fan_assets f)) a)"
proof -
  obtain order where o: "set order \<subseteq> {0..<fan_n f}" "results s = map (fan_answer f) order"
    using received_order [OF assms(1)] by metis
  have r: "r = finalize (fan_assets f) (fan_qname f) (results s) (reports s) (length (results s) = fan_n f)"
    using fan_inv_reach [OF assms(1)] assms(2) by (simp add: fan_inv_def)
  then have "has_answer (results s)" using assms(3) finalize_negative by fastforce
  then have sel: "eng_policy r = sel_policy (Select (fan_qname f) (results s) (Contains (as_china (fan_assets f))) (Match (as_overrides (fan_assets f))))"
    "eng_addrs r = sel_addrs (Select (fan_qname f) (results s) (Contains (as_china (fan_assets f))) (Match (as_overrides (fan_assets f))))"
    by (simp_all add: r finalize_answer Let_def)
  have origin: "\<exists>i<fan_n f. c (fan_answer f i) \<and> a \<in> set (res_addrs (fan_answer f i))"
    if h: "a \<in> set (answers c (results s))" for c
  proof -
    obtain i where "i \<in> set order" "c (fan_answer f i)" "a \<in> set (res_addrs (fan_answer f i))"
      using h o(2) by (auto simp: set_answers)
    then show ?thesis using o(1) by (metis atLeastLessThan_iff subsetD)
  qed
  note pr = Select_promise [of "fan_qname f" "results s" "Contains (as_china (fan_assets f))" "Match (as_overrides (fan_assets f))", folded sel]
  have "a \<in> set (answers (\<lambda>_. True) (results s))" using assms(3) Select_from_answers unfolding sel(2) by blast
  then show ?thesis
    using pr assms(3) Select_policies [of "fan_qname f" "results s" "Contains (as_china (fan_assets f))" "Match (as_overrides (fan_assets f))"]
      origin [of ServerChina] origin [of "Not \<circ> ServerChina"] by (simp add: fan_answer_class sel(1))
qed

lemma result_zone:
  assumes "fan_reach f s" "returned s = Some r" "a \<in> set (eng_addrs r)"
  shows "addr_zone a = []"
proof -
  obtain order where o: "results s = map (fan_answer f) order" using received_order [OF assms(1)] by metis
  have "r = finalize (fan_assets f) (fan_qname f) (results s) (reports s) (length (results s) = fan_n f)"
    using fan_inv_reach [OF assms(1)] assms(2) by (simp add: fan_inv_def)
  then show ?thesis using fan_up.answer_zone assms(3) unfolding o by blast
qed

text \<open>A sample resolution by the sample program of theory MainProg.\<close>

definition sample_program_upstreams :: "Upstream list" where
  "sample_program_upstreams =
     [\<lparr>up_addr = \<lparr>ap_addr = Addr4 0x72727272, ap_port = 53\<rparr>, InChina = True, up_client = NewClient 1232\<rparr>,
      \<lparr>up_addr = \<lparr>ap_addr = Addr4 0x08080808, ap_port = 5353\<rparr>, InChina = False, up_client = NewClient 1232\<rparr>]"

lemma sample_cfg_values:
  "AttemptTimeout sample_cfg = 1500000000" "MaxCNAMEHops sample_cfg = 10" "UDPPayloadSize sample_cfg = 1232"
  "classifyUpstreams sample_cfg sample_assets = sample_program_upstreams"
  by code_simp+

definition sample_resolution :: fan where
  "sample_resolution = fan_start ref_lib
     ((Engine_New sample_assets sample_program_upstreams 1500000000 10 1232)\<lparr>en_onresult := True\<rparr>)
     ''a.'' TypeA (\<lambda>i. sample_env_for (if i = 0 then [1, 0, 1, 7] else [9, 9, 9, 9]))"

lemma sample_resolution_run:
  "case fan_run sample_resolution [Finish 1 5, Receive, Finish 0 9, Receive] (fan_init sample_resolution) of
     None \<Rightarrow> False
   | Some s \<Rightarrow> (case returned s of None \<Rightarrow> False
      | Some r \<Rightarrow> eng_addrs r = [Addr4 0x01000107] \<and> eng_policy r = PolicyPreferChina \<and> Complete r)"
  by code_simp

text \<open>
  C2. The split-horizon guarantee, from the files to the answer: for a program started with its
  configuration and asset files, whatever the upstreams do and in whatever order they answer, every
  result with addresses names one of four rules and every address of it honours that rule. Preferred answers lie in a listed prefix
  and come from a resolver classed as inside; answers of the override rule are for a name on the
  override list, lie in no listed prefix and come from a resolver classed as outside; fallback
  answers lie in a listed prefix; answers of the remaining rule lie in none. A listed prefix is one written on a line of a
  configured prefix file. The files must not list an IPv6 prefix whose last address is IPv4-mapped, which the index mishandles
  (lemma \<^verbatim>\<open>mapped_prefix_breaks_search\<close> of theory China).
\<close>

theorem split_horizon:
  assumes "start_program decode frac files stat_ok fs now path = Inr (cfg, p)" "plain_prefixes fs cfg"
    and "fan_engine f = rp_engine p" "fan_assets f = en_assets (rp_engine p)"
    and "fan_reach f s" "returned s = Some r" "a \<in> set (eng_addrs r)"
  shows "eng_policy r \<in> {PolicyPreferChina, PolicyOverride, PolicyFallbackChina, PolicyAllNonChina}
    \<and> (eng_policy r = PolicyPreferChina \<longrightarrow> listed fs cfg a
      \<and> (\<exists>i<length (rp_upstreams p). InChina (rp_upstreams p ! i) \<and> a \<in> set (res_addrs (fan_answer f i))))
    \<and> (eng_policy r = PolicyOverride \<longrightarrow> \<not> listed fs cfg a \<and> Match (as_overrides (en_assets (rp_engine p))) (fan_qname f)
      \<and> (\<exists>i<length (rp_upstreams p). \<not> InChina (rp_upstreams p ! i) \<and> a \<in> set (res_addrs (fan_answer f i))))
    \<and> (eng_policy r = PolicyFallbackChina \<longrightarrow> listed fs cfg a)
    \<and> (eng_policy r = PolicyAllNonChina \<longrightarrow> \<not> listed fs cfg a)"
proof -
  obtain assets where a: "loadAssets fs cfg = Inr assets" "rp_engine p = (Engine_New assets (classifyUpstreams cfg assets)
      (AttemptTimeout cfg) (MaxCNAMEHops cfg) (word_of_int (UDPPayloadSize cfg)))\<lparr>en_onresult := True\<rparr>"
    "rp_upstreams p = classifyUpstreams cfg assets"
    using start_program_parts(2) [OF assms(1)] by blast
  have "en_upstreams (fan_engine f) = rp_upstreams p" "fan_assets f = assets"
    using assms(3,4) a by (simp_all add: Engine_New_def)
  then show ?thesis
    using result_promise [OF assms(5-7)] assets_listed [OF a(1) assms(2) result_zone [OF assms(5-7)]] assms(4) by simp
qed

theorem split_horizon_witness:
  "\<exists>p s r. sample_start = Inr (sample_cfg, p) \<and> fan_reach sample_resolution s \<and> returned s = Some r
     \<and> eng_addrs r = [Addr4 0x01000107] \<and> listed sample_disk sample_cfg (Addr4 0x01000107)"
proof -
  obtain s r where s: "fan_run sample_resolution [Finish 1 5, Receive, Finish 0 9, Receive] (fan_init sample_resolution) = Some s"
    "returned s = Some r" "eng_addrs r = [Addr4 0x01000107]" "eng_policy r = PolicyPreferChina"
    using sample_resolution_run by (auto split: option.splits)
  have reach: "fan_reach sample_resolution s" by (rule fan_run_reach [OF fan_reach.init s(1)])
  obtain p where p: "sample_start = Inr (sample_cfg, p)" using sample_start_ok by blast
  note plain = sample_plain
  have eng: "fan_engine sample_resolution = rp_engine p" "fan_assets sample_resolution = en_assets (rp_engine p)"
    using start_program_parts(2) [OF p] sample_loadAssets by (auto simp: sample_resolution_def fan_start_def sample_cfg_values)
  have "listed sample_disk sample_cfg (Addr4 0x01000107)"
    using split_horizon [OF p plain eng reach s(2), of "Addr4 0x01000107"] s(3,4) by simp
  then show ?thesis using p reach s by blast
qed

section \<open>The guarantee on the wire\<close>

text \<open>The engine runs of a started program, between two reloads.\<close>

definition fans_of :: "running_program \<Rightarrow> fan set" where
  "fans_of p = {f. fan_engine f = rp_engine p \<and> fan_assets f = en_assets (rp_engine p)}"

text \<open>What each rule promises about an address; \<open>ov\<close> says whether the name is on the override list.\<close>

definition honours :: "(addr \<Rightarrow> bool) \<Rightarrow> bool \<Rightarrow> gostring \<Rightarrow> addr \<Rightarrow> bool" where
  "honours inside ov rule a \<longleftrightarrow>
     (rule = PolicyPreferChina \<and> inside a) \<or> (rule = PolicyOverride \<and> ov \<and> \<not> inside a)
     \<or> (rule = PolicyFallbackChina \<and> inside a) \<or> (rule = PolicyAllNonChina \<and> \<not> inside a)"

lemma assets_honours:
  assumes "loadAssets fs cfg = Inr (fan_assets f)" "plain_prefixes fs cfg" "fan_reach f s" "returned s = Some res" "a \<in> set (eng_addrs res)"
  shows "honours (listed fs cfg) (Match (as_overrides (fan_assets f)) (fan_qname f)) (eng_policy res) a"
  using result_promise [OF assms(3-5)] assets_listed [OF assms(1,2) result_zone [OF assms(3-5)]] by (auto simp: honours_def)

lemma run_honours:
  assumes "start_program decode frac files stat_ok fs now path = Inr (cfg, p)" "plain_prefixes fs cfg"
    and "engine_runs (fans_of p) q t res" "a \<in> set (eng_addrs res)"
  shows "honours (listed fs cfg) (Match (as_overrides (en_assets (rp_engine p))) q) (eng_policy res) a"
proof -
  obtain f s where f: "fan_engine f = rp_engine p" "fan_assets f = en_assets (rp_engine p)" "fan_qname f = q"
    "fan_reach f s" "returned s = Some res"
    using assms(3) by (auto simp: engine_runs_def fans_of_def)
  have "loadAssets fs cfg = Inr (fan_assets f)"
    using start_program_parts(2) [OF assms(1)] f(2) by (auto simp: Engine_New_def)
  from assets_honours [OF this assms(2) f(4,5) assms(4)] show ?thesis using f(2,3) by simp
qed

text \<open>Names with the cache key of a name other than the root are on the override list with it.\<close>

lemma same_key_Match:
  assumes "lookup_key q' t' = lookup_key q t" "normalizeName q \<noteq> ''.''"
  shows "Match ov q' = Match ov q"
proof -
  have "normalizeName q' = normalizeName q" using assms(1) by (simp add: lookup_key_def)
  then have "overrides_normalize q' = overrides_normalize q" using assms(2) by (auto simp: normalizeName_alt split: if_splits)
  then show ?thesis by (rule Match_normal)
qed

lemma same_answer_fields: "same_answer v (fromEngine res) \<Longrightarrow> v_addrs v = eng_addrs res \<and> v_policy v = eng_policy res"
  unfolding same_answer_def by (drule arg_cong [of _ _ "\<lambda>w. (v_addrs w, v_policy w)"]) (simp add: fromEngine_def)

text \<open>A sample run of the sample program: one lookup, resolved by the sample resolution.\<close>

definition sample_program_result :: Result where
  "sample_program_result =
     (case fan_run sample_resolution [Finish 1 5, Receive, Finish 0 9, Receive] (fan_init sample_resolution) of
        Some s \<Rightarrow> (case returned s of Some r \<Rightarrow> r | None \<Rightarrow> finalize sample_assets [] [] [] True)
      | None \<Rightarrow> finalize sample_assets [] [] [] True)"

lemma sample_program_run:
  assumes "sample_start = Inr (sample_cfg, p)"
  shows "engine_runs (fans_of p) ''a.'' TypeA sample_program_result"
proof -
  obtain s r where s: "fan_run sample_resolution [Finish 1 5, Receive, Finish 0 9, Receive] (fan_init sample_resolution) = Some s"
    "returned s = Some r" using sample_resolution_run by (auto split: option.splits)
  have "fan_engine sample_resolution = rp_engine p" "fan_assets sample_resolution = en_assets (rp_engine p)"
    "fan_qname sample_resolution = ''a.''" "fan_qtype sample_resolution = TypeA"
    using start_program_parts(2) [OF assms] sample_loadAssets by (auto simp: sample_resolution_def fan_start_def sample_cfg_values)
  then show ?thesis
    using s fan_run_reach [OF fan_reach.init s(1)] by (auto simp: engine_runs_def fans_of_def sample_program_result_def)
qed

lemma sample_program_served:
  assumes "sample_start = Inr (sample_cfg, p)"
  obtains st st' v where "served_reach (rp_service p) (rp_cache p) (engine_runs (fans_of p)) st"
    "svc_step (rp_service p) (CloseOp 0) st = Some st'" "asks (ss_call st 0) = Some (''a.'', TypeA)"
    "ss_call st' 0 = Answered (Inr v)" "v_addrs v = [Addr4 0x01000107]" "v_policy v = PolicyPreferChina"
proof -
  let ?s = "service_of sample_cfg" and ?c = "Cache_New (MaxEntries sample_cfg) int"
  have "case svc_run ?s [LookupOp 0 ''a.'' TypeA, EnterOp 0] (service_init ?c) of None \<Rightarrow> False
    | Some st \<Rightarrow> asks (ss_call st 0) = Some (''a.'', TypeA) \<and>
       (case svc_step ?s (EngineOp 0 sample_program_result) st of None \<Rightarrow> False
        | Some st1 \<Rightarrow> asks (ss_call st1 0) = Some (''a.'', TypeA) \<and>
           (case svc_step ?s (CloseOp 0) st1 of None \<Rightarrow> False
            | Some st2 \<Rightarrow> (case ss_call st2 0 of
                Answered (Inr v) \<Rightarrow> v_addrs v = [Addr4 0x01000107] \<and> v_policy v = PolicyPreferChina | _ \<Rightarrow> False)))"
    by code_simp
  then obtain st st1 st2 v where st: "svc_run ?s [LookupOp 0 ''a.'' TypeA, EnterOp 0] (service_init ?c) = Some st"
    "asks (ss_call st 0) = Some (''a.'', TypeA)" "svc_step ?s (EngineOp 0 sample_program_result) st = Some st1"
    "asks (ss_call st1 0) = Some (''a.'', TypeA)" "svc_step ?s (CloseOp 0) st1 = Some st2"
    "ss_call st2 0 = Answered (Inr v)" "v_addrs v = [Addr4 0x01000107]" "v_policy v = PolicyPreferChina"
    by (auto simp del: svc_step.simps svc_run.simps split: option.splits call.splits sum.splits)
  note runs = sample_program_run [OF assms]
  let ?R = "served_reach ?s ?c (engine_runs (fans_of p))"
  have "?R st" by (rule served_quiet_run [OF served_reach.init _ st(1)]) simp
  then have "?R st1" by (rule served_reach.step [OF _ _ st(3)]) (use st(2) runs in \<open>simp add: tied_def\<close>)
  then show thesis using that st(4-8) start_program_parts(3,4) [OF assms] by simp
qed

text \<open>
  C1. The guarantee on the wire: for a program started with its files, whatever the upstreams do, and
  however lookups, flights, cache hits, flushes and sweeps interleave, the reply to an address question
  carries exactly the addresses of the value the lookup was served, and each of them honours the rule
  under which it was chosen, for the name asked. The root, whose cache key other names share, is excluded, and the prefix
  files must not list an IPv6 prefix whose last address is IPv4-mapped, which the index mishandles.
\<close>

theorem reply_honours_split:
  assumes "start_program decode frac files stat_ok fs now path = Inr (cfg, p)" "plain_prefixes fs cfg" "mono now"
    and "served_reach (rp_service p) (rp_cache p) (engine_runs (fans_of p)) st" "tied (engine_runs (fans_of p)) x st"
    and "svc_step (rp_service p) x st = Some st'" "ss_call st' i = Answered (Inr v)" "ss_call st i \<noteq> Answered (Inr v)"
    and "x = LookupOp i (q_name q) (q_type q) \<or> asks (ss_call st i) = Some (q_name q, q_type q)"
    and "normalizeName (q_name q) \<noteq> ''.''"
    and "reply_law lib" "edns_law lib" "address_question lib req q" "lookup (q_name q) (q_type q) = Inr v"
    and "handleRequest lib env ids lookup cfg ups m req = (resp, m')"
  shows "m_answer resp = map (answer_rr q (v_ttl v)) (v_addrs v)
    \<and> (\<forall>a\<in>set (v_addrs v). honours (listed fs cfg) (Match (as_overrides (en_assets (rp_engine p))) (q_name q)) (v_policy v) a)"
proof -
  have "valid_config cfg" using loadConfig_valid start_program_parts(1) [OF assms(1)] by blast
  then have n: "0 \<le> MaxEntries cfg" by (simp add: valid_config_def valid_rest_def)
  have "served_reach (rp_service p) (Cache_New (MaxEntries cfg) now) (engine_runs (fans_of p)) st"
    using assms(4) start_program_parts(4) [OF assms(1)] by simp
  from answered_from_run [OF served_inv_reach [OF this n assms(3)] assms(5-9)]
  obtain q' t res where run: "lookup_key q' t = lookup_key (q_name q) (q_type q)" "engine_runs (fans_of p) q' t res"
    "same_answer v (fromEngine res)" by (auto simp: from_run_def)
  note fields = same_answer_fields [OF run(3)]
  have "Match ov q' = Match ov (q_name q)" for ov by (rule same_key_Match [OF run(1) assms(10)])
  moreover have "resp = fst (synthesize lib (m\<lparr>Resolved := Resolved m + 1\<rparr>) req q v)"
    using handleRequest_lookup [OF assms(13,15)] assms(14) by simp
  ultimately show ?thesis
    using run_honours [OF assms(1,2) run(2)] fields
      synthesize_reply [OF assms(11,12), of "m\<lparr>Resolved := Resolved m + 1\<rparr>" req q v]
    by (auto simp: Let_def)
qed

theorem reply_honours_split_witness:
  "\<exists>p v. sample_start = Inr (sample_cfg, p) \<and> v_policy v = PolicyPreferChina
     \<and> m_answer (fst (handleRequest ref_lib sample_env (\<lambda>_. 0) (\<lambda>_ _. Inr v) sample_cfg [] (Metrics_New []) sample_request))
         = [answer_rr sample_question (v_ttl v) (Addr4 0x01000107)]
     \<and> listed sample_disk sample_cfg (Addr4 0x01000107)"
proof -
  obtain p where p: "sample_start = Inr (sample_cfg, p)" using sample_start_ok by blast
  note plain = sample_plain
  obtain st st' v where st: "served_reach (rp_service p) (rp_cache p) (engine_runs (fans_of p)) st"
    "svc_step (rp_service p) (CloseOp 0) st = Some st'" "asks (ss_call st 0) = Some (''a.'', TypeA)"
    "ss_call st' 0 = Answered (Inr v)" "v_addrs v = [Addr4 0x01000107]" "v_policy v = PolicyPreferChina"
    by (rule sample_program_served [OF p])
  have q: "q_name sample_question = ''a.''" "q_type sample_question = TypeA" by (simp_all add: sample_question_def)
  have aq: "address_question ref_lib sample_request sample_question"
    by (simp add: address_question_def sample_request_def sample_question_def new_msg_def ref_lib_def OpcodeQuery_def)
  obtain resp m' where h: "handleRequest ref_lib sample_env (\<lambda>_. 0) (\<lambda>_ _. Inr v) sample_cfg [] (Metrics_New []) sample_request = (resp, m')"
    by fastforce
  have root: "normalizeName ''a.'' \<noteq> ''.''" by code_simp
  have "mono int" "ss_call st 0 \<noteq> Answered (Inr v)" using st(3) by (auto simp: mono_def)
  from reply_honours_split [OF p plain this(1) st(1) not_engine_tied st(2,4) this(2) _ _ ref_lib_laws(1,2) aq _ h]
  have "m_answer resp = map (answer_rr sample_question (v_ttl v)) [Addr4 0x01000107]" "listed sample_disk sample_cfg (Addr4 0x01000107)"
    using st(3,5,6) q policy_names root by (auto simp: honours_def)
  then show ?thesis using p h st(6) by (intro exI [of _ p] exI [of _ v]) simp
qed

section \<open>Reloads\<close>

lemma fans_with_current: "fans_with (rp_engine p) (en_assets (rp_engine p)) = fans_of p"
  by (simp add: fans_with_def fans_of_def)

lemma runs_honour:
  assumes "loadAssets fs cfg = Inr b" "plain_prefixes fs cfg" "engine_runs (fans_with e b) q' t' res" "lookup_key q' t' = lookup_key q t"
    and "same_answer v (fromEngine res)" "normalizeName q \<noteq> ''.''" "x \<in> set (v_addrs v)"
  shows "honours (listed fs cfg) (Match (as_overrides b) q) (v_policy v) x"
proof -
  obtain f s where f: "fan_assets f = b" "fan_qname f = q'" "fan_reach f s" "returned s = Some res"
    using assms(3) by (auto simp: engine_runs_def fans_with_def)
  then show ?thesis
    using assets_honours [OF _ assms(2) f(3,4)] assms(1,7) same_answer_fields [OF assms(5)] same_key_Match [OF assms(4,6)] by simp
qed

text \<open>A sample reload: the assets are loaded and swapped, the cache is flushed, then a lookup is resolved.\<close>

lemma sample_reloaded:
  obtains st0 st st1 st2 v where "svc_step (service_of sample_cfg) FlushOp (service_init (Cache_New (MaxEntries sample_cfg) int)) = Some st0"
    "svc_run (service_of sample_cfg) [LookupOp 0 ''a.'' TypeA, EnterOp 0] st0 = Some st" "runs_engine st 0"
    "asks (ss_call st 0) = Some (''a.'', TypeA)" "svc_step (service_of sample_cfg) (EngineOp 0 sample_program_result) st = Some st1"
    "asks (ss_call st1 0) = Some (''a.'', TypeA)" "svc_step (service_of sample_cfg) (CloseOp 0) st1 = Some st2"
    "ss_call st2 0 = Answered (Inr v)" "v_addrs v = [Addr4 0x01000107]" "v_policy v = PolicyPreferChina"
proof -
  let ?s = "service_of sample_cfg" and ?c = "Cache_New (MaxEntries sample_cfg) int"
  have "case svc_step ?s FlushOp (service_init ?c) of None \<Rightarrow> False
    | Some st0 \<Rightarrow> (case svc_run ?s [LookupOp 0 ''a.'' TypeA, EnterOp 0] st0 of None \<Rightarrow> False
       | Some st \<Rightarrow> runs_engine st 0 \<and> asks (ss_call st 0) = Some (''a.'', TypeA) \<and>
       (case svc_step ?s (EngineOp 0 sample_program_result) st of None \<Rightarrow> False
        | Some st1 \<Rightarrow> asks (ss_call st1 0) = Some (''a.'', TypeA) \<and>
           (case svc_step ?s (CloseOp 0) st1 of None \<Rightarrow> False
            | Some st2 \<Rightarrow> (case ss_call st2 0 of
                Answered (Inr v) \<Rightarrow> v_addrs v = [Addr4 0x01000107] \<and> v_policy v = PolicyPreferChina | _ \<Rightarrow> False))))"
    by code_simp
  then show thesis
    using that by (auto simp del: svc_step.simps svc_run.simps split: option.splits call.splits sum.splits)
qed

text \<open>
  C4. A reload takes effect: take any run of a started program, with its lookups, engine runs, sweeps and reloads, to a
  moment at which assets have been loaded, and the step that completes this reload. From then on the engine has the new
  assets, and every value handed to a lookup for a name and type that nobody was asking for at that step, negative
  or positive, led, shared or cached, was computed for its key by an engine run with the new assets, or with those of
  a later reload, if there has been one. Its addresses honour the files of these assets, unless the name is the root or the files list an
  IPv6 prefix whose last address is IPv4-mapped. Lookups under way at the step may return, share and cache anything for their own keys.
\<close>

theorem reload_takes_effect:
  assumes "start_program decode frac files stat_ok fs now path = Inr (cfg, p)" "mono now"
    and "live_path cfg (rp_service p) UNIV (live_init p) L0" "lv_reload L0 \<in> {Loaded a, Swapped a}"
    and "live_step cfg (rp_service p) ReloadStep L0 = Some L1" "lv_reload L1 = AwaitSignal"
    and "a \<in> A" "live_path cfg (rp_service p) A L1 L2" "live_possible x L2" "live_step cfg (rp_service p) x L2 = Some L3"
    and "ss_call (lv_state L3) i = Answered (Inr v)" "ss_call (lv_state L2) i \<noteq> Answered (Inr v)"
    and "x = Serve (LookupOp i q t) \<or> asks (ss_call (lv_state L2) i) = Some (q, t)" "lookup_key q t \<notin> under_way (lv_state L0)"
  shows "en_assets (lv_engine L1) = a
    \<and> (\<exists>b\<in>A. \<exists>q' t' res. lookup_key q' t' = lookup_key q t \<and> engine_runs (fans_with (rp_engine p) b) q' t' res \<and> same_answer v (fromEngine res)
        \<and> (\<forall>fs'. loadAssets fs' cfg = Inr b \<longrightarrow> plain_prefixes fs' cfg \<longrightarrow> normalizeName q \<noteq> ''.'' \<longrightarrow>
             (\<forall>y\<in>set (v_addrs v). honours (listed fs' cfg) (Match (as_overrides b) q) (v_policy v) y)))"
proof -
  have "valid_config cfg" using loadConfig_valid start_program_parts(1) [OF assms(1)] by blast
  then have n: "0 \<le> MaxEntries cfg" by (simp add: valid_config_def valid_rest_def)
  note inv0 = live_inv_path [OF assms(3) live_inv_init [OF start_program_parts(4) [OF assms(1)] n assms(2)]]
  have inv1: "live_inv (rp_engine p) (under_way (lv_state L0)) A L1" "en_assets (lv_engine L1) = a"
    using live_inv_flushed [OF inv0 assms(4) _ assms(6,7)] assms(5) by simp_all
  from live_answer [OF live_inv_path [OF assms(8) inv1(1)] assms(9-14)]
  obtain b q' t' res where "b \<in> A" "lookup_key q' t' = lookup_key q t" "engine_runs (fans_with (rp_engine p) b) q' t' res"
    "same_answer v (fromEngine res)" by (auto simp: from_run_def runs_with_def)
  then show ?thesis using inv1(2) runs_honour [where q = q and t = t] by blast
qed

theorem reload_takes_effect_witness:
  "\<exists>p L0 L1 L2 L3 v. sample_start = Inr (sample_cfg, p) \<and> live_path sample_cfg (rp_service p) UNIV (live_init p) L0
     \<and> live_step sample_cfg (rp_service p) ReloadStep L0 = Some L1 \<and> live_path sample_cfg (rp_service p) {sample_assets} L1 L2
     \<and> live_step sample_cfg (rp_service p) (Serve (CloseOp 0)) L2 = Some L3 \<and> ss_call (lv_state L3) 0 = Answered (Inr v)
     \<and> v_addrs v = [Addr4 0x01000107] \<and> honours (listed sample_disk sample_cfg) (Match (as_overrides sample_assets) ''a.'') (v_policy v) (Addr4 0x01000107)"
proof -
  obtain p where p: "sample_start = Inr (sample_cfg, p)" using sample_start_ok by blast
  obtain st0 st st1 st2 v where st: "svc_step (service_of sample_cfg) FlushOp (service_init (Cache_New (MaxEntries sample_cfg) int)) = Some st0"
    "svc_run (service_of sample_cfg) [LookupOp 0 ''a.'' TypeA, EnterOp 0] st0 = Some st" "runs_engine st 0"
    "asks (ss_call st 0) = Some (''a.'', TypeA)" "svc_step (service_of sample_cfg) (EngineOp 0 sample_program_result) st = Some st1"
    "asks (ss_call st1 0) = Some (''a.'', TypeA)" "svc_step (service_of sample_cfg) (CloseOp 0) st1 = Some st2"
    "ss_call st2 0 = Answered (Inr v)" "v_addrs v = [Addr4 0x01000107]" "v_policy v = PolicyPreferChina"
    by (rule sample_reloaded)
  have parts: "rp_service p = service_of sample_cfg" "lv_state (live_init p) = service_init (Cache_New (MaxEntries sample_cfg) int)"
    "en_assets (rp_engine p) = sample_assets" "UpdateAssets (rp_engine p) sample_assets = rp_engine p"
    using start_program_parts(2-4) [OF p] sample_loadAssets by (auto simp: live_init_def UpdateAssets_def Engine_New_def)
  define L0 where "L0 = (live_init p)\<lparr>lv_reload := Swapped sample_assets\<rparr>"
  have "live_path sample_cfg (service_of sample_cfg) UNIV (live_init p) ((live_init p)\<lparr>lv_reload := Loaded sample_assets\<rparr>)"
    by (rule live_path.step [OF live_path.refl, where x = "Signal sample_disk"])
      (simp_all add: reload_signal_def live_init_def sample_loadAssets live_possible_def)
  then have path0: "live_path sample_cfg (service_of sample_cfg) UNIV (live_init p) L0"
    by (rule live_path.step [where x = ReloadStep]) (simp_all add: handleReloads_def L0_def live_init_def parts live_possible_def)
  define L1 where "L1 = (live_init p)\<lparr>lv_state := st0\<rparr>"
  have flush: "live_step sample_cfg (service_of sample_cfg) ReloadStep L0 = Some L1"
    using st(1) parts(2) by (simp add: handleReloads_def L0_def L1_def live_init_def del: svc_step.simps)
  have eng: "en_assets (lv_engine L1) = sample_assets" "lv_run L1 = (\<lambda>_. None)" by (simp_all add: L1_def live_init_def parts)
  have "live_path sample_cfg (service_of sample_cfg) {sample_assets} L1 (L1\<lparr>lv_state := st\<rparr>)"
    using live_quiet_run [OF live_path.refl _ _ , of L1 "{sample_assets}" "[LookupOp 0 ''a.'' TypeA, EnterOp 0]" "service_of sample_cfg" st] st(2) eng(1)
    by (simp add: L1_def del: svc_run.simps)
  then have "live_path sample_cfg (service_of sample_cfg) {sample_assets} L1 (L1\<lparr>lv_state := st, lv_run := [0 \<mapsto> sample_assets]\<rparr>)"
    by (rule live_path.step [where x = "BeginRun 0"]) (use st(3) eng in \<open>simp_all add: live_possible_def\<close>)
  then have path2: "live_path sample_cfg (service_of sample_cfg) {sample_assets} L1 (L1\<lparr>lv_state := st1\<rparr>)"
    by (rule live_path.step [where x = "Serve (EngineOp 0 sample_program_result)"])
      (use st(4,5) eng sample_program_run [OF p] fans_with_current [of p] parts(3) in
        \<open>simp_all add: live_possible_def L1_def live_init_def del: svc_step.simps\<close>)
  have close: "live_step sample_cfg (service_of sample_cfg) (Serve (CloseOp 0)) (L1\<lparr>lv_state := st1\<rparr>) = Some (L1\<lparr>lv_state := st2\<rparr>)"
    using st(7) by (simp del: svc_step.simps)
  have "normalizeName ''a.'' \<noteq> ''.''" by code_simp
  moreover have "mono int" "ss_call st1 0 \<noteq> Answered (Inr v)" using st(6) by (auto simp: mono_def)
  moreover have "lookup_key ''a.'' TypeA \<notin> under_way (lv_state L0)" by (simp add: L0_def live_init_def under_way_def service_init_def)
  ultimately have "honours (listed sample_disk sample_cfg) (Match (as_overrides sample_assets) ''a.'') (v_policy v) (Addr4 0x01000107)"
    using reload_takes_effect [OF p _ path0 [folded parts(1)] _ flush [folded parts(1)] _ _ path2 [folded parts(1)] _ close [folded parts(1)],
        of sample_assets 0 v "''a.''" TypeA] st(6,8,9) sample_loadAssets sample_plain
    by (auto simp: L0_def L1_def live_init_def live_possible_def)
  then show ?thesis using p path0 flush path2 close st(8,9) parts(1)
    by (intro exI [of _ p] exI [of _ L0] exI [of _ L1] exI [of _ "L1\<lparr>lv_state := st1\<rparr>"] exI [of _ "L1\<lparr>lv_state := st2\<rparr>"] exI [of _ v]) simp
qed

section \<open>What a scrape tells\<close>

text \<open>
  C33. The exported metrics count the resolutions: whatever fan-outs the program has begun, before and after reloads, and however
  far each has come, once the callback has seen their reports in any order of interleaving, the text of \<^verbatim>\<open>Write\<close> parses, has
  no series twice, and gives for every configured upstream, named by text that denotes its address and port, and for
  every state the number of fan-outs with a report of this state from the upstream, modulo 2^64. Only a count of zero may
  have no sample. Names of response codes must be ASCII text.
\<close>

theorem scrape_counts_resolutions:
  assumes "start_program decode frac files stat_ok fs now path = Inr (cfg, p)"
    and "\<forall>u\<in>set (Upstreams cfg). ascii (addr_zone (cu_addr u))"
    and "\<forall>(f, s)\<in>set runs. program_fan p f \<and> fan_reach f s" "\<forall>(f, s)\<in>set runs. \<forall>c. ascii (rcode_string (fan_lib f) c)"
    and "mset log = mset (concat (map (on_result \<circ> snd) runs))" "valid_order (program_metrics p log) ord"
  shows "\<exists>t ss. Metrics_Write high ord uptime (program_metrics p log) = Some t \<and> scrape t = Some ss \<and> distinct (map series_of ss)
    \<and> (\<forall>i<length (rp_upstreams p). \<exists>label.
        parse_addr_port label = Some (cu_addr (Upstreams cfg ! i), nat (cu_port (Upstreams cfg ! i)))
        \<and> (\<forall>st. exports_count ss label st (length (filter (\<lambda>x. reported (snd x) (cu_addr (Upstreams cfg ! i)) st) runs))))"
proof -
  have ups: "cu_addr (Upstreams cfg ! i) = ap_addr (up_addr (rp_upstreams p ! i))" if "i < length (rp_upstreams p)" for i
    using arg_cong [OF rp_metrics_ups(3) [OF assms(1)], of "\<lambda>xs. ap_addr (xs ! i)"]
      arg_cong [OF rp_metrics_ups(3) [OF assms(1)], of length] that by simp
  have "log_count log i st = length (filter (\<lambda>x. reported (snd x) (cu_addr (Upstreams cfg ! i)) st) runs)"
    if "i < length (rp_upstreams p)" for i st
    using resolutions_log [OF assms(1,3,5) that] by (simp add: ups [OF that])
  moreover have "\<forall>x\<in>set log. fst x < length (rp_upstreams p) \<and> ascii (snd (snd x))"
    using resolutions_log_fields [OF assms(1,3-5)] by blast
  note program_exports_results [OF assms(1,2) this assms(6), of high uptime]
  ultimately show ?thesis by simp
qed

definition sample_log :: "(nat \<times> State \<times> gostring) list" where
  "sample_log = [(1, StateAnswer, []), (1, StateAnswer, []), (0, StateAnswer, []), (0, StateAnswer, [])]"

lemma sample_resolution_log:
  "case fan_run sample_resolution [Finish 1 5, Receive, Finish 0 9, Receive] (fan_init sample_resolution) of
     None \<Rightarrow> False
   | Some s \<Rightarrow> on_result s = [(1, StateAnswer, []), (0, StateAnswer, [])] \<and> reported s (Addr4 0x08080808) StateAnswer"
  by code_simp

lemma sample_log_order:
  assumes "sample_start = Inr (sample_cfg, p)"
  shows "valid_order (program_metrics p sample_log) [([''answer''], []), ([''answer''], [])]"
proof -
  have "length (rp_upstreams p) = 2"
    using arg_cong [OF rp_metrics_ups(3) [OF assms], of length] start_program_parts(2) [OF assms] sample_loadAssets
    by (auto simp: sample_cfg_values sample_program_upstreams_def)
  then obtain u v where ups: "rp_upstreams p = [u, v]" by (auto simp: length_Suc_conv numeral_2_eq_2)
  have "met_upstreams (program_metrics p sample_log) =
      [\<lparr>um_addr = addr_port_string (up_addr u), um_results = [''answer'' \<mapsto> 2], um_failures = Map.empty\<rparr>,
       \<lparr>um_addr = addr_port_string (up_addr v), um_results = [''answer'' \<mapsto> 2], um_failures = Map.empty\<rparr>]"
    using rp_metrics_ups(1) [OF assms]
    by (simp add: program_metrics_def sample_log_def ups on_result_callback_def RecordUpstreamResult_def bump_def)
  then show ?thesis by (simp add: valid_order_def visits_def)
qed

theorem scrape_counts_resolutions_witness:
  "\<exists>p t ss label. sample_start = Inr (sample_cfg, p)
    \<and> Metrics_Write (\<lambda>s. s) [([''answer''], []), ([''answer''], [])] 9 (program_metrics p sample_log) = Some t
    \<and> scrape t = Some ss \<and> parse_addr_port label = Some (Addr4 0x08080808, 5353) \<and> exports_count ss label StateAnswer 2"
proof -
  obtain p where p: "sample_start = Inr (sample_cfg, p)" using sample_start_ok by blast
  obtain s where s: "fan_run sample_resolution [Finish 1 5, Receive, Finish 0 9, Receive] (fan_init sample_resolution) = Some s"
    "on_result s = [(1, StateAnswer, []), (0, StateAnswer, [])]" "reported s (Addr4 0x08080808) StateAnswer"
    using sample_resolution_log by (auto split: option.splits)
  define runs where "runs = [(sample_resolution, s), (sample_resolution, s)]"
  have parts: "rp_engine p = (Engine_New sample_assets sample_program_upstreams 1500000000 10 1232)\<lparr>en_onresult := True\<rparr>"
    "rp_upstreams p = sample_program_upstreams"
    using start_program_parts(2) [OF p] sample_loadAssets by (auto simp: sample_cfg_values)
  have "program_fan p sample_resolution"
    by (simp add: program_fan_def parts sample_resolution_def fan_start_def UpdateAssets_def Engine_New_def)
  moreover have "fan_reach sample_resolution s" by (rule fan_run_reach [OF fan_reach.init s(1)])
  ultimately have reach: "\<forall>(f, s)\<in>set runs. program_fan p f \<and> fan_reach f s" by (simp add: runs_def)
  have names: "\<forall>(f, s)\<in>set runs. \<forall>c. ascii (rcode_string (fan_lib f) c)"
    by (simp add: runs_def sample_resolution_def fan_start_def ref_lib_def ascii_def)
  have log: "mset sample_log = mset (concat (map (on_result \<circ> snd) runs))" by (simp add: sample_log_def runs_def s(2))
  have cfg: "list_all (\<lambda>u. addr_zone (cu_addr u) = []) (Upstreams sample_cfg)"
    "cu_addr (Upstreams sample_cfg ! 1) = Addr4 0x08080808" "cu_port (Upstreams sample_cfg ! 1) = 5353"
    by code_simp+
  have zones: "\<forall>u\<in>set (Upstreams sample_cfg). ascii (addr_zone (cu_addr u))" using cfg(1) by (simp add: list_all_iff ascii_def)
  have i: "1 < length (rp_upstreams p)" by (simp add: parts sample_program_upstreams_def)
  obtain t ss where t: "Metrics_Write (\<lambda>s. s) [([''answer''], []), ([''answer''], [])] 9 (program_metrics p sample_log) = Some t"
    "scrape t = Some ss" and ss: "\<forall>i<length (rp_upstreams p). \<exists>label.
        parse_addr_port label = Some (cu_addr (Upstreams sample_cfg ! i), nat (cu_port (Upstreams sample_cfg ! i)))
        \<and> (\<forall>st. exports_count ss label st (length (filter (\<lambda>x. reported (snd x) (cu_addr (Upstreams sample_cfg ! i)) st) runs)))"
    using scrape_counts_resolutions [OF p zones reach names log sample_log_order [OF p], of "\<lambda>s. s" 9] by (elim exE conjE)
  have "length (filter (\<lambda>x. reported (snd x) (Addr4 0x08080808) StateAnswer) runs) = 2" by (simp add: runs_def s(3))
  then have "\<exists>label. parse_addr_port label = Some (Addr4 0x08080808, 5353) \<and> exports_count ss label StateAnswer 2"
    using ss [rule_format, OF i, unfolded cfg(2,3)] by (metis nat_numeral)
  then show ?thesis using p t by blast
qed

end
